(* ===== verification/Prelude.thy ===== *)
theory Prelude
  imports Main "HOL-Library.Word" "HOL-Library.Char_ord" "HOL-Library.Multiset"
begin

text \<open>
  Shared vocabulary of the development. A Go call ends in one of three ways, so its result
  is a value of \<open>res\<close>: it returns normally (\<open>Ok\<close>), it returns a non-nil error
  (\<open>Err\<close>, over an error datatype per component) or it panics (\<open>Panic\<close>). The theory also
  fixes the machine integers (\<open>int\<close> and \<open>int64\<close> of a 64-bit Go platform are \<open>i64\<close>,
  \<open>uint64\<close> is \<open>u64\<close>, both 64-bit words), byte sequences (Go \<open>string\<close> and \<open>[]byte\<close> are
  HOL strings, whose characters are exactly the 256 byte values), the loop
  "for each element, stop at the first error" (\<open>fold_res\<close>) with its invariant rules, the
  zero-valued map read, and \<open>sort.Slice\<close>.
\<close>

named_theorems res_simps \<open>equations that evaluate and invert the result monad\<close>
named_theorems wrap_simps \<open>signed readings of 64-bit arithmetic that does not overflow\<close>

section \<open>Results of Go calls\<close>

text \<open>
  \<open>EndlessLoop\<close> is not a run-time panic but the value of a call that never returns. It ends a
  computation like a panic, except that nothing runs afterwards: no deferred call, and no
  exit of the program.
\<close>

datatype panic =
    NilDereference
  | IndexOutOfRange
  | SliceOutOfRange
  | DivideByZero
  | NegativeWaitGroup
  | EndlessLoop

datatype ('e, 'a) res = Ok (ok_val: 'a) | Err 'e | Panic panic

primrec bind_res :: "('e, 'a) res \<Rightarrow> ('a \<Rightarrow> ('e, 'b) res) \<Rightarrow> ('e, 'b) res" where
  "bind_res (Ok x) f = f x"
| "bind_res (Err e) f = Err e"
| "bind_res (Panic p) f = Panic p"

primrec map_err :: "('e \<Rightarrow> 'f) \<Rightarrow> ('e, 'a) res \<Rightarrow> ('f, 'a) res" where
  "map_err g (Ok x) = Ok x"
| "map_err g (Err e) = Err (g e)"
| "map_err g (Panic p) = Panic p"

definition is_Ok :: "('e, 'a) res \<Rightarrow> bool" where
  "is_Ok r = (case r of Ok _ \<Rightarrow> True | _ \<Rightarrow> False)"

definition no_panic :: "('e, 'a) res \<Rightarrow> bool" where
  "no_panic r = (case r of Panic _ \<Rightarrow> False | _ \<Rightarrow> True)"

lemma is_Ok_simps [simp]:
  "is_Ok (Ok x)" "\<not> is_Ok (Err e)" "\<not> is_Ok (Panic p)"
  by (simp_all add: is_Ok_def)

lemma no_panic_simps [simp]:
  "no_panic (Ok x)" "no_panic (Err e)" "\<not> no_panic (Panic p)"
  by (simp_all add: no_panic_def)

lemma is_Ok_iff: "is_Ok r \<longleftrightarrow> (\<exists>x. r = Ok x)"
  by (cases r) auto

lemma bind_res_eq_Ok [res_simps]:
  "bind_res m f = Ok y \<longleftrightarrow> (\<exists>x. m = Ok x \<and> f x = Ok y)"
  by (cases m) auto

lemma bind_res_eq_Err [res_simps]:
  "bind_res m f = Err e \<longleftrightarrow> m = Err e \<or> (\<exists>x. m = Ok x \<and> f x = Err e)"
  by (cases m) auto

lemma bind_res_eq_Panic [res_simps]:
  "bind_res m f = Panic p \<longleftrightarrow> m = Panic p \<or> (\<exists>x. m = Ok x \<and> f x = Panic p)"
  by (cases m) auto

lemma map_err_eq_Ok [res_simps, simp]: "map_err g m = Ok x \<longleftrightarrow> m = Ok x"
  by (cases m) auto

lemma map_err_eq_Panic [res_simps, simp]: "map_err g m = Panic p \<longleftrightarrow> m = Panic p"
  by (cases m) auto

lemma map_err_eq_Err [res_simps]: "map_err g m = Err e \<longleftrightarrow> (\<exists>d. m = Err d \<and> e = g d)"
  by (cases m) auto

lemma is_Ok_map_err [simp]: "is_Ok (map_err g m) \<longleftrightarrow> is_Ok m"
  by (cases m) auto

lemma no_panic_map_err [simp]: "no_panic (map_err g m) \<longleftrightarrow> no_panic m"
  by (cases m) auto

lemma no_panic_bind:
  "no_panic m \<Longrightarrow> (\<And>x. m = Ok x \<Longrightarrow> no_panic (f x)) \<Longrightarrow> no_panic (bind_res m f)"
  by (cases m) auto

text \<open>Following a pointer: a nil pointer panics.\<close>

definition deref :: "'a option \<Rightarrow> ('e, 'a) res" where
  "deref p = (case p of None \<Rightarrow> Panic NilDereference | Some x \<Rightarrow> Ok x)"

lemma deref_simps [simp]: "deref (Some x) = Ok x" "deref None = Panic NilDereference"
  by (simp_all add: deref_def)

lemma deref_eq_Ok [res_simps]: "deref p = Ok x \<longleftrightarrow> p = Some x"
  by (cases p) auto

section \<open>Loops over a slice that stop at the first error\<close>

primrec fold_res :: "('x \<Rightarrow> 's \<Rightarrow> ('e, 's) res) \<Rightarrow> 'x list \<Rightarrow> 's \<Rightarrow> ('e, 's) res" where
  "fold_res f [] s = Ok s"
| "fold_res f (x # xs) s = bind_res (f x s) (fold_res f xs)"

lemma fold_res_append:
  "fold_res f (xs @ ys) s = bind_res (fold_res f xs s) (fold_res f ys)"
proof (induction xs arbitrary: s)
  case (Cons x xs)
  then show ?case by (cases "f x s") auto
qed simp

lemma fold_res_map: "fold_res f (map g xs) s = fold_res (\<lambda>x. f (g x)) xs s"
proof (induction xs arbitrary: s)
  case (Cons x xs)
  then show ?case by (cases "f (g x) s") auto
qed simp

lemma fold_res_cong:
  "(\<And>x s. x \<in> set xs \<Longrightarrow> f x s = g x s) \<Longrightarrow> fold_res f xs s = fold_res g xs s"
proof (induction xs arbitrary: s)
  case (Cons x xs)
  then show ?case by (cases "g x s") auto
qed simp

text \<open>
  The contract of such a loop: a step that keeps an invariant on every normal return.
  The locale is interpreted on the ledger's transaction step and on the chain's block step.
\<close>

locale kept_by_step =
  fixes step :: "'x \<Rightarrow> 's \<Rightarrow> ('e, 's) res"
    and good :: "'x \<Rightarrow> bool"
    and inv :: "'s \<Rightarrow> bool"
  assumes keeps: "inv s \<Longrightarrow> good x \<Longrightarrow> step x s = Ok s' \<Longrightarrow> inv s'"
begin

lemma fold_keeps:
  "inv s \<Longrightarrow> list_all good xs \<Longrightarrow> fold_res step xs s = Ok s' \<Longrightarrow> inv s'"
proof (induction xs arbitrary: s)
  case (Cons x xs)
  then obtain t where "step x s = Ok t" "fold_res step xs t = Ok s'"
    by (auto simp: bind_res_eq_Ok)
  with Cons show ?case by (auto intro: keeps)
qed simp

lemma fold_keeps_prefix:
  assumes "inv s" "list_all good xs" "fold_res step xs s = Ok s'" "n \<le> length xs"
  shows "\<exists>t. fold_res step (take n xs) s = Ok t \<and> inv t"
proof -
  from assms(3) have "bind_res (fold_res step (take n xs) s) (fold_res step (drop n xs)) = Ok s'"
    by (metis append_take_drop_id fold_res_append)
  then obtain t where t: "fold_res step (take n xs) s = Ok t"
    by (auto simp: bind_res_eq_Ok)
  have "list_all good (take n xs)"
    using assms(2) by (auto simp: list_all_iff dest: in_set_takeD)
  with t assms(1) have "inv t" by (blast intro: fold_keeps)
  with t show ?thesis by blast
qed

end

section \<open>Machine integers\<close>

type_synonym i64 = "64 word"
type_synonym u64 = "64 word"

text \<open>Go's \<open>/\<close> and \<open>%\<close> on signed integers truncate towards zero; a zero divisor panics.\<close>

definition trunc_quot :: "int \<Rightarrow> int \<Rightarrow> int" where
  "trunc_quot x y = (\<bar>x\<bar> div \<bar>y\<bar>) * (sgn x * sgn y)"

definition trunc_mod :: "int \<Rightarrow> int \<Rightarrow> int" where
  "trunc_mod a b = a - b * trunc_quot a b"

definition sdiv64 :: "i64 \<Rightarrow> i64 \<Rightarrow> i64" where
  "sdiv64 a b = word_of_int (trunc_quot (sint a) (sint b))"

definition smod64 :: "i64 \<Rightarrow> i64 \<Rightarrow> i64" where
  "smod64 a b = word_of_int (trunc_mod (sint a) (sint b))"

definition smod_res :: "i64 \<Rightarrow> i64 \<Rightarrow> ('e, i64) res" where
  "smod_res a b = (if b = 0 then Panic DivideByZero else Ok (smod64 a b))"

definition max_int :: i64 where
  "max_int = 0x7FFFFFFFFFFFFFFF"

text \<open>\<open>len\<close> of a slice or a string, as a Go \<open>int\<close>.\<close>

definition len :: "'a list \<Rightarrow> i64" where
  "len xs = word_of_nat (length xs)"

lemma sint_range64: "- (2 ^ 63) \<le> sint (a :: 64 word)" "sint (a :: 64 word) < 2 ^ 63"
  using sint_ge [of a] sint_lt [of a] by simp_all

lemma signed_take_bit_63:
  "- (2 ^ 63) \<le> x \<Longrightarrow> x < 2 ^ 63 \<Longrightarrow> signed_take_bit 63 x = (x :: int)"
  by (rule signed_take_bit_int_eq_self) simp_all

lemma sint_plus64 [wrap_simps]:
  "- (2 ^ 63) \<le> sint a + sint b \<Longrightarrow> sint a + sint b < 2 ^ 63 \<Longrightarrow>
   sint (a + b :: 64 word) = sint a + sint b"
  by (simp add: sint_word_add signed_take_bit_63)

lemma sint_minus64 [wrap_simps]:
  "- (2 ^ 63) \<le> sint a - sint b \<Longrightarrow> sint a - sint b < 2 ^ 63 \<Longrightarrow>
   sint (a - b :: 64 word) = sint a - sint b"
  by (simp add: sint_word_ariths(2) signed_take_bit_63)

lemma sint_times64 [wrap_simps]:
  "- (2 ^ 63) \<le> sint a * sint b \<Longrightarrow> sint a * sint b < 2 ^ 63 \<Longrightarrow>
   sint (a * b :: 64 word) = sint a * sint b"
  by (simp add: sint_word_ariths(3) signed_take_bit_63)

lemma sint_of_int64 [wrap_simps]:
  "- (2 ^ 63) \<le> x \<Longrightarrow> x < 2 ^ 63 \<Longrightarrow> sint (word_of_int x :: 64 word) = x"
  by (simp add: sint_sbintrunc' signed_take_bit_63)

lemma sint_of_nat64 [wrap_simps]:
  "n < 2 ^ 63 \<Longrightarrow> sint (word_of_nat n :: 64 word) = int n"
  using sint_of_int64 [of "int n"] by simp

lemma sint_1_64 [simp]: "sint (1 :: 64 word) = 1"
  by simp

lemma sint_max_int [simp]: "sint max_int = 2 ^ 63 - 1"
  by (simp add: max_int_def)

lemma sint_inject64: "sint (a :: 64 word) = sint b \<longleftrightarrow> a = b"
  by (auto intro: signed_word_eqI)

lemma sint_len [wrap_simps]: "length xs < 2 ^ 63 \<Longrightarrow> sint (len xs) = int (length xs)"
  by (simp add: len_def sint_of_nat64)

lemma sint_succ64:
  "a \<noteq> max_int \<Longrightarrow> sint (a + 1) = sint a + 1"
  using sint_range64 [of a] sint_inject64 [of a max_int] by (intro sint_plus64 [where b = 1, simplified]) auto

section \<open>Slices, maps and sorting\<close>

text \<open>\<open>xs[i]\<close>: an index outside \<open>0 <= i < len(xs)\<close> panics.\<close>

definition index_at :: "'a list \<Rightarrow> i64 \<Rightarrow> ('e, 'a) res" where
  "index_at xs i =
     (if 0 \<le> sint i \<and> sint i < int (length xs) then Ok (xs ! nat (sint i))
      else Panic IndexOutOfRange)"

lemma index_at_Ok [res_simps]:
  "index_at xs i = Ok x \<longleftrightarrow> 0 \<le> sint i \<and> sint i < int (length xs) \<and> x = xs ! nat (sint i)"
  by (auto simp: index_at_def)

lemma index_at_no_Err [simp]: "index_at xs i \<noteq> Err e"
  by (simp add: index_at_def)

text \<open>Reading a Go map at a missing key gives the zero value.\<close>

definition map_get :: "('k \<rightharpoonup> 'v :: zero) \<Rightarrow> 'k \<Rightarrow> 'v" where
  "map_get m k = (case m k of None \<Rightarrow> 0 | Some v \<Rightarrow> v)"

lemma map_get_empty [simp]: "map_get Map.empty k = 0"
  by (simp add: map_get_def)

lemma map_get_upd [simp]: "map_get (m(k \<mapsto> v)) k' = (if k' = k then v else map_get m k')"
  by (simp add: map_get_def)

text \<open>
  \<open>sort.Slice\<close> by an integer key. It sorts, but it is not guaranteed to be stable: where two
  elements have the same key, their order in the result is not specified, so all that is
  known there is that the result is a sorted permutation. With distinct keys there is only
  one, and the definition computes it.
\<close>

definition sort_slice :: "('a \<Rightarrow> i64) \<Rightarrow> 'a list \<Rightarrow> 'a list" where
  "sort_slice key xs =
     (if distinct (map key xs) then sort_key (\<lambda>x. sint (key x)) xs
      else SOME ys. mset ys = mset xs \<and> sorted (map (\<lambda>x. sint (key x)) ys))"

lemma sort_slice_sorts: "mset (sort_slice key xs) = mset xs \<and> sorted (map (\<lambda>x. sint (key x)) (sort_slice key xs))"
proof (cases "distinct (map key xs)")
  case False
  have "mset (sort_key (\<lambda>x. sint (key x)) xs) = mset xs
      \<and> sorted (map (\<lambda>x. sint (key x)) (sort_key (\<lambda>x. sint (key x)) xs))" by simp
  from someI [of "\<lambda>ys. mset ys = mset xs \<and> sorted (map (\<lambda>x. sint (key x)) ys)", OF this] False
  show ?thesis by (simp add: sort_slice_def)
qed (simp add: sort_slice_def)

lemma mset_sort_slice [simp]: "mset (sort_slice key xs) = mset xs"
  using sort_slice_sorts by blast

lemma set_sort_slice [simp]: "set (sort_slice key xs) = set xs"
  by (rule mset_eq_setD) simp

lemma length_sort_slice [simp]: "length (sort_slice key xs) = length xs"
  by (rule mset_eq_length) simp

lemma sorted_sort_slice: "sorted (map (\<lambda>x. sint (key x)) (sort_slice key xs))"
  using sort_slice_sorts by blast

lemma sort_slice_distinct: "distinct (map key xs) \<Longrightarrow> sort_slice key xs = sort_key (\<lambda>x. sint (key x)) xs"
  by (simp add: sort_slice_def)

text \<open>Every correct sort gives this result when no two different elements share a key.\<close>

lemma sort_slice_unique:
  assumes "mset ys = mset xs" "sorted (map (\<lambda>x. sint (key x)) ys)"
    and "inj_on key (set xs)"
  shows "sort_slice key xs = ys"
proof -
  have "inj_on (\<lambda>x. sint (key x)) (set xs)"
    using assms(3) by (auto simp: inj_on_def sint_inject64)
  then have "sort_key (\<lambda>x. sint (key x)) xs = zs"
    if "mset zs = mset xs" "sorted (map (\<lambda>x. sint (key x)) zs)" for zs
    using that by (intro sort_key_inj_key_eq) simp_all
  from this [OF mset_sort_slice sorted_sort_slice] this [OF assms(1,2)] show ?thesis by simp
qed

end
