(* ===== verification/Bytes.thy ===== *)
theory Bytes
  imports Prelude
begin

text \<open>
  The byte-level parts of the Go standard library that the program calls: \<open>encoding/hex\<close>,
  decimal printing and parsing (\<open>strconv.ParseInt\<close>, \<open>ParseUint\<close> and the printing of
  integers in JSON), \<open>strings.TrimSpace\<close>, \<open>strings.HasPrefix\<close>, \<open>strings.Repeat\<close>. A byte is a
  \<open>char\<close>; its value is read as an \<open>int\<close>. The lemmas give the round trips.
\<close>

section \<open>Byte values\<close>

definition byte :: "char \<Rightarrow> int" where
  "byte c = of_char c"

lemma byte_bounds [simp]: "0 \<le> byte c" "byte c < 256"
proof -
  have "byte c = byte c mod 256" by (simp add: byte_def)
  then show "0 \<le> byte c" "byte c < 256" by presburger+
qed

lemma char_of_byte [simp]: "char_of (byte c) = c"
  by (simp add: byte_def)

lemma byte_char_of [simp]: "byte (char_of n) = n mod 256"
  by (simp add: byte_def)

lemma byte_inject: "byte a = byte b \<longleftrightarrow> a = b"
  by (metis char_of_byte)

section \<open>Package encoding/hex\<close>

definition hex_digit :: "int \<Rightarrow> char" where
  "hex_digit n = (if n < 10 then char_of (48 + n) else char_of (87 + n))"

definition hex_pair :: "char \<Rightarrow> string" where
  "hex_pair c = [hex_digit (byte c div 16), hex_digit (byte c mod 16)]"

definition hex_encode :: "string \<Rightarrow> string" where
  "hex_encode bs = concat (map hex_pair bs)"

definition unhex :: "char \<Rightarrow> int option" where
  "unhex c =
     (let n = byte c in
      if 48 \<le> n \<and> n \<le> 57 then Some (n - 48)
      else if 97 \<le> n \<and> n \<le> 102 then Some (n - 87)
      else if 65 \<le> n \<and> n \<le> 70 then Some (n - 55)
      else None)"

fun hex_decode :: "string \<Rightarrow> string option" where
  "hex_decode [] = Some []"
| "hex_decode [c] = None"
| "hex_decode (a # b # r) =
     (case (unhex a, unhex b) of
        (Some x, Some y) \<Rightarrow> map_option ((#) (char_of (16 * x + y))) (hex_decode r)
      | _ \<Rightarrow> None)"

lemma unhex_hex_digit: "0 \<le> n \<Longrightarrow> n < 16 \<Longrightarrow> unhex (hex_digit n) = Some n"
  by (auto simp: unhex_def hex_digit_def Let_def)

lemma hex_encode_Nil [simp]: "hex_encode [] = []"
  by (simp add: hex_encode_def)

lemma hex_encode_Cons: "hex_encode (c # bs) = hex_pair c @ hex_encode bs"
  by (simp add: hex_encode_def)

lemma length_hex_encode [simp]: "length (hex_encode bs) = 2 * length bs"
  by (induction bs) (simp_all add: hex_encode_Cons hex_pair_def)

lemma hex_decode_encode [simp]: "hex_decode (hex_encode bs) = Some bs"
proof (induction bs)
  case (Cons c bs)
  have "unhex (hex_digit (byte c div 16)) = Some (byte c div 16)"
    "unhex (hex_digit (byte c mod 16)) = Some (byte c mod 16)"
    using byte_bounds [of c] by (intro unhex_hex_digit; linarith)+
  with Cons show ?case by (simp add: hex_encode_Cons hex_pair_def)
qed simp

lemma hex_encode_inject [simp]: "hex_encode a = hex_encode b \<longleftrightarrow> a = b"
  by (metis hex_decode_encode option.inject)

lemma hex_decode_length: "hex_decode s = Some bs \<Longrightarrow> length s = 2 * length bs"
  by (induction s arbitrary: bs rule: hex_decode.induct) (auto split: option.splits)

definition ascii :: "string \<Rightarrow> bool" where
  "ascii s = list_all (\<lambda>c. byte c < 128) s"

lemma ascii_hex_digit: "0 \<le> n \<Longrightarrow> n < 16 \<Longrightarrow> byte (hex_digit n) < 128"
  by (auto simp: hex_digit_def)

lemma ascii_hex_encode [simp]: "ascii (hex_encode bs)"
proof (induction bs)
  case (Cons c bs)
  have "byte (hex_digit (byte c div 16)) < 128" "byte (hex_digit (byte c mod 16)) < 128"
    using byte_bounds [of c] by (intro ascii_hex_digit; linarith)+
  with Cons show ?case by (simp add: ascii_def hex_encode_Cons hex_pair_def)
qed (simp add: ascii_def)

section \<open>Decimal numbers\<close>

function dec_nat :: "int \<Rightarrow> string" where
  "dec_nat n = (if n < 10 then [char_of (48 + n)] else dec_nat (n div 10) @ [char_of (48 + n mod 10)])"
  by pat_completeness auto
termination by (relation "measure nat") auto

declare dec_nat.simps [simp del]

definition dec_int :: "int \<Rightarrow> string" where
  "dec_int i = (if i < 0 then CHR ''-'' # dec_nat (- i) else dec_nat i)"

definition is_digit :: "char \<Rightarrow> bool" where
  "is_digit c \<longleftrightarrow> 48 \<le> byte c \<and> byte c \<le> 57"

definition digits_value :: "string \<Rightarrow> int" where
  "digits_value s = foldl (\<lambda>a c. a * 10 + (byte c - 48)) 0 s"

lemma digits_value_snoc: "digits_value (s @ [c]) = digits_value s * 10 + (byte c - 48)"
  by (simp add: digits_value_def)

lemma dec_nat_nonempty [simp]: "dec_nat n \<noteq> []"
  by (subst dec_nat.simps) simp

lemma dec_nat_digits: "0 \<le> n \<Longrightarrow> list_all is_digit (dec_nat n)"
proof (induction n rule: dec_nat.induct)
  case (1 n)
  then show ?case
    by (subst dec_nat.simps) (auto simp: is_digit_def [of "char_of _"])
qed

lemma digits_value_dec_nat: "0 \<le> n \<Longrightarrow> digits_value (dec_nat n) = n"
proof (induction n rule: dec_nat.induct)
  case (1 n)
  show ?case
  proof (cases "n < 10")
    case True
    with 1 show ?thesis by (subst dec_nat.simps) (simp add: digits_value_def)
  next
    case False
    with 1 have "digits_value (dec_nat (n div 10)) = n div 10" by simp
    with False show ?thesis by (subst dec_nat.simps) (simp add: digits_value_snoc)
  qed
qed

lemma dec_nat_hd_zero: "0 \<le> n \<Longrightarrow> hd (dec_nat n) = CHR ''0'' \<Longrightarrow> n = 0 \<and> dec_nat n = ''0''"
proof (induction n rule: dec_nat.induct)
  case (1 n)
  show ?case
  proof (cases "n < 10")
    case True
    with "1.prems" have "char_of (48 + n) = CHR ''0''"
      by (subst (asm) dec_nat.simps) simp
    then have "byte (char_of (48 + n)) = byte (CHR ''0'')" by simp
    with True "1.prems"(1) have "n = 0" by (simp add: byte_def)
    moreover have "char_of (48 :: int) = CHR ''0''"
      by (simp add: byte_def flip: byte_inject)
    ultimately show ?thesis by (simp add: dec_nat.simps)
  next
    case False
    with "1.prems" have "hd (dec_nat (n div 10)) = CHR ''0''"
      by (subst (asm) dec_nat.simps) simp
    with False 1 have "n div 10 = 0" by simp
    with False "1.prems" show ?thesis by simp
  qed
qed

text \<open>
  \<open>strconv.ParseUint(s, 10, 64)\<close> and \<open>strconv.ParseInt(s, 10, 64)\<close>; \<open>strconv.Atoi\<close> is the
  latter on a 64-bit platform.
\<close>

datatype num_error = NumSyntax | NumRange

definition parse_digits :: "string \<Rightarrow> int option" where
  "parse_digits s = (if s \<noteq> [] \<and> list_all is_digit s then Some (digits_value s) else None)"

definition ParseUint :: "string \<Rightarrow> (num_error, u64) res" where
  "ParseUint s =
     (case parse_digits s of
        None \<Rightarrow> Err NumSyntax
      | Some n \<Rightarrow> if n < 2 ^ 64 then Ok (word_of_int n) else Err NumRange)"

definition ParseInt :: "string \<Rightarrow> (num_error, i64) res" where
  "ParseInt s =
     (let neg = (s \<noteq> [] \<and> hd s = CHR ''-'');
          body = (if s \<noteq> [] \<and> (hd s = CHR ''-'' \<or> hd s = CHR ''+'') then tl s else s)
      in case parse_digits body of
           None \<Rightarrow> Err NumSyntax
         | Some n \<Rightarrow>
             if neg then (if n \<le> 2 ^ 63 then Ok (word_of_int (- n)) else Err NumRange)
             else (if n < 2 ^ 63 then Ok (word_of_int n) else Err NumRange))"

lemma parse_digits_dec_nat [simp]: "0 \<le> n \<Longrightarrow> parse_digits (dec_nat n) = Some n"
  by (simp add: parse_digits_def dec_nat_digits digits_value_dec_nat)

lemma hd_dec_nat_digit: "0 \<le> n \<Longrightarrow> is_digit (hd (dec_nat n))"
  using dec_nat_digits [of n] dec_nat_nonempty [of n] by (cases "dec_nat n") auto

lemma ParseUint_dec [simp]: "ParseUint (dec_int (uint w)) = Ok (w :: u64)"
proof -
  have "uint w < 2 ^ 64" using unsigned_less [of w] by simp
  then show ?thesis by (simp add: ParseUint_def dec_int_def)
qed

lemma ParseInt_dec [simp]: "ParseInt (dec_int (sint w)) = Ok (w :: i64)"
proof (cases "sint w < 0")
  case True
  with sint_range64 [of w] show ?thesis
    by (simp add: ParseInt_def dec_int_def Let_def)
next
  case False
  then have "is_digit (hd (dec_nat (sint w)))" by (simp add: hd_dec_nat_digit)
  then have "hd (dec_nat (sint w)) \<noteq> CHR ''-''" "hd (dec_nat (sint w)) \<noteq> CHR ''+''"
    by (auto simp: is_digit_def byte_def)
  with False sint_range64 [of w] show ?thesis
    by (simp add: ParseInt_def dec_int_def Let_def)
qed

section \<open>Package strings\<close>

definition HasPrefix :: "string \<Rightarrow> string \<Rightarrow> bool" where
  "HasPrefix s p \<longleftrightarrow> length p \<le> length s \<and> take (length p) s = p"

definition Repeat :: "string \<Rightarrow> nat \<Rightarrow> string" where
  "Repeat s n = concat (replicate n s)"

text \<open>
  \<open>TrimSpace\<close> removes the Unicode white space runes at both ends. They are listed by their
  UTF-8 encodings; UTF-8 is self-synchronising, so a string begins (ends) with such a rune
  exactly when it begins (ends) with these bytes.
\<close>

definition space_runes :: "string list" where
  "space_runes =
     map (\<lambda>c. [c]) [CHR 0x09, CHR 0x0A, CHR 0x0B, CHR 0x0C, CHR 0x0D, CHR '' '']
     @ [[CHR 0xC2, CHR 0x85], [CHR 0xC2, CHR 0xA0], [CHR 0xE1, CHR 0x9A, CHR 0x80]]
     @ map (\<lambda>c. [CHR 0xE2, CHR 0x80, c])
         [CHR 0x80, CHR 0x81, CHR 0x82, CHR 0x83, CHR 0x84, CHR 0x85, CHR 0x86, CHR 0x87,
          CHR 0x88, CHR 0x89, CHR 0x8A, CHR 0xA8, CHR 0xA9, CHR 0xAF]
     @ [[CHR 0xE2, CHR 0x81, CHR 0x9F], [CHR 0xE3, CHR 0x80, CHR 0x80]]"

fun strip_one :: "string list \<Rightarrow> string \<Rightarrow> string option" where
  "strip_one [] s = None"
| "strip_one (w # ws) s = (if w \<noteq> [] \<and> HasPrefix s w then Some (drop (length w) s) else strip_one ws s)"

lemma strip_one_shorter: "strip_one ws s = Some r \<Longrightarrow> length r < length s"
proof (induction ws s rule: strip_one.induct)
  case (2 w ws s)
  then show ?case by (cases w) (auto simp: HasPrefix_def split: if_splits)
qed simp

function strip :: "string list \<Rightarrow> string \<Rightarrow> string" where
  "strip ws s = (case strip_one ws s of None \<Rightarrow> s | Some r \<Rightarrow> strip ws r)"
  by pat_completeness auto
termination
  by (relation "measure (\<lambda>(ws, s). length s)") (auto dest: strip_one_shorter)

declare strip.simps [simp del]

definition TrimSpace :: "string \<Rightarrow> string" where
  "TrimSpace s = rev (strip (map rev space_runes) (rev (strip space_runes s)))"

lemma TrimSpace_Nil [simp]: "TrimSpace [] = []"
proof -
  have "strip_one ws [] = None" for ws
    by (induction ws) (auto simp: HasPrefix_def)
  then show ?thesis by (simp add: TrimSpace_def strip.simps)
qed

lemma strip_one_none:
  "\<forall>w\<in>set ws. w \<noteq> [] \<longrightarrow> hd w \<noteq> c \<Longrightarrow> strip_one ws (c # s) = None"
  by (induction ws) (auto simp: HasPrefix_def neq_Nil_conv)

text \<open>A string whose first and last bytes are printable ASCII is left as it is.\<close>

lemma TrimSpace_printable:
  assumes "s \<noteq> []" "33 \<le> byte (hd s)" "byte (hd s) < 127" "33 \<le> byte (last s)" "byte (last s) < 127"
  shows "TrimSpace s = s"
proof -
  have out: "byte (hd w) < 33 \<or> 127 < byte (hd w)" if "w \<in> set space_runes \<union> set (map rev space_runes)" for w
    using that by (auto simp: space_runes_def byte_def)
  have *: "strip_one ws t = None"
    if "set ws \<subseteq> set space_runes \<union> set (map rev space_runes)" "t \<noteq> []" "33 \<le> byte (hd t)" "byte (hd t) < 127"
    for ws t
  proof -
    have "\<forall>w\<in>set ws. w \<noteq> [] \<longrightarrow> hd w \<noteq> hd t"
    proof (intro ballI impI)
      fix w assume "w \<in> set ws"
      with that(1) have "byte (hd w) < 33 \<or> 127 < byte (hd w)" by (intro out) blast
      with that(3,4) show "hd w \<noteq> hd t" by auto
    qed
    then have "strip_one ws (hd t # tl t) = None" by (rule strip_one_none)
    with that(2) show ?thesis by simp
  qed
  have "strip space_runes s = s"
    using * [of space_runes s] assms by (subst strip.simps) auto
  moreover have "strip (map rev space_runes) (rev s) = rev s"
    using * [of "map rev space_runes" "rev s"] assms by (subst strip.simps) (auto simp: hd_rev)
  ultimately show ?thesis by (simp add: TrimSpace_def)
qed

end
