(* ===== verification/Sha256.thy ===== *)
theory Sha256
  imports Bytes
begin

text \<open>
  \<open>crypto/sha256.Sum256\<close> as FIPS 180-4 defines it, on HOL strings (byte sequences): padding,
  message schedule (a sliding window of sixteen words) and the 64 rounds on 32-bit words.
  Everything the rest of the development uses of it is in the locale \<open>digest\<close>: the output
  has 32 bytes. Statements that need more (two different inputs that occur in a computation
  do not collide) say so with \<open>inj_on sha256\<close> over exactly the inputs that occur.
\<close>

unbundle bit_operations_syntax

type_synonym u32 = "32 word"

section \<open>The compression function\<close>

definition rotr :: "nat \<Rightarrow> u32 \<Rightarrow> u32" where
  "rotr n w = drop_bit n w OR push_bit (32 - n) w"

definition ch :: "u32 \<Rightarrow> u32 \<Rightarrow> u32 \<Rightarrow> u32" where
  "ch x y z = (x AND y) XOR (NOT x AND z)"

definition maj :: "u32 \<Rightarrow> u32 \<Rightarrow> u32 \<Rightarrow> u32" where
  "maj x y z = (x AND y) XOR (x AND z) XOR (y AND z)"

definition big_sigma0 :: "u32 \<Rightarrow> u32" where
  "big_sigma0 x = rotr 2 x XOR rotr 13 x XOR rotr 22 x"

definition big_sigma1 :: "u32 \<Rightarrow> u32" where
  "big_sigma1 x = rotr 6 x XOR rotr 11 x XOR rotr 25 x"

definition small_sigma0 :: "u32 \<Rightarrow> u32" where
  "small_sigma0 x = rotr 7 x XOR rotr 18 x XOR drop_bit 3 x"

definition small_sigma1 :: "u32 \<Rightarrow> u32" where
  "small_sigma1 x = rotr 17 x XOR rotr 19 x XOR drop_bit 10 x"

text \<open>The round constants: the first 32 bits of the fractional parts of the cube roots of the first 64 primes.\<close>

definition sha256_K :: "u32 list" where
  "sha256_K =
   [1116352408, 1899447441, 3049323471, 3921009573, 961987163, 1508970993, 2453635748, 2870763221,
    3624381080, 310598401, 607225278, 1426881987, 1925078388, 2162078206, 2614888103, 3248222580,
    3835390401, 4022224774, 264347078, 604807628, 770255983, 1249150122, 1555081692, 1996064986,
    2554220882, 2821834349, 2952996808, 3210313671, 3336571891, 3584528711, 113926993, 338241895,
    666307205, 773529912, 1294757372, 1396182291, 1695183700, 1986661051, 2177026350, 2456956037,
    2730485921, 2820302411, 3259730800, 3345764771, 3516065817, 3600352804, 4094571909, 275423344,
    430227734, 506948616, 659060556, 883997877, 958139571, 1322822218, 1537002063, 1747873779,
    1955562222, 2024104815, 2227730452, 2361852424, 2428436474, 2756734187, 3204031479, 3329325298]"

datatype sha_state = SS u32 u32 u32 u32 u32 u32 u32 u32

definition sha_init :: sha_state where
  "sha_init = SS 0x6a09e667 0xbb67ae85 0x3c6ef372 0xa54ff53a 0x510e527f 0x9b05688c 0x1f83d9ab 0x5be0cd19"

fun sha_round :: "u32 \<Rightarrow> u32 \<Rightarrow> sha_state \<Rightarrow> sha_state" where
  "sha_round k w (SS a b c d e f g h) =
    (let t1 = h + big_sigma1 e + ch e f g + k + w;
         t2 = big_sigma0 a + maj a b c
     in SS (t1 + t2) a b c (d + t1) e f g)"

fun sha_rounds :: "u32 list \<Rightarrow> u32 list \<Rightarrow> sha_state \<Rightarrow> sha_state" where
  "sha_rounds (k # ks) (w0 # w1 # ws) s =
     (let w16 = small_sigma1 (ws ! 12) + ws ! 7 + small_sigma0 w1 + w0
      in sha_rounds ks (w1 # ws @ [w16]) (sha_round k w0 s))"
| "sha_rounds _ _ s = s"

fun sha_add :: "sha_state \<Rightarrow> sha_state \<Rightarrow> sha_state" where
  "sha_add (SS a b c d e f g h) (SS a' b' c' d' e' f' g' h') =
     SS (a + a') (b + b') (c + c') (d + d') (e + e') (f + f') (g + g') (h + h')"

section \<open>Bytes, padding and the message loop\<close>

fun words_be :: "string \<Rightarrow> u32 list" where
  "words_be (a # b # c # d # r) =
     (push_bit 24 (of_char a) OR push_bit 16 (of_char b) OR push_bit 8 (of_char c) OR of_char d) # words_be r"
| "words_be _ = []"

definition word_bytes :: "u32 \<Rightarrow> string" where
  "word_bytes w = map (\<lambda>i. char_of (uint (drop_bit i w))) [24, 16, 8, 0]"

definition be64 :: "int \<Rightarrow> string" where
  "be64 n = map (\<lambda>i. char_of (drop_bit i n)) [56, 48, 40, 32, 24, 16, 8, 0]"

definition sha_pad :: "string \<Rightarrow> string" where
  "sha_pad m = m @ [CHR 0x80] @ replicate ((119 - length m mod 64) mod 64) (CHR 0x00) @ be64 (8 * int (length m))"

definition sha_block :: "string \<Rightarrow> sha_state \<Rightarrow> sha_state" where
  "sha_block bs s = sha_add s (sha_rounds sha256_K (words_be bs) s)"

function sha_blocks :: "string \<Rightarrow> sha_state \<Rightarrow> sha_state" where
  "sha_blocks m s = (if length m < 64 then s else sha_blocks (drop 64 m) (sha_block (take 64 m) s))"
  by pat_completeness auto
termination by (relation "measure (\<lambda>(m, s). length m)") auto

declare sha_blocks.simps [simp del]

fun sha_out :: "sha_state \<Rightarrow> string" where
  "sha_out (SS a b c d e f g h) = concat (map word_bytes [a, b, c, d, e, f, g, h])"

definition sha256 :: "string \<Rightarrow> string" where
  "sha256 m = sha_out (sha_blocks (sha_pad m) sha_init)"

lemma length_sha256 [simp]: "length (sha256 m) = 32"
  by (cases "sha_blocks (sha_pad m) sha_init") (simp add: sha256_def word_bytes_def)

section \<open>What the program relies on\<close>

locale digest =
  fixes H :: "string \<Rightarrow> string"
  assumes length_digest: "length (H m) = 32"
begin

lemma hex_digest_length: "length (hex_encode (H m)) = 64"
  by (simp add: length_digest)

lemma hex_digest_inject: "hex_encode (H m) = hex_encode (H m') \<longleftrightarrow> H m = H m'"
  by simp

lemma digest_eq_inputs:
  "inj_on H S \<Longrightarrow> m \<in> S \<Longrightarrow> m' \<in> S \<Longrightarrow> H m = H m' \<Longrightarrow> m = m'"
  by (rule inj_onD)

text \<open>A hash of two concatenated digests determines both, in order, when it does not collide.\<close>

lemma pair_inject:
  assumes "inj_on H S" "l @ r \<in> S" "l' @ r' \<in> S" "H (l @ r) = H (l' @ r')"
    and "length l = length l'"
  shows "l = l' \<and> r = r'"
  using digest_eq_inputs [OF assms(1-4)] assms(5) by simp

end

interpretation sha: digest sha256
  by unfold_locales (rule length_sha256)

end
