(* ===== verification/Json.thy ===== *)
theory Json
  imports Bytes
begin

text \<open>
  The parts of \<open>encoding/json\<close> that the program uses: \<open>Marshal\<close> (compact) and
  \<open>MarshalIndent(_, "", "  ")\<close> as one printer with an optional indentation depth, string
  quoting with HTML escaping and the replacement of bytes that are not UTF-8 (the behaviour
  of Go 1.22, the version in \<open>go.mod\<close>), and \<open>Unmarshal\<close>'s reader of JSON texts. Values are
  trees; structs are converted to and from trees in the theories that declare them. The
  main lemma, \<open>parse_render\<close>, is the round trip: reading a printed value gives the value
  back with every invalid byte of its strings replaced by U+FFFD.
\<close>

section \<open>UTF-8\<close>

definition cont :: "char \<Rightarrow> bool" where
  "cont c \<longleftrightarrow> 0x80 \<le> byte c \<and> byte c < 0xC0"

definition in_range :: "int \<Rightarrow> int \<Rightarrow> char \<Rightarrow> bool" where
  "in_range lo hi c \<longleftrightarrow> lo \<le> byte c \<and> byte c \<le> hi"

fun valid_rune :: "string \<Rightarrow> bool" where
  "valid_rune [a] \<longleftrightarrow> byte a < 0x80"
| "valid_rune [a, b] \<longleftrightarrow> in_range 0xC2 0xDF a \<and> cont b"
| "valid_rune [a, b, c] \<longleftrightarrow>
     in_range 0xE0 0xEF a
     \<and> in_range (if byte a = 0xE0 then 0xA0 else 0x80) (if byte a = 0xED then 0x9F else 0xBF) b
     \<and> cont c"
| "valid_rune [a, b, c, d] \<longleftrightarrow>
     in_range 0xF0 0xF4 a
     \<and> in_range (if byte a = 0xF0 then 0x90 else 0x80) (if byte a = 0xF4 then 0x8F else 0xBF) b
     \<and> cont c \<and> cont d"
| "valid_rune _ \<longleftrightarrow> False"

text \<open>\<open>utf8.DecodeRune\<close>: the width of the rune a string starts with, 0 for an invalid one.\<close>

definition rune_width :: "string \<Rightarrow> nat" where
  "rune_width s =
     (if valid_rune (take 1 s) then 1
      else if valid_rune (take 2 s) then 2
      else if valid_rune (take 3 s) then 3
      else if valid_rune (take 4 s) then 4
      else 0)"

lemma valid_rune_length: "valid_rune u \<Longrightarrow> 1 \<le> length u \<and> length u \<le> 4"
  by (cases u rule: valid_rune.cases) auto

lemma rune_width_cases:
  "rune_width s = 0 \<or> (valid_rune (take (rune_width s) s) \<and> 0 < rune_width s \<and> rune_width s \<le> 4
     \<and> (\<forall>k. 0 < k \<longrightarrow> k < rune_width s \<longrightarrow> \<not> valid_rune (take k s)))"
  by (auto simp: rune_width_def numeral_eq_Suc less_Suc_eq)

lemma rune_width_le: "rune_width s \<le> length s"
proof (rule ccontr)
  assume "\<not> ?thesis"
  then have gt: "length s < rune_width s" by simp
  with rune_width_cases [of s] have v: "valid_rune (take (rune_width s) s)"
    and least: "\<forall>k. 0 < k \<longrightarrow> k < rune_width s \<longrightarrow> \<not> valid_rune (take k s)" by auto
  from v gt have "valid_rune (take (length s) s)" by simp
  moreover from this have "0 < length s" using valid_rune_length by fastforce
  ultimately show False using least gt by blast
qed

lemma rune_width_ascii: "byte c < 0x80 \<Longrightarrow> rune_width (c # s) = 1"
  by (simp add: rune_width_def)

text \<open>A valid rune is recognised whatever follows it.\<close>

lemma rune_width_eqI:
  assumes "0 < w" "w \<le> 4" "valid_rune (take w s)"
    and "\<forall>k. 0 < k \<longrightarrow> k < w \<longrightarrow> \<not> valid_rune (take k s)"
  shows "rune_width s = w"
proof -
  from assms(1,2) consider "w = 1" | "w = 2" | "w = 3" | "w = 4" by linarith
  then show ?thesis
    using assms(3) assms(4) [THEN spec, of 1] assms(4) [THEN spec, of 2] assms(4) [THEN spec, of 3]
    by cases (simp_all add: rune_width_def)
qed

lemma rune_width_extend:
  assumes "rune_width s \<noteq> 0"
  shows "rune_width (take (rune_width s) s @ t) = rune_width s"
proof -
  define w where "w = rune_width s"
  have same: "take k (take w s @ t) = take k s" if "k \<le> w" for k
    using that rune_width_le [of s] by (simp add: min_def w_def)
  from assms rune_width_cases [of s] have "valid_rune (take w s)" "0 < w" "w \<le> 4"
    "\<forall>k. 0 < k \<longrightarrow> k < w \<longrightarrow> \<not> valid_rune (take k s)"
    unfolding w_def by auto
  then have "rune_width (take w s @ t) = w"
    by (intro rune_width_eqI allI impI)
       (simp_all only: same order.refl less_imp_le simp_thms)
  then show ?thesis by (simp add: w_def)
qed

text \<open>A string as its runes, \<open>None\<close> for each byte that begins no valid rune.\<close>

function runes :: "string \<Rightarrow> string option list" where
  "runes [] = []"
| "runes (c # s) =
     (if rune_width (c # s) = 0 then None # runes s
      else Some (take (rune_width (c # s)) (c # s)) # runes (drop (rune_width (c # s)) (c # s)))"
  by pat_completeness auto
termination by (relation "measure length") auto

declare runes.simps(2) [simp del]

definition replacement :: string where
  "replacement = [CHR 0xEF, CHR 0xBF, CHR 0xBD]"

definition rune_or_replacement :: "string option \<Rightarrow> string" where
  "rune_or_replacement r = (case r of None \<Rightarrow> replacement | Some u \<Rightarrow> u)"

definition sanitize :: "string \<Rightarrow> string" where
  "sanitize s = concat (map rune_or_replacement (runes s))"

definition valid_utf8 :: "string \<Rightarrow> bool" where
  "valid_utf8 s \<longleftrightarrow> None \<notin> set (runes s)"

lemma valid_utf8_Nil [simp]: "valid_utf8 []"
  by (simp add: valid_utf8_def)

lemma concat_runes: "None \<notin> set (runes s) \<Longrightarrow> concat (map rune_or_replacement (runes s)) = s"
  by (induction s rule: runes.induct)
     (auto simp: runes.simps(2) rune_or_replacement_def split: if_splits)

lemma sanitize_valid [simp]: "valid_utf8 s \<Longrightarrow> sanitize s = s"
  by (simp add: sanitize_def valid_utf8_def concat_runes)

lemma valid_utf8_ascii [simp]: "ascii s \<Longrightarrow> valid_utf8 s"
proof (induction s)
  case (Cons c s)
  then have "rune_width (c # s) = 1" by (intro rune_width_ascii) (simp add: ascii_def)
  with Cons show ?case by (simp add: valid_utf8_def ascii_def runes.simps(2))
qed (simp add: valid_utf8_def)

section \<open>Quoting strings\<close>

definition hex4 :: "int \<Rightarrow> string" where
  "hex4 n = map (\<lambda>i. hex_digit (n div 16 ^ i mod 16)) [3, 2, 1, 0]"

definition u_escape :: "int \<Rightarrow> string" where
  "u_escape n = CHR 0x5C # CHR ''u'' # hex4 n"

definition escape_ascii :: "char \<Rightarrow> string" where
  "escape_ascii c =
     (if c = CHR 0x22 \<or> c = CHR 0x5C then [CHR 0x5C, c]
      else if c = CHR 0x08 then [CHR 0x5C, CHR ''b'']
      else if c = CHR 0x0C then [CHR 0x5C, CHR ''f'']
      else if c = CHR 0x0A then [CHR 0x5C, CHR ''n'']
      else if c = CHR 0x0D then [CHR 0x5C, CHR ''r'']
      else if c = CHR 0x09 then [CHR 0x5C, CHR ''t'']
      else if byte c < 0x20 \<or> c = CHR ''<'' \<or> c = CHR ''>'' \<or> c = CHR ''&'' then u_escape (byte c)
      else [c])"

fun escape_rune :: "string option \<Rightarrow> string" where
  "escape_rune None = u_escape 0xFFFD"
| "escape_rune (Some [c]) = escape_ascii c"
| "escape_rune (Some u) =
     (if u = [CHR 0xE2, CHR 0x80, CHR 0xA8] then u_escape 0x2028
      else if u = [CHR 0xE2, CHR 0x80, CHR 0xA9] then u_escape 0x2029
      else u)"

definition quote :: "string \<Rightarrow> string" where
  "quote s = CHR 0x22 # concat (map escape_rune (runes s)) @ [CHR 0x22]"

section \<open>Reading quoted strings\<close>

definition utf8_encode :: "int \<Rightarrow> string" where
  "utf8_encode r =
     (if r < 0x80 then [char_of r]
      else if r < 0x800 then [char_of (0xC0 + r div 64), char_of (0x80 + r mod 64)]
      else if r < 0x10000 then
        [char_of (0xE0 + r div 4096), char_of (0x80 + r div 64 mod 64), char_of (0x80 + r mod 64)]
      else
        [char_of (0xF0 + r div 262144), char_of (0x80 + r div 4096 mod 64),
         char_of (0x80 + r div 64 mod 64), char_of (0x80 + r mod 64)])"

fun unhex4 :: "string \<Rightarrow> int option" where
  "unhex4 (a # b # c # d # s) =
     (case (unhex a, unhex b, unhex c, unhex d) of
        (Some w, Some x, Some y, Some z) \<Rightarrow> Some (((w * 16 + x) * 16 + y) * 16 + z)
      | _ \<Rightarrow> None)"
| "unhex4 s = None"

definition getu4 :: "string \<Rightarrow> int option" where
  "getu4 s = (if take 2 s = [CHR 0x5C, CHR ''u''] then unhex4 (drop 2 s) else None)"

definition simple_escape :: "char \<Rightarrow> char option" where
  "simple_escape c =
     (if c = CHR 0x22 \<or> c = CHR 0x5C \<or> c = CHR ''/'' then Some c
      else if c = CHR ''b'' then Some (CHR 0x08)
      else if c = CHR ''f'' then Some (CHR 0x0C)
      else if c = CHR ''n'' then Some (CHR 0x0A)
      else if c = CHR ''r'' then Some (CHR 0x0D)
      else if c = CHR ''t'' then Some (CHR 0x09)
      else None)"

definition surrogate :: "int \<Rightarrow> bool" where
  "surrogate r \<longleftrightarrow> 0xD800 \<le> r \<and> r < 0xE000"

definition utf16_pair :: "int \<Rightarrow> int option \<Rightarrow> int option" where
  "utf16_pair r r1 =
     (case r1 of
        None \<Rightarrow> None
      | Some q \<Rightarrow>
          if 0xD800 \<le> r \<and> r < 0xDC00 \<and> 0xDC00 \<le> q \<and> q < 0xE000
          then Some ((r - 0xD800) * 1024 + (q - 0xDC00) + 0x10000) else None)"

definition push :: "string \<Rightarrow> (string \<times> string) option \<Rightarrow> (string \<times> string) option" where
  "push u r = map_option (\<lambda>(x, rest). (u @ x, rest)) r"

text \<open>The body of a string literal, after the opening quote: its value and what follows it.\<close>

function unquote :: "string \<Rightarrow> (string \<times> string) option" where
  "unquote [] = None"
| "unquote (c # s) =
     (if c = CHR 0x22 then Some ([], s)
      else if c = CHR 0x5C then
        (case s of
           [] \<Rightarrow> None
         | d # s' \<Rightarrow>
             if d = CHR ''u'' then
               (case unhex4 s' of
                  None \<Rightarrow> None
                | Some r \<Rightarrow>
                    if surrogate r then
                      (case utf16_pair r (getu4 (drop 4 s')) of
                         Some p \<Rightarrow> push (utf8_encode p) (unquote (drop 10 s'))
                       | None \<Rightarrow> push replacement (unquote (drop 4 s')))
                    else push (utf8_encode r) (unquote (drop 4 s')))
             else
               (case simple_escape d of
                  None \<Rightarrow> None
                | Some e \<Rightarrow> push [e] (unquote s')))
      else if byte c < 0x20 then None
      else if rune_width (c # s) = 0 then push replacement (unquote s)
      else push (take (rune_width (c # s)) (c # s)) (unquote (drop (rune_width (c # s)) (c # s))))"
  by pat_completeness auto
termination by (relation "measure length") auto

declare unquote.simps(2) [simp del]

text \<open>The round trip of a string: \<open>Unmarshal\<close> reads what \<open>Marshal\<close> printed, sanitized.\<close>

lemma hex_digits_sum:
  fixes a :: int
  assumes "a = b * 16 + p" "b = c * 16 + q" "c = d * 16 + r"
  shows "((d * 16 + r) * 16 + q) * 16 + p = a"
  using assms by simp

lemma unhex4_hex4:
  assumes "0 \<le> n" "n < 0x10000"
  shows "unhex4 (hex4 n @ s) = Some n"
proof -
  have d: "unhex (hex_digit (n div 16 ^ i mod 16)) = Some (n div 16 ^ i mod 16)" for i
    by (rule unhex_hex_digit) simp_all
  have "((n div 16 ^ 3 mod 16 * 16 + n div 16 ^ 2 mod 16) * 16 + n div 16 ^ 1 mod 16) * 16
          + n div 16 ^ 0 mod 16 = n"
  proof (rule hex_digits_sum)
    have e: "n div 16 ^ 2 = n div 16 ^ 1 div 16" "n div 16 ^ 3 = n div 16 ^ 2 div 16"
      using zdiv_zmult2_eq [of 16 n 16] zdiv_zmult2_eq [of 16 n 256] by simp_all
    have small: "n div 16 ^ 3 mod 16 = n div 16 ^ 3" using assms by simp
    show "n = n div 16 ^ 1 * 16 + n div 16 ^ 0 mod 16"
      using div_mult_mod_eq [of n 16] by simp
    show "n div 16 ^ 1 = n div 16 ^ 2 * 16 + n div 16 ^ 1 mod 16"
      unfolding e(1) by (rule div_mult_mod_eq [symmetric])
    show "n div 16 ^ 2 = n div 16 ^ 3 mod 16 * 16 + n div 16 ^ 2 mod 16"
      by (simp only: small) (simp only: e(2) div_mult_mod_eq)
  qed
  then show ?thesis
    by (simp only: hex4_def list.map append.simps unhex4.simps d option.case prod.case)
qed

lemma length_hex4 [simp]: "length (hex4 n) = 4"
  by (simp add: hex4_def)

lemma drop_hex4 [simp]: "drop 4 (hex4 n @ s) = s"
  using length_hex4 [of n] by (simp del: length_hex4)

lemma unquote_end: "unquote (CHR 0x22 # s) = Some ([], s)"
  by (simp add: unquote.simps(2))

lemma unquote_u_escape:
  "0 \<le> n \<Longrightarrow> n < 0x10000 \<Longrightarrow> \<not> surrogate n \<Longrightarrow>
   unquote (u_escape n @ s) = push (utf8_encode n) (unquote s)"
  by (simp add: u_escape_def unquote.simps(2) unhex4_hex4)

lemma unquote_simple:
  "simple_escape d = Some e \<Longrightarrow> d \<noteq> CHR ''u'' \<Longrightarrow>
   unquote (CHR 0x5C # d # s) = push [e] (unquote s)"
  by (simp add: unquote.simps(2))

lemma unquote_escape_ascii:
  assumes "byte c < 0x80"
  shows "unquote (escape_ascii c @ s) = push [c] (unquote s)"
proof -
  have u: "unquote (u_escape (byte c) @ s) = push [c] (unquote s)"
    using assms byte_bounds [of c]
    by (simp add: unquote_u_escape surrogate_def utf8_encode_def)
  have plain: "unquote (c # s) = push [c] (unquote s)"
    if "c \<noteq> CHR 0x22" "c \<noteq> CHR 0x5C" "\<not> byte c < 0x20"
    using that assms by (simp add: unquote.simps(2) rune_width_ascii)
  show ?thesis
    using u plain by (auto simp: escape_ascii_def unquote_simple simple_escape_def)
qed

lemma valid_rune_hd: "valid_rune (c # d # u) \<Longrightarrow> 0xC2 \<le> byte c"
  by (cases "c # d # u" rule: valid_rune.cases) (auto simp: in_range_def)

lemma unquote_raw:
  assumes "rune_width u = length u" "2 \<le> length u"
  shows "unquote (u @ s) = push u (unquote s)"
proof -
  from assms(2) obtain c d r where u: "u = c # d # r"
    by (metis Suc_le_length_iff numeral_2_eq_2)
  from assms have "valid_rune u" using rune_width_cases [of u] by auto
  with u have big: "0xC2 \<le> byte c" using valid_rune_hd by blast
  then have "c \<noteq> CHR 0x22" "c \<noteq> CHR 0x5C" by (auto simp: byte_def)
  moreover have "rune_width (u @ s) = length u"
    using rune_width_extend [of u s] assms by fastforce
  ultimately show ?thesis
    using u big by (simp add: unquote.simps(2))
qed

lemma escape_rune_long:
  "2 \<le> length u \<Longrightarrow> escape_rune (Some u) =
     (if u = [CHR 0xE2, CHR 0x80, CHR 0xA8] then u_escape 0x2028
      else if u = [CHR 0xE2, CHR 0x80, CHR 0xA9] then u_escape 0x2029 else u)"
  by (cases u rule: valid_rune.cases) auto

lemma unquote_escape_rune:
  assumes "rune_width u = length u" "u \<noteq> []"
  shows "unquote (escape_rune (Some u) @ s) = push u (unquote s)"
proof (cases "length u = 1")
  case True
  then obtain c where c: "u = [c]" by (metis length_0_conv length_Suc_conv One_nat_def)
  with assms have "valid_rune [c]" using rune_width_cases [of u] by auto
  with c show ?thesis by (simp add: unquote_escape_ascii)
next
  case False
  with assms(2) have len: "2 \<le> length u" by (cases u rule: valid_rune.cases) auto
  moreover have "utf8_encode 0x2028 = [CHR 0xE2, CHR 0x80, CHR 0xA8]"
    "utf8_encode 0x2029 = [CHR 0xE2, CHR 0x80, CHR 0xA9]"
    by (simp_all add: utf8_encode_def byte_def flip: byte_inject)
  ultimately show ?thesis
    by (simp add: escape_rune_long unquote_raw assms(1) unquote_u_escape surrogate_def)
qed

lemma rune_width_take:
  "rune_width s \<noteq> 0 \<Longrightarrow> rune_width (take (rune_width s) s) = rune_width s"
  using rune_width_extend [of s "[]"] by simp

lemma utf8_encode_FFFD: "utf8_encode 0xFFFD = replacement"
  by (simp add: utf8_encode_def replacement_def byte_def flip: byte_inject)

lemma unquote_runes:
  "unquote (concat (map escape_rune (runes s)) @ CHR 0x22 # rest) = Some (sanitize s, rest)"
proof (induction s rule: runes.induct)
  case 1
  show ?case by (simp add: unquote_end sanitize_def)
next
  case (2 c s)
  let ?w = "rune_width (c # s)"
  show ?case
  proof (cases "?w = 0")
    case True
    with 2 show ?thesis
      by (simp add: runes.simps(2) unquote_u_escape surrogate_def utf8_encode_FFFD
            push_def sanitize_def rune_or_replacement_def)
  next
    case False
    let ?u = "take ?w (c # s)"
    have "rune_width ?u = length ?u" "?u \<noteq> []"
      using False rune_width_take [of "c # s"] rune_width_le [of "c # s"] by auto
    then have "unquote (escape_rune (Some ?u) @ concat (map escape_rune (runes (drop ?w (c # s))))
                 @ CHR 0x22 # rest)
               = push ?u (Some (sanitize (drop ?w (c # s)), rest))"
      using 2 False by (simp add: unquote_escape_rune)
    with False show ?thesis
      by (simp add: runes.simps(2) push_def sanitize_def rune_or_replacement_def)
  qed
qed

lemma quote_inject_sanitize:
  "quote s @ r = quote s' @ r' \<Longrightarrow> sanitize s = sanitize s' \<and> r = r'"
  using unquote_runes [of s r] unquote_runes [of s' r'] by (simp add: quote_def)

section \<open>Values and their printed form\<close>

text \<open>A number keeps its literal, as the decoder does until it knows the target type.\<close>

datatype json =
    JNull
  | JBool bool
  | JNum string
  | JStr string
  | JArr "json list"
  | JObj "(string \<times> json) list"

text \<open>
  The indentation is \<open>None\<close> for \<open>Marshal\<close> and \<open>Some d\<close> for depth \<open>d\<close> of \<open>MarshalIndent\<close>
  with an indent of two spaces.
\<close>

definition nl :: "nat option \<Rightarrow> string" where
  "nl ind = (case ind of None \<Rightarrow> [] | Some d \<Rightarrow> CHR 0x0A # replicate (2 * d) (CHR '' ''))"

definition colon :: "nat option \<Rightarrow> string" where
  "colon ind = (case ind of None \<Rightarrow> '':'' | Some _ \<Rightarrow> '': '')"

abbreviation deeper :: "nat option \<Rightarrow> nat option" where
  "deeper ind \<equiv> map_option Suc ind"

fun render :: "nat option \<Rightarrow> json \<Rightarrow> string"
  and render_elems :: "nat option \<Rightarrow> json list \<Rightarrow> string"
  and render_members :: "nat option \<Rightarrow> (string \<times> json) list \<Rightarrow> string" where
  "render ind JNull = ''null''"
| "render ind (JBool b) = (if b then ''true'' else ''false'')"
| "render ind (JNum n) = n"
| "render ind (JStr s) = quote s"
| "render ind (JArr []) = ''[]''"
| "render ind (JArr (x # xs)) = ''['' @ render_elems ind (x # xs) @ nl ind @ '']''"
| "render ind (JObj []) = ''{}''"
| "render ind (JObj (m # ms)) = ''{'' @ render_members ind (m # ms) @ nl ind @ ''}''"
| "render_elems ind [] = []"
| "render_elems ind (x # xs) =
     nl (deeper ind) @ render (deeper ind) x
     @ (if xs = [] then [] else '','' @ render_elems ind xs)"
| "render_members ind [] = []"
| "render_members ind ((k, v) # ms) =
     nl (deeper ind) @ quote k @ colon ind @ render (deeper ind) v
     @ (if ms = [] then [] else '','' @ render_members ind ms)"

definition Marshal :: "json \<Rightarrow> string" where
  "Marshal j = render None j"

definition MarshalIndent :: "json \<Rightarrow> string" where
  "MarshalIndent j = render (Some 0) j"

section \<open>The reader\<close>

definition is_ws :: "char \<Rightarrow> bool" where
  "is_ws c \<longleftrightarrow> c = CHR '' '' \<or> c = CHR 0x09 \<or> c = CHR 0x0A \<or> c = CHR 0x0D"

definition skip_ws :: "string \<Rightarrow> string" where
  "skip_ws s = dropWhile is_ws s"

definition num_char :: "char \<Rightarrow> bool" where
  "num_char c \<longleftrightarrow> is_digit c \<or> c = CHR ''-'' \<or> c = CHR ''+'' \<or> c = CHR ''.''
     \<or> c = CHR ''e'' \<or> c = CHR ''E''"

text \<open>The JSON number grammar: sign, integer part without leading zeros, fraction, exponent.\<close>

definition exp_ok :: "string \<Rightarrow> bool" where
  "exp_ok s =
     (case s of
        [] \<Rightarrow> True
      | c # r \<Rightarrow>
          (c = CHR ''e'' \<or> c = CHR ''E'')
          \<and> (let d = (if r \<noteq> [] \<and> (hd r = CHR ''+'' \<or> hd r = CHR ''-'') then tl r else r)
             in d \<noteq> [] \<and> list_all is_digit d))"

definition frac_ok :: "string \<Rightarrow> bool" where
  "frac_ok s =
     (if s \<noteq> [] \<and> hd s = CHR ''.'' then
        takeWhile is_digit (tl s) \<noteq> [] \<and> exp_ok (dropWhile is_digit (tl s))
      else exp_ok s)"

definition number_ok :: "string \<Rightarrow> bool" where
  "number_ok s =
     (let r = (if s \<noteq> [] \<and> hd s = CHR ''-'' then tl s else s);
          i = takeWhile is_digit r
      in i \<noteq> [] \<and> (hd i = CHR ''0'' \<longrightarrow> i = ''0'') \<and> frac_ok (dropWhile is_digit r))"

text \<open>
  Recursive descent with fuel: every nested call spends one unit, and the input is shorter
  after every second call, so twice the length of the input is enough.
\<close>

definition cons_fst :: "'a \<Rightarrow> ('a list \<times> string) option \<Rightarrow> ('a list \<times> string) option" where
  "cons_fst x r = map_option (\<lambda>(xs, rest). (x # xs, rest)) r"

fun parse_value :: "nat \<Rightarrow> string \<Rightarrow> (json \<times> string) option"
  and parse_elems :: "nat \<Rightarrow> string \<Rightarrow> (json list \<times> string) option"
  and parse_members :: "nat \<Rightarrow> string \<Rightarrow> ((string \<times> json) list \<times> string) option" where
  "parse_value 0 s = None"
| "parse_value (Suc n) s =
     (case skip_ws s of
        [] \<Rightarrow> None
      | c # r \<Rightarrow>
          if c = CHR 0x22 then map_option (\<lambda>(u, rest). (JStr u, rest)) (unquote r)
          else if c = CHR ''['' then
            (case skip_ws r of
               [] \<Rightarrow> None
             | d # r' \<Rightarrow>
                 if d = CHR '']'' then Some (JArr [], r')
                 else map_option (\<lambda>(xs, rest). (JArr xs, rest)) (parse_elems n r))
          else if c = CHR ''{'' then
            (case skip_ws r of
               [] \<Rightarrow> None
             | d # r' \<Rightarrow>
                 if d = CHR ''}'' then Some (JObj [], r')
                 else map_option (\<lambda>(ms, rest). (JObj ms, rest)) (parse_members n r))
          else if HasPrefix (c # r) ''null'' then Some (JNull, drop 3 r)
          else if HasPrefix (c # r) ''true'' then Some (JBool True, drop 3 r)
          else if HasPrefix (c # r) ''false'' then Some (JBool False, drop 4 r)
          else
            (let lit = takeWhile num_char (c # r) in
             if number_ok lit then Some (JNum lit, dropWhile num_char (c # r)) else None))"
| "parse_elems 0 s = None"
| "parse_elems (Suc n) s =
     (case parse_value n s of
        None \<Rightarrow> None
      | Some (x, r) \<Rightarrow>
          (case skip_ws r of
             [] \<Rightarrow> None
           | d # r' \<Rightarrow>
               if d = CHR '','' then cons_fst x (parse_elems n r')
               else if d = CHR '']'' then Some ([x], r')
               else None))"
| "parse_members 0 s = None"
| "parse_members (Suc n) s =
     (case skip_ws s of
        [] \<Rightarrow> None
      | c # r \<Rightarrow>
          if c \<noteq> CHR 0x22 then None
          else
            (case unquote r of
               None \<Rightarrow> None
             | Some (k, r1) \<Rightarrow>
                 (case skip_ws r1 of
                    [] \<Rightarrow> None
                  | d # r2 \<Rightarrow>
                      if d \<noteq> CHR '':'' then None
                      else
                        (case parse_value n r2 of
                           None \<Rightarrow> None
                         | Some (v, r3) \<Rightarrow>
                             (case skip_ws r3 of
                                [] \<Rightarrow> None
                              | e # r4 \<Rightarrow>
                                  if e = CHR '','' then cons_fst (k, v) (parse_members n r4)
                                  else if e = CHR ''}'' then Some ([(k, v)], r4)
                                  else None)))))"

definition parse_json :: "string \<Rightarrow> json option" where
  "parse_json s =
     (case parse_value (2 * length s + 2) s of
        None \<Rightarrow> None
      | Some (j, rest) \<Rightarrow> if skip_ws rest = [] then Some j else None)"

section \<open>Round trip\<close>

primrec nums_ok :: "json \<Rightarrow> bool" where
  "nums_ok JNull = True"
| "nums_ok (JBool b) = True"
| "nums_ok (JNum n) = (number_ok n \<and> list_all num_char n)"
| "nums_ok (JStr s) = True"
| "nums_ok (JArr xs) = list_all id (map nums_ok xs)"
| "nums_ok (JObj ms) = list_all snd (map (map_prod id nums_ok) ms)"

primrec san_json :: "json \<Rightarrow> json" where
  "san_json JNull = JNull"
| "san_json (JBool b) = JBool b"
| "san_json (JNum n) = JNum n"
| "san_json (JStr s) = JStr (sanitize s)"
| "san_json (JArr xs) = JArr (map san_json xs)"
| "san_json (JObj ms) = JObj (map (map_prod sanitize id) (map (map_prod id san_json) ms))"

definition ends_value :: "string \<Rightarrow> bool" where
  "ends_value s \<longleftrightarrow> s = [] \<or> \<not> num_char (hd s)"

lemma skip_ws_prefix [simp]: "list_all is_ws w \<Longrightarrow> skip_ws (w @ s) = skip_ws s"
  by (induction w) (auto simp: skip_ws_def)

lemma skip_ws_Cons [simp]: "\<not> is_ws c \<Longrightarrow> skip_ws (c # s) = c # s"
  by (simp add: skip_ws_def)

lemma ws_nl [simp]: "list_all is_ws (nl ind)"
  by (auto simp: nl_def is_ws_def list_all_iff split: option.splits)

lemma ws_append [simp]: "list_all is_ws w \<Longrightarrow> list_all is_ws (w @ nl ind)"
  by simp

lemma parse_value_ws: "list_all is_ws w \<Longrightarrow> parse_value n (w @ s) = parse_value n s"
  by (cases n) simp_all

lemma ends_value_nl:
  "ends_value (nl ind @ c # s) \<longleftrightarrow> ind \<noteq> None \<or> \<not> num_char c"
  by (auto simp: ends_value_def nl_def num_char_def is_digit_def byte_def split: option.splits)

lemma number_ok_hd: "number_ok n \<Longrightarrow> n \<noteq> [] \<and> (is_digit (hd n) \<or> hd n = CHR ''-'')"
  by (cases n) (auto simp: number_ok_def Let_def split: if_splits)

lemma parse_number:
  assumes "number_ok n" "list_all num_char n" "ends_value rest"
  shows "parse_value (Suc k) (n @ rest) = Some (JNum n, rest)"
proof -
  obtain c r where n: "n = c # r" and c: "is_digit c \<or> c = CHR ''-''"
    using number_ok_hd [OF assms(1)] by (cases n) auto
  have plain: "\<not> is_ws c" "c \<noteq> CHR 0x22" "c \<noteq> CHR ''[''" "c \<noteq> CHR ''{''" "c \<noteq> CHR ''n''"
    "c \<noteq> CHR ''t''" "c \<noteq> CHR ''f''"
    using c by (auto simp: is_ws_def is_digit_def byte_def)
  have "takeWhile num_char (n @ rest) = n" "dropWhile num_char (n @ rest) = rest"
    using assms(2,3) by (cases rest; auto simp: list_all_iff ends_value_def)+
  with assms(1) plain show ?thesis
    by (simp add: n HasPrefix_def Let_def del: takeWhile.simps dropWhile.simps)
qed

lemma render_hd:
  assumes "nums_ok j"
  shows "render ind j \<noteq> [] \<and> \<not> is_ws (hd (render ind j)) \<and> hd (render ind j) \<noteq> CHR '']''"
proof (cases j)
  case (JNum n)
  with assms number_ok_hd [of n] have "n \<noteq> []" "is_digit (hd n) \<or> hd n = CHR ''-''" by auto
  with JNum show ?thesis by (auto simp: is_digit_def byte_def is_ws_def)
next
  case (JStr s)
  then show ?thesis by (simp add: quote_def is_ws_def)
next
  case (JArr xs)
  then show ?thesis by (cases xs) (simp_all add: is_ws_def)
next
  case (JObj ms)
  then show ?thesis by (cases ms) (auto simp: is_ws_def)
qed (simp_all add: is_ws_def)

text \<open>What the reader does with the printed form of one value, at every depth and fuel.\<close>

definition reads_back :: "json \<Rightarrow> bool" where
  "reads_back j \<longleftrightarrow>
     (\<forall>ind n rest. nums_ok j \<longrightarrow> ends_value rest \<longrightarrow> 2 * length (render ind j) \<le> n
        \<longrightarrow> parse_value n (render ind j @ rest) = Some (san_json j, rest))"

lemma reads_backD:
  "reads_back j \<Longrightarrow> nums_ok j \<Longrightarrow> ends_value rest \<Longrightarrow> 2 * length (render ind j) \<le> n \<Longrightarrow>
   list_all is_ws w \<Longrightarrow> parse_value n (w @ render ind j @ rest) = Some (san_json j, rest)"
  by (simp add: reads_back_def parse_value_ws)

lemma ends_value_simps [simp]:
  "ends_value (CHR '','' # s)" "ends_value (nl ind @ CHR '']'' # s)" "ends_value (nl ind @ CHR ''}'' # s)"
  by (simp_all add: ends_value_nl) (simp_all add: ends_value_def num_char_def is_digit_def byte_def)

lemma skip_ws_close [simp]:
  "skip_ws (CHR '','' # s) = CHR '','' # s"
  "skip_ws (CHR '']'' # s) = CHR '']'' # s" "skip_ws (CHR ''}'' # s) = CHR ''}'' # s"
  "skip_ws (CHR 0x22 # s) = CHR 0x22 # s" "skip_ws (CHR '':'' # s) = CHR '':'' # s"
  by (simp_all add: is_ws_def)

lemma parse_elems_render:
  assumes "\<forall>x\<in>set xs. reads_back x" "list_all nums_ok xs" "xs \<noteq> []"
    and "2 * length (render_elems ind xs) + 1 \<le> n"
  shows "parse_elems n (render_elems ind xs @ nl ind @ CHR '']'' # rest)
           = Some (map san_json xs, rest)"
  using assms
proof (induction xs arbitrary: n)
  case (Cons x xs)
  then obtain m where n: "n = Suc m" by (cases n) auto
  have v: "parse_value m (nl (deeper ind) @ render (deeper ind) x @ more) = Some (san_json x, more)"
    if "ends_value more" for more
    using Cons.prems n that by (intro reads_backD) auto
  show ?case
  proof (cases "xs = []")
    case True
    with n v show ?thesis by simp
  next
    case False
    with Cons.prems n
    have "parse_elems m (render_elems ind xs @ nl ind @ CHR '']'' # rest) = Some (map san_json xs, rest)"
      by (intro Cons.IH) auto
    with False n v show ?thesis by (simp add: cons_fst_def)
  qed
qed simp

definition colon_ws :: "nat option \<Rightarrow> string" where
  "colon_ws ind = (case ind of None \<Rightarrow> [] | Some _ \<Rightarrow> '' '')"

lemma colon_split: "colon ind = CHR '':'' # colon_ws ind"
  by (simp add: colon_def colon_ws_def split: option.splits)

lemma ws_colon_ws [simp]: "list_all is_ws (colon_ws ind)"
  by (simp add: colon_ws_def is_ws_def split: option.splits)

lemma parse_members_render:
  assumes "\<forall>p\<in>set ms. reads_back (snd p)" "list_all (nums_ok \<circ> snd) ms" "ms \<noteq> []"
    and "2 * length (render_members ind ms) + 1 \<le> n"
  shows "parse_members n (render_members ind ms @ nl ind @ CHR ''}'' # rest)
           = Some (map (map_prod sanitize san_json) ms, rest)"
  using assms
proof (induction ms arbitrary: n)
  case (Cons p ms)
  obtain k v where p: "p = (k, v)" by (cases p)
  from Cons.prems obtain m where n: "n = Suc m" by (cases n) auto
  have key: "unquote (concat (map escape_rune (runes k)) @ CHR 0x22 # more) = Some (sanitize k, more)" for more
    by (rule unquote_runes)
  have val: "parse_value m (colon_ws ind @ render (deeper ind) v @ more) = Some (san_json v, more)"
    if "ends_value more" for more
    using Cons.prems n p that by (intro reads_backD) auto
  show ?case
  proof (cases "ms = []")
    case True
    with n p key val show ?thesis by (simp add: quote_def colon_split)
  next
    case False
    with Cons.prems n p
    have "parse_members m (render_members ind ms @ nl ind @ CHR ''}'' # rest)
            = Some (map (map_prod sanitize san_json) ms, rest)"
      by (intro Cons.IH) auto
    with False n p key val show ?thesis by (simp add: quote_def colon_split cons_fst_def)
  qed
qed simp

lemma skip_ws_render:
  assumes "nums_ok j" "list_all is_ws w"
  shows "\<exists>c r. skip_ws (w @ render ind j @ s) = c # r \<and> c \<noteq> CHR '']''"
proof -
  from render_hd [OF assms(1), of ind] obtain c r
    where "render ind j = c # r" "\<not> is_ws c" "c \<noteq> CHR '']''"
    by (cases "render ind j") auto
  with assms(2) show ?thesis by simp
qed

lemma parse_literals:
  assumes "0 < n"
  shows "parse_value n (CHR ''n'' # CHR ''u'' # CHR ''l'' # CHR ''l'' # rest) = Some (JNull, rest)"
    and "parse_value n (CHR ''t'' # CHR ''r'' # CHR ''u'' # CHR ''e'' # rest) = Some (JBool True, rest)"
    and "parse_value n (CHR ''f'' # CHR ''a'' # CHR ''l'' # CHR ''s'' # CHR ''e'' # rest)
           = Some (JBool False, rest)"
  using assms by (cases n; simp add: HasPrefix_def is_ws_def numeral_eq_Suc)+

lemma reads_back: "reads_back j"
proof (induction j)
  case (JNum n)
  show ?case
    unfolding reads_back_def
  proof (intro allI impI)
    fix ind m rest
    assume "nums_ok (JNum n)" "ends_value rest" "2 * length (render ind (JNum n)) \<le> m"
    moreover from this number_ok_hd [of n] obtain k where "m = Suc k" by (cases m) auto
    ultimately show "parse_value m (render ind (JNum n) @ rest) = Some (san_json (JNum n), rest)"
      by (simp add: parse_number del: parse_value.simps)
  qed
next
  case (JStr s)
  show ?case
    unfolding reads_back_def
  proof (intro allI impI)
    fix ind m rest
    assume "2 * length (render ind (JStr s)) \<le> m"
    then obtain k where "m = Suc k" by (cases m) (auto simp: quote_def)
    then show "parse_value m (render ind (JStr s) @ rest) = Some (san_json (JStr s), rest)"
      by (simp add: quote_def unquote_runes)
  qed
next
  case (JArr xs)
  show ?case
    unfolding reads_back_def
  proof (intro allI impI)
    fix ind m rest
    assume ok: "nums_ok (JArr xs)" and m: "2 * length (render ind (JArr xs)) \<le> m"
    show "parse_value m (render ind (JArr xs) @ rest) = Some (san_json (JArr xs), rest)"
    proof (cases xs)
      case Nil
      with m show ?thesis by (cases m) (simp_all add: is_ws_def)
    next
      case (Cons x ys)
      with m obtain k where k: "m = Suc k" by (cases m) auto
      have "parse_elems k (render_elems ind xs @ nl ind @ CHR '']'' # rest) = Some (map san_json xs, rest)"
        using JArr.IH ok m k Cons by (intro parse_elems_render) (auto simp: list_all_iff)
      moreover have "\<exists>c r. skip_ws (render_elems ind xs @ nl ind @ CHR '']'' # rest) = c # r \<and> c \<noteq> CHR '']''"
        using skip_ws_render [of x "nl (deeper ind)" "deeper ind"] ok Cons by auto
      ultimately show ?thesis using k Cons by (auto simp: is_ws_def)
    qed
  qed
next
  case (JObj ms)
  show ?case
    unfolding reads_back_def
  proof (intro allI impI)
    fix ind m rest
    assume ok: "nums_ok (JObj ms)" and m: "2 * length (render ind (JObj ms)) \<le> m"
    show "parse_value m (render ind (JObj ms) @ rest) = Some (san_json (JObj ms), rest)"
    proof (cases ms)
      case Nil
      with m show ?thesis by (cases m) (simp_all add: is_ws_def)
    next
      case (Cons p ns)
      with m obtain k where k: "m = Suc k" by (cases m) auto
      have "parse_members k (render_members ind ms @ nl ind @ CHR ''}'' # rest)
              = Some (map (map_prod sanitize san_json) ms, rest)"
      proof (rule parse_members_render)
        show "\<forall>p\<in>set ms. reads_back (snd p)"
          using JObj.IH by (auto intro: snds.intros)
      qed (use ok m k Cons in \<open>auto simp: list_all_iff\<close>)
      moreover have "\<exists>r. skip_ws (render_members ind ms @ nl ind @ CHR ''}'' # rest) = CHR 0x22 # r"
        using Cons by (cases p) (simp add: quote_def)
      ultimately show ?thesis using k Cons by (auto simp: is_ws_def map_prod.compositionality)
    qed
  qed
qed (auto simp: reads_back_def parse_literals)

lemma parse_render: "nums_ok j \<Longrightarrow> parse_json (render ind j) = Some (san_json j)"
  using reads_backD [OF reads_back, of j "[]" ind "2 * length (render ind j) + 2" "[]"]
  by (simp add: parse_json_def ends_value_def skip_ws_def)

lemma Marshal_inject:
  "nums_ok j \<Longrightarrow> nums_ok j' \<Longrightarrow> Marshal j = Marshal j' \<Longrightarrow> san_json j = san_json j'"
  using parse_render [of j None] parse_render [of j' None] by (simp add: Marshal_def)

lemma number_ok_digits:
  assumes "s \<noteq> []" "list_all is_digit s" "hd s = CHR ''0'' \<Longrightarrow> s = ''0''"
  shows "number_ok s \<and> number_ok (CHR ''-'' # s)"
proof -
  have t: "takeWhile is_digit s = s" "dropWhile is_digit s = []"
    using assms(2) by (auto simp: list_all_iff)
  have "hd s \<noteq> CHR ''-''"
    using assms(1,2) by (cases s) (auto simp: is_digit_def byte_def)
  moreover have "frac_ok []" by (simp add: frac_ok_def exp_ok_def)
  ultimately show ?thesis
    using assms(1,3) by (simp add: number_ok_def Let_def t)
qed

lemma number_ok_dec [simp]: "number_ok (dec_int i)"
proof -
  have "number_ok (dec_nat n) \<and> number_ok (CHR ''-'' # dec_nat n)" if "0 \<le> n" for n
    using that dec_nat_hd_zero by (intro number_ok_digits) (auto simp: dec_nat_digits)
  then show ?thesis by (simp add: dec_int_def)
qed

lemma num_chars_dec [simp]: "list_all num_char (dec_int i)"
proof -
  have "list_all num_char (dec_nat n)" if "0 \<le> n" for n
    using dec_nat_digits [OF that] by (auto simp: list_all_iff num_char_def)
  then show ?thesis by (simp add: dec_int_def num_char_def)
qed

end
