(* ===== verification/Unmarshal.thy ===== *)
theory Unmarshal
  imports Json
begin

text \<open>
  How \<open>json.Unmarshal\<close> stores a JSON value into a Go value that already exists: a \<open>null\<close>
  leaves strings, numbers, booleans and structs as they are and makes slices and pointers
  nil; an object sets the struct's fields one member after the other, a key being matched
  exactly or else case-insensitively, and members with other keys being ignored; an array
  is stored element by element into the elements the slice has, then into zero values. A
  value of the wrong kind makes the whole call fail, which is \<open>None\<close> here.
\<close>

section \<open>Scalars\<close>

definition un_string :: "json \<Rightarrow> string \<Rightarrow> string option" where
  "un_string j old = (case j of JNull \<Rightarrow> Some old | JStr s \<Rightarrow> Some s | _ \<Rightarrow> None)"

definition un_i64 :: "json \<Rightarrow> i64 \<Rightarrow> i64 option" where
  "un_i64 j old =
     (case j of
        JNull \<Rightarrow> Some old
      | JNum n \<Rightarrow> (case ParseInt n of Ok x \<Rightarrow> Some x | _ \<Rightarrow> None)
      | _ \<Rightarrow> None)"

definition un_u64 :: "json \<Rightarrow> u64 \<Rightarrow> u64 option" where
  "un_u64 j old =
     (case j of
        JNull \<Rightarrow> Some old
      | JNum n \<Rightarrow> (case ParseUint n of Ok x \<Rightarrow> Some x | _ \<Rightarrow> None)
      | _ \<Rightarrow> None)"

definition un_bool :: "json \<Rightarrow> bool \<Rightarrow> bool option" where
  "un_bool j old = (case j of JNull \<Rightarrow> Some old | JBool b \<Rightarrow> Some b | _ \<Rightarrow> None)"

definition json_i64 :: "i64 \<Rightarrow> json" where
  "json_i64 x = JNum (dec_int (sint x))"

definition json_u64 :: "u64 \<Rightarrow> json" where
  "json_u64 x = JNum (dec_int (uint x))"

lemma un_scalars [simp]:
  "un_string (JStr s) old = Some s" "un_bool (JBool b) old' = Some b"
  "un_i64 (json_i64 x) old'' = Some x" "un_u64 (json_u64 x) old'' = Some x"
  by (simp_all add: un_string_def un_bool_def un_i64_def un_u64_def json_i64_def json_u64_def)

lemma json_nums [simp]:
  "nums_ok (json_i64 x)" "nums_ok (json_u64 x)"
  "san_json (json_i64 x) = json_i64 x" "san_json (json_u64 x) = json_u64 x"
  by (simp_all add: json_i64_def json_u64_def)

lemma json_nums_inject [simp]:
  "json_i64 x = json_i64 y \<longleftrightarrow> x = y" "json_u64 x = json_u64 y \<longleftrightarrow> x = y"
  by (metis un_scalars(3) option.inject) (metis un_scalars(4) option.inject)

section \<open>Structs\<close>

text \<open>
  Case folding of keys: a key folds to an ASCII field name when it is that name up to the
  case of its letters, with the two non-ASCII runes that fold to ASCII letters (U+017F to
  \<open>s\<close> and U+212A to \<open>k\<close>).
\<close>

fun fold_key :: "string \<Rightarrow> string" where
  "fold_key [] = []"
| "fold_key (c # s) =
     (if HasPrefix (c # s) [CHR 0xC5, CHR 0xBF] then CHR ''s'' # fold_key (drop 1 s)
      else if HasPrefix (c # s) [CHR 0xE2, CHR 0x84, CHR 0xAA] then CHR ''k'' # fold_key (drop 2 s)
      else (if 65 \<le> byte c \<and> byte c \<le> 90 then char_of (byte c + 32) else c) # fold_key s)"

definition match_field :: "string list \<Rightarrow> string \<Rightarrow> string option" where
  "match_field names k =
     (if k \<in> set names then Some k else List.find (\<lambda>n. fold_key n = fold_key k) names)"

text \<open>Setting the fields of a struct from the members of an object, in their order.\<close>

fun un_members :: "string list \<Rightarrow> (string \<Rightarrow> json \<Rightarrow> 'a \<Rightarrow> 'a option) \<Rightarrow>
    (string \<times> json) list \<Rightarrow> 'a \<Rightarrow> 'a option" where
  "un_members names set_field [] x = Some x"
| "un_members names set_field ((k, v) # ms) x =
     (case match_field names k of
        None \<Rightarrow> un_members names set_field ms x
      | Some n \<Rightarrow>
          (case set_field n v x of
             None \<Rightarrow> None
           | Some y \<Rightarrow> un_members names set_field ms y))"

definition un_struct :: "string list \<Rightarrow> (string \<Rightarrow> json \<Rightarrow> 'a \<Rightarrow> 'a option) \<Rightarrow>
    json \<Rightarrow> 'a \<Rightarrow> 'a option" where
  "un_struct names set_field j x =
     (case j of
        JNull \<Rightarrow> Some x
      | JObj ms \<Rightarrow> un_members names set_field ms x
      | _ \<Rightarrow> None)"

lemma match_field_exact [simp]: "k \<in> set names \<Longrightarrow> match_field names k = Some k"
  by (simp add: match_field_def)

lemma un_members_append:
  "un_members names f (ms @ ms') x =
     (case un_members names f ms x of None \<Rightarrow> None | Some y \<Rightarrow> un_members names f ms' y)"
  by (induction names f ms x rule: un_members.induct) (auto split: option.splits)

section \<open>Pointers and slices\<close>

definition un_pointer :: "(json \<Rightarrow> 'a \<Rightarrow> 'a option) \<Rightarrow> 'a \<Rightarrow> json \<Rightarrow> 'a option \<Rightarrow> 'a option option" where
  "un_pointer un zero j old =
     (case j of
        JNull \<Rightarrow> Some None
      | _ \<Rightarrow> map_option Some (un j (case old of None \<Rightarrow> zero | Some x \<Rightarrow> x)))"

fun un_elems :: "(json \<Rightarrow> 'a \<Rightarrow> 'a option) \<Rightarrow> 'a \<Rightarrow> json list \<Rightarrow> 'a list \<Rightarrow> 'a list option" where
  "un_elems un zero [] old = Some []"
| "un_elems un zero (j # js) old =
     (case un j (case old of [] \<Rightarrow> zero | x # _ \<Rightarrow> x) of
        None \<Rightarrow> None
      | Some y \<Rightarrow> map_option ((#) y) (un_elems un zero js (tl old)))"

definition un_slice :: "(json \<Rightarrow> 'a \<Rightarrow> 'a option) \<Rightarrow> 'a \<Rightarrow> json \<Rightarrow> 'a list \<Rightarrow> 'a list option" where
  "un_slice un zero j old =
     (case j of
        JNull \<Rightarrow> Some []
      | JArr js \<Rightarrow> un_elems un zero js old
      | _ \<Rightarrow> None)"

lemma un_elems_map:
  "(\<And>x. x \<in> set xs \<Longrightarrow> un (to x) zero = Some (f x)) \<Longrightarrow>
   un_elems un zero (map to xs) [] = Some (map f xs)"
  by (induction xs) auto

lemma un_slice_map:
  "(\<And>x. x \<in> set xs \<Longrightarrow> un (to x) zero = Some (f x)) \<Longrightarrow>
   un_slice un zero (JArr (map to xs)) [] = Some (map f xs)"
  by (simp add: un_slice_def un_elems_map)

end
