(* ===== verification/Transaction.thy ===== *)
theory Transaction
  imports Sha256 Unmarshal
begin

text \<open>
  Transactions of \<open>src/block/block.go\<close>: the struct, its JSON form, the bytes a signature
  protects, addresses, signing, signature verification and structural validation. Ed25519
  itself is a parameter (\<open>ed25519\<close>, the operations the program calls); what the program relies
  on is the hypothesis \<open>ed25519_laws\<close>: for keys made from a seed, keys and signatures have the
  documented sizes and a signature made with a private key verifies under its public key.
\<close>

section \<open>The struct and its JSON form\<close>

record transaction =
  Sender :: string
  Recipient :: string
  Amount :: i64
  TxNonce :: u64
  PublicKey :: string
  Signature :: string

definition FaucetAccount :: string where
  "FaucetAccount = ''FAUCET''"

definition omitempty :: "string \<Rightarrow> string \<Rightarrow> (string \<times> json) list" where
  "omitempty k s = (if s = [] then [] else [(k, JStr s)])"

definition payload_members :: "transaction \<Rightarrow> (string \<times> json) list" where
  "payload_members t =
     [(''sender'', JStr (Sender t)), (''recipient'', JStr (Recipient t)),
      (''amount'', json_i64 (Amount t)), (''nonce'', json_u64 (TxNonce t))]"

definition payload_json :: "transaction \<Rightarrow> json" where
  "payload_json t = JObj (payload_members t)"

definition tx_json :: "transaction \<Rightarrow> json" where
  "tx_json t =
     JObj (payload_members t @ omitempty ''public_key'' (PublicKey t)
             @ omitempty ''signature'' (Signature t))"

definition zero_tx :: transaction where
  "zero_tx = \<lparr>Sender = [], Recipient = [], Amount = 0, TxNonce = 0, PublicKey = [], Signature = []\<rparr>"

definition tx_fields :: "string list" where
  "tx_fields = [''sender'', ''recipient'', ''amount'', ''nonce'', ''public_key'', ''signature'']"

definition set_tx_field :: "string \<Rightarrow> json \<Rightarrow> transaction \<Rightarrow> transaction option" where
  "set_tx_field n v t =
     (if n = ''sender'' then map_option (\<lambda>s. t\<lparr>Sender := s\<rparr>) (un_string v (Sender t))
      else if n = ''recipient'' then map_option (\<lambda>s. t\<lparr>Recipient := s\<rparr>) (un_string v (Recipient t))
      else if n = ''amount'' then map_option (\<lambda>x. t\<lparr>Amount := x\<rparr>) (un_i64 v (Amount t))
      else if n = ''nonce'' then map_option (\<lambda>x. t\<lparr>TxNonce := x\<rparr>) (un_u64 v (TxNonce t))
      else if n = ''public_key'' then map_option (\<lambda>s. t\<lparr>PublicKey := s\<rparr>) (un_string v (PublicKey t))
      else map_option (\<lambda>s. t\<lparr>Signature := s\<rparr>) (un_string v (Signature t)))"

definition un_tx :: "json \<Rightarrow> transaction \<Rightarrow> transaction option" where
  "un_tx j t = un_struct tx_fields set_tx_field j t"

definition san_tx :: "transaction \<Rightarrow> transaction" where
  "san_tx t =
     \<lparr>Sender = sanitize (Sender t), Recipient = sanitize (Recipient t), Amount = Amount t,
      TxNonce = TxNonce t, PublicKey = sanitize (PublicKey t), Signature = sanitize (Signature t)\<rparr>"

definition utf8_tx :: "transaction \<Rightarrow> bool" where
  "utf8_tx t \<longleftrightarrow> valid_utf8 (Sender t) \<and> valid_utf8 (Recipient t)
     \<and> valid_utf8 (PublicKey t) \<and> valid_utf8 (Signature t)"

section \<open>Signatures\<close>

text \<open>
  The operations of \<open>crypto/ed25519\<close>: \<open>NewKeyFromSeed\<close>, \<open>PrivateKey.Public\<close>, \<open>Sign\<close> and \<open>Verify\<close>.
  \<open>GenerateKey\<close> is \<open>NewKeyFromSeed\<close> of a random seed.
\<close>

record ed25519 =
  ed_key :: "string \<Rightarrow> string"
  ed_public :: "string \<Rightarrow> string"
  ed_sign :: "string \<Rightarrow> string \<Rightarrow> string"
  ed_verify :: "string \<Rightarrow> string \<Rightarrow> string \<Rightarrow> bool"

definition SeedSize :: nat where "SeedSize = 32"
definition PrivateKeySize :: nat where "PrivateKeySize = 64"
definition PublicKeySize :: nat where "PublicKeySize = 32"
definition SignatureSize :: nat where "SignatureSize = 64"

text \<open>
  What the documentation promises, for keys made from a seed: the sizes, and that the public
  key verifies what the private key signs. Nothing is promised for other strings of 64 bytes,
  whose public half need not belong to their seed.
\<close>

definition ed25519_laws :: "ed25519 \<Rightarrow> bool" where
  "ed25519_laws ed \<longleftrightarrow>
     (\<forall>seed. length seed = SeedSize \<longrightarrow>
        length (ed_key ed seed) = PrivateKeySize
        \<and> length (ed_public ed (ed_key ed seed)) = PublicKeySize
        \<and> (\<forall>m. length (ed_sign ed (ed_key ed seed) m) = SignatureSize
              \<and> ed_verify ed (ed_public ed (ed_key ed seed)) m (ed_sign ed (ed_key ed seed) m)))"

text \<open>A private key as key generation makes it.\<close>

definition generated_key :: "ed25519 \<Rightarrow> string \<Rightarrow> bool" where
  "generated_key ed sk \<longleftrightarrow> (\<exists>seed. length seed = SeedSize \<and> sk = ed_key ed seed)"

lemma generated_key_laws:
  assumes "ed25519_laws ed" "generated_key ed sk"
  shows "length sk = PrivateKeySize" "length (ed_public ed sk) = PublicKeySize"
    "length (ed_sign ed sk m) = SignatureSize" "ed_verify ed (ed_public ed sk) m (ed_sign ed sk m)"
  using assms by (auto simp: ed25519_laws_def generated_key_def)

datatype tx_error =
    KeyLength nat nat
  | FaucetSigned
  | InvalidPublicKey
  | InvalidSignatureEncoding
  | KeyNotOwner
  | SignatureFailed
  | AmountNotPositive i64
  | SenderEmpty
  | RecipientEmpty
  | SenderIsRecipient
  | FaucetNonce
  | NonceZero

text \<open>
  Marshalling strings and integers never fails, so the error results of \<open>signingBytes\<close>
  and the branches that wrap them cannot occur.
\<close>

definition signingBytes :: "transaction \<Rightarrow> string" where
  "signingBytes t = Marshal (payload_json t)"

definition AddressFromPublicKey :: "string \<Rightarrow> string" where
  "AddressFromPublicKey publicKey = hex_encode (take 20 (sha256 publicKey))"

definition Sign :: "ed25519 \<Rightarrow> string \<Rightarrow> transaction \<Rightarrow> (tx_error, transaction) res" where
  "Sign ed privateKey t =
     (if length privateKey \<noteq> PrivateKeySize then Err (KeyLength (length privateKey) PrivateKeySize)
      else
        let publicKey = ed_public ed privateKey;
            t1 = t\<lparr>Sender := AddressFromPublicKey publicKey, PublicKey := hex_encode publicKey\<rparr>
        in Ok (t1\<lparr>Signature := hex_encode (ed_sign ed privateKey (signingBytes t1))\<rparr>))"

definition VerifySignature :: "ed25519 \<Rightarrow> transaction \<Rightarrow> (tx_error, unit) res" where
  "VerifySignature ed t =
     (if Sender t = FaucetAccount then
        (if PublicKey t \<noteq> [] \<or> Signature t \<noteq> [] then Err FaucetSigned else Ok ())
      else
        (case hex_decode (PublicKey t) of
           None \<Rightarrow> Err InvalidPublicKey
         | Some publicKey \<Rightarrow>
             (if length publicKey \<noteq> PublicKeySize then Err InvalidPublicKey
              else
                (case hex_decode (Signature t) of
                   None \<Rightarrow> Err InvalidSignatureEncoding
                 | Some sig \<Rightarrow>
                     (if length sig \<noteq> SignatureSize then Err InvalidSignatureEncoding
                      else if AddressFromPublicKey publicKey \<noteq> Sender t then Err KeyNotOwner
                      else if \<not> ed_verify ed publicKey (signingBytes t) sig then Err SignatureFailed
                      else Ok ())))))"

definition Transaction_Validate :: "ed25519 \<Rightarrow> transaction \<Rightarrow> (tx_error, unit) res" where
  "Transaction_Validate ed t =
     (if sint (Amount t) \<le> 0 then Err (AmountNotPositive (Amount t))
      else if TrimSpace (Sender t) = [] then Err SenderEmpty
      else if TrimSpace (Recipient t) = [] then Err RecipientEmpty
      else if Sender t = Recipient t then Err SenderIsRecipient
      else if Sender t = FaucetAccount then
        (if TxNonce t \<noteq> 0 then Err FaucetNonce else VerifySignature ed t)
      else if TxNonce t = 0 then Err NonceZero
      else VerifySignature ed t)"

text \<open>\<open>TransactionHash\<close> of \<open>src/block/merkle.go\<close>.\<close>

definition TransactionHash :: "transaction \<Rightarrow> string" where
  "TransactionHash t = hex_encode (sha256 (Marshal (tx_json t)))"

section \<open>Lemmas\<close>

lemma nums_ok_tx [simp]: "nums_ok (tx_json t)" "nums_ok (payload_json t)"
  by (simp_all add: tx_json_def payload_json_def payload_members_def omitempty_def)

lemma sanitize_Nil [simp]: "sanitize [] = []"
  by (simp add: sanitize_def)

lemma sanitize_eq_Nil [simp]: "sanitize s = [] \<longleftrightarrow> s = []"
  by (cases s) (simp_all add: sanitize_def runes.simps(2) rune_or_replacement_def replacement_def)

lemma sanitize_field_names [simp]:
  "list_all (\<lambda>k. sanitize k = k) tx_fields"
  by (simp add: tx_fields_def ascii_def byte_def)

lemma san_tx_json: "san_json (tx_json t) = tx_json (san_tx t)"
  using sanitize_field_names
  by (simp add: tx_json_def san_tx_def payload_members_def omitempty_def tx_fields_def)

lemma un_tx_json [simp]: "un_tx (tx_json t) zero_tx = Some t"
  by (simp add: un_tx_def un_struct_def tx_json_def payload_members_def omitempty_def
      set_tx_field_def tx_fields_def zero_tx_def)

lemma tx_json_inject [simp]: "tx_json t = tx_json u \<longleftrightarrow> t = u"
  by (metis un_tx_json option.inject)

lemma san_tx_utf8 [simp]: "utf8_tx t \<Longrightarrow> san_tx t = t"
  by (simp add: utf8_tx_def san_tx_def)

text \<open>What the bytes of a transaction determine, and what the signed bytes determine.\<close>

lemma Marshal_tx_inject:
  assumes "Marshal (tx_json t) = Marshal (tx_json u)"
  shows "san_tx t = san_tx u"
proof -
  have "san_json (tx_json t) = san_json (tx_json u)"
    using assms by (intro Marshal_inject) simp_all
  then show ?thesis by (simp add: san_tx_json)
qed

lemma signingBytes_inject:
  assumes "signingBytes t = signingBytes u"
  shows "sanitize (Sender t) = sanitize (Sender u) \<and> sanitize (Recipient t) = sanitize (Recipient u)
    \<and> Amount t = Amount u \<and> TxNonce t = TxNonce u"
proof -
  have "san_json (payload_json t) = san_json (payload_json u)"
    using assms by (intro Marshal_inject) (simp_all add: signingBytes_def)
  then show ?thesis by (simp add: payload_json_def payload_members_def)
qed

lemma signingBytes_cong:
  "Sender t = Sender u \<Longrightarrow> Recipient t = Recipient u \<Longrightarrow> Amount t = Amount u \<Longrightarrow> TxNonce t = TxNonce u \<Longrightarrow>
   signingBytes t = signingBytes u"
  by (simp add: signingBytes_def payload_json_def payload_members_def)

text \<open>Addresses.\<close>

lemma length_Address [simp]: "length (AddressFromPublicKey pk) = 40"
  by (simp add: AddressFromPublicKey_def)

lemma Address_not_Faucet [simp]: "AddressFromPublicKey pk \<noteq> FaucetAccount"
proof
  assume "AddressFromPublicKey pk = FaucetAccount"
  then have "length (AddressFromPublicKey pk) = length FaucetAccount" by simp
  then show False by (simp add: FaucetAccount_def)
qed

lemma hex_digit_printable: "0 \<le> n \<Longrightarrow> n < 16 \<Longrightarrow> 33 \<le> byte (hex_digit n) \<and> byte (hex_digit n) < 127"
  by (auto simp: hex_digit_def)

lemma hex_encode_printable: "c \<in> set (hex_encode bs) \<Longrightarrow> 33 \<le> byte c \<and> byte c < 127"
proof (induction bs)
  case (Cons b bs)
  have "33 \<le> byte (hex_digit (byte b div 16)) \<and> byte (hex_digit (byte b div 16)) < 127"
    "33 \<le> byte (hex_digit (byte b mod 16)) \<and> byte (hex_digit (byte b mod 16)) < 127"
    using byte_bounds [of b] by (intro hex_digit_printable; linarith)+
  with Cons show ?case by (auto simp: hex_encode_Cons hex_pair_def)
qed simp

lemma TrimSpace_Address [simp]: "TrimSpace (AddressFromPublicKey pk) \<noteq> []"
proof -
  let ?a = "AddressFromPublicKey pk"
  have ne: "?a \<noteq> []" using length_Address [of pk] by fastforce
  have "33 \<le> byte c \<and> byte c < 127" if "c \<in> set ?a" for c
    using that hex_encode_printable unfolding AddressFromPublicKey_def by blast
  with ne have "TrimSpace ?a = ?a"
    by (intro TrimSpace_printable) simp_all
  with ne show ?thesis by simp
qed

section \<open>Properties\<close>

text \<open>
  A scheme that satisfies the laws, for the witnesses: the private key is the seed twice, its
  second half is the public key, and a signature is the public key followed by the digest of
  the message.
\<close>

definition plain_ed25519 :: ed25519 where
  "plain_ed25519 =
     \<lparr>ed_key = (\<lambda>seed. seed @ seed), ed_public = drop 32, ed_sign = (\<lambda>sk m. drop 32 sk @ sha256 m),
      ed_verify = (\<lambda>pk m sig. sig = pk @ sha256 m)\<rparr>"

lemma plain_ed25519_laws: "ed25519_laws plain_ed25519"
  by (simp add: ed25519_laws_def plain_ed25519_def SeedSize_def PrivateKeySize_def PublicKeySize_def SignatureSize_def)

lemma plain_generated: "length seed = 32 \<Longrightarrow> generated_key plain_ed25519 (seed @ seed)"
  by (auto simp: generated_key_def plain_ed25519_def SeedSize_def)

lemma sign_validates:
  assumes "ed25519_laws ed" "generated_key ed sk"
    and "0 < sint (Amount t)" "TxNonce t \<noteq> 0" "TrimSpace (Recipient t) \<noteq> []"
    and "Recipient t \<noteq> AddressFromPublicKey (ed_public ed sk)"
  shows "\<exists>u. Sign ed sk t = Ok u \<and> Transaction_Validate ed u = Ok ()
           \<and> Sender u = AddressFromPublicKey (ed_public ed sk)
           \<and> Recipient u = Recipient t \<and> Amount u = Amount t \<and> TxNonce u = TxNonce t"
proof -
  let ?pk = "ed_public ed sk"
  let ?t1 = "t\<lparr>Sender := AddressFromPublicKey ?pk, PublicKey := hex_encode ?pk\<rparr>"
  let ?u = "?t1\<lparr>Signature := hex_encode (ed_sign ed sk (signingBytes ?t1))\<rparr>"
  have same: "signingBytes ?u = signingBytes ?t1"
    by (rule signingBytes_cong) simp_all
  have "VerifySignature ed ?u = Ok ()"
    by (simp add: VerifySignature_def generated_key_laws [OF assms(1,2)] same)
  then have "Transaction_Validate ed ?u = Ok ()"
    using assms by (simp add: Transaction_Validate_def)
  moreover have "Sign ed sk t = Ok ?u"
    by (simp add: Sign_def Let_def generated_key_laws(1) [OF assms(1,2)])
  ultimately show ?thesis by simp
qed

text \<open>
  C26. A transfer that is signed with a key that key generation made passes validation: signing
  fills in the owner's address, the public key and a signature over exactly the bytes that
  verification recomputes.
\<close>

theorem sign_then_validate:
  assumes "ed25519_laws ed" "generated_key ed sk"
    and "0 < sint (Amount t)" "TxNonce t \<noteq> 0" "TrimSpace (Recipient t) \<noteq> []"
    and "Recipient t \<noteq> AddressFromPublicKey (ed_public ed sk)"
  shows "\<exists>u. Sign ed sk t = Ok u \<and> Transaction_Validate ed u = Ok ()
           \<and> Sender u = AddressFromPublicKey (ed_public ed sk)
           \<and> Recipient u = Recipient t \<and> Amount u = Amount t \<and> TxNonce u = TxNonce t"
  by (rule sign_validates [OF assms])

theorem sign_then_validate_witness:
  "\<exists>u. Sign plain_ed25519 (replicate 32 (CHR ''k'') @ replicate 32 (CHR ''k''))
         \<lparr>Sender = [], Recipient = ''bob'', Amount = 5, TxNonce = 1, PublicKey = [], Signature = []\<rparr> = Ok u
       \<and> Transaction_Validate plain_ed25519 u = Ok ()"
proof -
  have "TrimSpace ''bob'' = ''bob''"
    by (rule TrimSpace_printable) (simp_all add: byte_def)
  moreover have "''bob'' \<noteq> AddressFromPublicKey pk" for pk
  proof
    assume "''bob'' = AddressFromPublicKey pk"
    then have "length ''bob'' = length (AddressFromPublicKey pk)" by (rule arg_cong)
    then show False by simp
  qed
  ultimately show ?thesis
    using sign_then_validate [OF plain_ed25519_laws plain_generated, of "replicate 32 (CHR ''k'')"
        "\<lparr>Sender = [], Recipient = ''bob'', Amount = 5, TxNonce = 1, PublicKey = [], Signature = []\<rparr>"]
    by auto
qed

text \<open>
  Validation accepts exactly the well-formed transactions: a positive amount, non-blank
  and different parties, and then either an unsigned faucet grant with nonce 0 or a transfer
  with a non-zero nonce, whose public key hashes to the sender's address and verifies the
  signature over the signed bytes.
\<close>

theorem Transaction_Validate_accepts:
  "Transaction_Validate ed t = Ok () \<longleftrightarrow>
     0 < sint (Amount t) \<and> TrimSpace (Sender t) \<noteq> [] \<and> TrimSpace (Recipient t) \<noteq> []
     \<and> Sender t \<noteq> Recipient t
     \<and> (if Sender t = FaucetAccount
        then TxNonce t = 0 \<and> PublicKey t = [] \<and> Signature t = []
        else TxNonce t \<noteq> 0
          \<and> (\<exists>pk sig. hex_decode (PublicKey t) = Some pk \<and> length pk = PublicKeySize
               \<and> hex_decode (Signature t) = Some sig \<and> length sig = SignatureSize
               \<and> AddressFromPublicKey pk = Sender t \<and> ed_verify ed pk (signingBytes t) sig))"
  by (auto simp: Transaction_Validate_def VerifySignature_def split: if_splits option.splits)

text \<open>
  C28. The signed bytes determine the protected fields: for transactions whose strings are
  UTF-8, equal signed bytes mean equal sender, recipient, amount and nonce, so no protected
  field can be changed under a signature.
\<close>

theorem signingBytes_protect_fields:
  assumes "utf8_tx t" "utf8_tx u"
  shows "signingBytes t = signingBytes u \<longleftrightarrow>
           Sender t = Sender u \<and> Recipient t = Recipient u \<and> Amount t = Amount u \<and> TxNonce t = TxNonce u"
  using assms signingBytes_inject [of t u] signingBytes_cong [of t u] by (auto simp: utf8_tx_def)

theorem signingBytes_protect_fields_witness:
  "signingBytes \<lparr>Sender = ''a'', Recipient = ''b'', Amount = 1, TxNonce = 1, PublicKey = [], Signature = []\<rparr>
     \<noteq> signingBytes \<lparr>Sender = ''a'', Recipient = ''b'', Amount = 2, TxNonce = 1, PublicKey = [], Signature = []\<rparr>"
  by (subst signingBytes_protect_fields) (simp_all add: utf8_tx_def ascii_def byte_def)

text \<open>
  The protection stops at UTF-8: a recipient whose bytes are not UTF-8 is signed as
  U+FFFD, so two transfers to different recipients can have the same signed bytes and the
  same transaction hash, and a signature for one verifies for the other.
\<close>

theorem signature_ignores_invalid_bytes:
  "\<exists>r r'. r \<noteq> r' \<and> TrimSpace r \<noteq> [] \<and> TrimSpace r' \<noteq> []
     \<and> (\<forall>t. signingBytes (t\<lparr>Recipient := r\<rparr>) = signingBytes (t\<lparr>Recipient := r'\<rparr>)
          \<and> TransactionHash (t\<lparr>Recipient := r\<rparr>) = TransactionHash (t\<lparr>Recipient := r'\<rparr>))"
proof (intro exI conjI allI)
  let ?r = "[CHR 0xFE]" and ?r' = "[CHR 0xFF]"
  show "?r \<noteq> ?r'" by simp
  show "TrimSpace ?r \<noteq> []" "TrimSpace ?r' \<noteq> []"
    by (simp_all add: TrimSpace_def strip.simps space_runes_def HasPrefix_def)
  have "runes ?r = runes ?r'"
    by (simp add: runes.simps(2) rune_width_def byte_def)
  then have "quote ?r = quote ?r'" by (simp add: quote_def)
  then show "signingBytes (t\<lparr>Recipient := ?r\<rparr>) = signingBytes (t\<lparr>Recipient := ?r'\<rparr>)"
    "TransactionHash (t\<lparr>Recipient := ?r\<rparr>) = TransactionHash (t\<lparr>Recipient := ?r'\<rparr>)" for t
    by (simp_all add: signingBytes_def TransactionHash_def payload_json_def tx_json_def
        payload_members_def Marshal_def omitempty_def)
qed

text \<open>
  A transaction hash identifies the transaction: if SHA-256 does not collide on the two
  encodings, equal hashes mean equal transactions (up to the U+FFFD replacement of C4).
\<close>

theorem TransactionHash_identifies:
  assumes "inj_on sha256 {Marshal (tx_json t), Marshal (tx_json u)}"
    and "TransactionHash t = TransactionHash u"
  shows "san_tx t = san_tx u"
proof -
  have "Marshal (tx_json t) = Marshal (tx_json u)"
  proof (rule sha.digest_eq_inputs [OF assms(1)])
    show "sha256 (Marshal (tx_json t)) = sha256 (Marshal (tx_json u))"
      using assms(2) by (simp add: TransactionHash_def)
  qed simp_all
  then show ?thesis by (rule Marshal_tx_inject)
qed

theorem TransactionHash_identifies_witness:
  "\<exists>t u. t \<noteq> u \<and> TransactionHash t = TransactionHash u \<and> san_tx t = san_tx u"
proof -
  let ?t = "zero_tx\<lparr>Recipient := [CHR 0xFE]\<rparr>" and ?u = "zero_tx\<lparr>Recipient := [CHR 0xFF]\<rparr>"
  have "runes [CHR 0xFE] = runes [CHR 0xFF]"
    by (simp add: runes.simps(2) rune_width_def byte_def)
  then have same: "Marshal (tx_json ?t) = Marshal (tx_json ?u)"
    by (simp add: tx_json_def payload_members_def Marshal_def omitempty_def quote_def)
  have "inj_on sha256 {Marshal (tx_json ?t), Marshal (tx_json ?u)}" unfolding same by simp
  moreover have "TransactionHash ?t = TransactionHash ?u" by (simp only: TransactionHash_def same)
  ultimately have "san_tx ?t = san_tx ?u" by (rule TransactionHash_identifies)
  with \<open>TransactionHash ?t = TransactionHash ?u\<close> show ?thesis
    by (intro exI [of _ ?t] exI [of _ ?u]) (simp add: zero_tx_def)
qed

end
