(* ===== verification/Merkle.thy ===== *)
theory Merkle
  imports Transaction
begin

text \<open>
  Merkle roots and inclusion proofs (\<open>src/block/merkle.go\<close>, \<open>src/block/merkle_proof.go\<close>).
  A level of the tree is a list of digests; a loop iteration duplicates the last digest of
  an odd level and hashes neighbouring pairs. The lemmas relate the two loops (root and
  proof path) to each other, and a root to the list of leaves it was computed from.
\<close>

section \<open>Roots\<close>

definition dup_last :: "'a list \<Rightarrow> 'a list" where
  "dup_last level = (if odd (length level) then level @ [last level] else level)"

fun hash_pairs :: "string list \<Rightarrow> string list" where
  "hash_pairs (left # right # rest) = sha256 (left @ right) # hash_pairs rest"
| "hash_pairs _ = []"

lemma length_hash_pairs [simp]: "length (hash_pairs xs) = length xs div 2"
  by (induction xs rule: hash_pairs.induct) simp_all

lemma length_dup_last: "length (dup_last xs) = 2 * ((length xs + 1) div 2)"
  unfolding dup_last_def by (cases "odd (length xs)") (auto elim!: oddE evenE)

lemma even_dup_last [simp]: "even (length (dup_last xs))"
  by (simp add: length_dup_last)

lemma length_level: "length (hash_pairs (dup_last xs)) = (length xs + 1) div 2"
  by (simp add: length_dup_last)

function merkle_loop :: "string list \<Rightarrow> string list" where
  "merkle_loop level = (if 1 < length level then merkle_loop (hash_pairs (dup_last level)) else level)"
  by pat_completeness auto
termination by (relation "measure length") (auto simp: length_dup_last)

declare merkle_loop.simps [simp del]

definition leaf_hash :: "transaction \<Rightarrow> string" where
  "leaf_hash t = sha256 (Marshal (tx_json t))"

definition CalculateMerkleRoot :: "transaction list \<Rightarrow> string" where
  "CalculateMerkleRoot txs =
     (if txs = [] then hex_encode (sha256 [])
      else hex_encode (merkle_loop (map leaf_hash txs) ! 0))"

section \<open>Proofs\<close>

record proof_step =
  StepHash :: string
  StepLeft :: bool

datatype merkle_error = ProofIndex i64 nat | LeafNotHex

fun decode_leaves :: "transaction list \<Rightarrow> (merkle_error, string list) res" where
  "decode_leaves [] = Ok []"
| "decode_leaves (t # ts) =
     (case hex_decode (TransactionHash t) of
        None \<Rightarrow> Err LeafNotHex
      | Some h \<Rightarrow> bind_res (decode_leaves ts) (\<lambda>hs. Ok (h # hs)))"

function proof_loop :: "string list \<Rightarrow> nat \<Rightarrow> proof_step list \<Rightarrow> proof_step list" where
  "proof_loop level position path =
     (if 1 < length level then
        let level' = dup_last level;
            siblingIndex = (if even position then position + 1 else position - 1);
            step = \<lparr>StepHash = hex_encode (level' ! siblingIndex), StepLeft = odd position\<rparr>
        in proof_loop (hash_pairs level') (position div 2) (path @ [step])
      else path)"
  by pat_completeness auto
termination by (relation "measure (\<lambda>(level, _, _). length level)") (auto simp: length_dup_last)

declare proof_loop.simps [simp del]

definition GenerateMerkleProof :: "transaction list \<Rightarrow> i64 \<Rightarrow> (merkle_error, proof_step list) res" where
  "GenerateMerkleProof txs index =
     (if sint index < 0 \<or> int (length txs) \<le> sint index then Err (ProofIndex index (length txs))
      else bind_res (decode_leaves txs) (\<lambda>level. Ok (proof_loop level (nat (sint index)) [])))"

fun verify_loop :: "string \<Rightarrow> proof_step list \<Rightarrow> string \<Rightarrow> bool" where
  "verify_loop current [] root = (hex_encode current = root)"
| "verify_loop current (step # path) root =
     (case hex_decode (StepHash step) of
        None \<Rightarrow> False
      | Some sibling \<Rightarrow>
          verify_loop (sha256 (if StepLeft step then sibling @ current else current @ sibling)) path root)"

definition VerifyMerkleProof :: "string \<Rightarrow> proof_step list \<Rightarrow> string \<Rightarrow> bool" where
  "VerifyMerkleProof transactionHash path root =
     (case hex_decode transactionHash of
        None \<Rightarrow> False
      | Some current \<Rightarrow> verify_loop current path root)"

section \<open>Lemmas on levels\<close>

lemma merkle_loop_single [simp]: "merkle_loop [x] = [x]"
  by (simp add: merkle_loop.simps)

lemma merkle_loop_done: "\<not> 1 < length level \<Longrightarrow> merkle_loop level = level"
  by (subst merkle_loop.simps) simp

lemma merkle_loop_step:
  "1 < length level \<Longrightarrow> merkle_loop level = merkle_loop (hash_pairs (dup_last level))"
  by (subst merkle_loop.simps) simp

lemma length_merkle_loop: "xs \<noteq> [] \<Longrightarrow> length (merkle_loop xs) = 1"
proof (induction xs rule: merkle_loop.induct)
  case (1 level)
  show ?case
  proof (cases "1 < length level")
    case True
    then have "length (hash_pairs (dup_last level)) \<noteq> 0" by (simp add: length_dup_last)
    with 1 True show ?thesis by (simp add: merkle_loop_step del: length_hash_pairs)
  next
    case False
    with "1.prems" show ?thesis by (cases level) (simp_all add: merkle_loop.simps)
  qed
qed

lemma nth_hash_pairs:
  "2 * k + 1 < length xs \<Longrightarrow> hash_pairs xs ! k = sha256 (xs ! (2 * k) @ xs ! (2 * k + 1))"
proof (induction xs arbitrary: k rule: hash_pairs.induct)
  case (1 l r rest)
  then show ?case by (cases k) simp_all
qed simp_all

lemma nth_dup_last: "k < length xs \<Longrightarrow> dup_last xs ! k = xs ! k"
  by (simp add: dup_last_def nth_append)

lemma decode_leaves_Ok [simp]: "decode_leaves txs = Ok (map leaf_hash txs)"
  by (induction txs) (simp_all add: TransactionHash_def leaf_hash_def)

text \<open>The accumulator of the proof loop is a prefix of its result.\<close>

definition path_step :: "string list \<Rightarrow> nat \<Rightarrow> proof_step" where
  "path_step level pos =
     \<lparr>StepHash = hex_encode (dup_last level ! (if even pos then pos + 1 else pos - 1)), StepLeft = odd pos\<rparr>"

lemma proof_loop_unfold:
  "1 < length level \<Longrightarrow>
   proof_loop level pos path = proof_loop (hash_pairs (dup_last level)) (pos div 2) (path @ [path_step level pos])"
  by (subst proof_loop.simps) (simp add: Let_def path_step_def)

lemma proof_loop_done: "\<not> 1 < length level \<Longrightarrow> proof_loop level pos path = path"
  by (subst proof_loop.simps) simp

lemma proof_loop_acc: "proof_loop level pos path = path @ proof_loop level pos []"
proof (induction level arbitrary: pos path rule: merkle_loop.induct)
  case (1 level)
  show ?case
  proof (cases "1 < length level")
    case True
    with "1.IH" [of "pos div 2" "path @ [path_step level pos]"] "1.IH" [of "pos div 2" "[path_step level pos]"]
    show ?thesis by (simp add: proof_loop_unfold)
  next
    case False
    then show ?thesis by (simp add: proof_loop_done)
  qed
qed

lemma proof_loop_step:
  "1 < length level \<Longrightarrow>
   proof_loop level pos [] = path_step level pos # proof_loop (hash_pairs (dup_last level)) (pos div 2) []"
  using proof_loop_acc [of _ _ "[path_step level pos]"] by (simp add: proof_loop_unfold)

text \<open>Hashing a node of a level with its sibling gives the parent's entry in the next level.\<close>

lemma parent_hash:
  assumes "pos < length level" "1 < length level"
  shows "sha256 (if odd pos then dup_last level ! (pos - 1) @ level ! pos
                 else level ! pos @ dup_last level ! (pos + 1))
           = hash_pairs (dup_last level) ! (pos div 2)"
proof -
  from assms(1) have half: "2 * (pos div 2) + 1 < length (dup_last level)"
    by (simp only: length_dup_last) presburger
  have "hash_pairs (dup_last level) ! (pos div 2)
          = sha256 (dup_last level ! (2 * (pos div 2)) @ dup_last level ! (2 * (pos div 2) + 1))"
    using half by (rule nth_hash_pairs)
  moreover have "odd pos \<Longrightarrow> 2 * (pos div 2) = pos - 1 \<and> 2 * (pos div 2) + 1 = pos"
    "even pos \<Longrightarrow> 2 * (pos div 2) = pos \<and> 2 * (pos div 2) + 1 = pos + 1"
    by (auto elim!: oddE)
  ultimately show ?thesis using assms(1) nth_dup_last [of pos level] by (cases "odd pos") simp_all
qed

lemma verify_proof_loop:
  assumes "pos < length level"
  shows "verify_loop (level ! pos) (proof_loop level pos []) root \<longleftrightarrow> hex_encode (merkle_loop level ! 0) = root"
  using assms
proof (induction level arbitrary: pos rule: merkle_loop.induct)
  case (1 level)
  show ?case
  proof (cases "1 < length level")
    case True
    let ?next = "hash_pairs (dup_last level)"
    have "pos div 2 < length ?next" using "1.prems" by (simp add: length_dup_last)
    then have "verify_loop (?next ! (pos div 2)) (proof_loop ?next (pos div 2) []) root
                 \<longleftrightarrow> hex_encode (merkle_loop ?next ! 0) = root"
      using "1.IH" True by blast
    moreover have "verify_loop (level ! pos) (proof_loop level pos []) root
        \<longleftrightarrow> verify_loop (?next ! (pos div 2)) (proof_loop ?next (pos div 2) []) root"
      using parent_hash [OF "1.prems" True] True
      by (cases "odd pos") (simp_all add: proof_loop_step path_step_def)
    ultimately show ?thesis using True by (simp add: merkle_loop_step)
  next
    case False
    with "1.prems" have "pos = 0" "length level = 1" by auto
    with False show ?thesis by (simp add: proof_loop_done merkle_loop.simps)
  qed
qed

section \<open>What a root determines\<close>

text \<open>Every byte string that the loop hashes above the leaves.\<close>

fun pair_inputs :: "string list \<Rightarrow> string set" where
  "pair_inputs (left # right # rest) = insert (left @ right) (pair_inputs rest)"
| "pair_inputs _ = {}"

function merkle_inputs :: "string list \<Rightarrow> string set" where
  "merkle_inputs level =
     (if 1 < length level
      then pair_inputs (dup_last level) \<union> merkle_inputs (hash_pairs (dup_last level)) else {})"
  by pat_completeness auto
termination by (relation "measure length") (auto simp: length_dup_last)

declare merkle_inputs.simps [simp del]

lemma merkle_inputs_step:
  "1 < length level \<Longrightarrow>
   merkle_inputs level = pair_inputs (dup_last level) \<union> merkle_inputs (hash_pairs (dup_last level))"
  by (subst merkle_inputs.simps) simp

lemma merkle_inputs_done: "\<not> 1 < length level \<Longrightarrow> merkle_inputs level = {}"
  by (subst merkle_inputs.simps) simp

definition digests :: "string list \<Rightarrow> bool" where
  "digests xs \<longleftrightarrow> (\<forall>x\<in>set xs. length x = 32)"

lemma digests_hash_pairs [simp]: "digests (hash_pairs xs)"
  by (induction xs rule: hash_pairs.induct) (simp_all add: digests_def)

lemma digests_dup_last [simp]: "digests xs \<Longrightarrow> digests (dup_last xs)"
  by (cases "xs = []") (auto simp: digests_def dup_last_def)

lemma digests_leaves [simp]: "digests (map leaf_hash txs)"
  by (simp add: digests_def leaf_hash_def)

lemma hash_pairs_inject:
  assumes "inj_on sha256 S" "pair_inputs xs \<subseteq> S" "pair_inputs ys \<subseteq> S"
    and "length xs = length ys" "even (length xs)" "digests xs" "digests ys"
    and "hash_pairs xs = hash_pairs ys"
  shows "xs = ys"
  using assms(2-)
proof (induction xs arbitrary: ys rule: hash_pairs.induct)
  case (1 l r rest)
  then obtain l' r' rest' where ys: "ys = l' # r' # rest'"
    by (cases ys rule: hash_pairs.cases) auto
  with 1 have "l = l' \<and> r = r'"
    by (intro sha.pair_inject [OF assms(1)]) (auto simp: digests_def)
  moreover have "rest = rest'"
    using 1 ys by (intro "1.IH") (auto simp: digests_def)
  ultimately show ?case using ys by simp
qed auto

lemma dup_last_inject: "length xs = length ys \<Longrightarrow> dup_last xs = dup_last ys \<Longrightarrow> xs = ys"
  by (auto simp: dup_last_def split: if_splits)

lemma merkle_loop_inject:
  assumes "inj_on sha256 S" "merkle_inputs xs \<subseteq> S" "merkle_inputs ys \<subseteq> S"
    and "length xs = length ys" "digests xs" "digests ys" "merkle_loop xs = merkle_loop ys"
  shows "xs = ys"
  using assms(2-)
proof (induction xs arbitrary: ys rule: merkle_loop.induct)
  case (1 xs)
  show ?case
  proof (cases "1 < length xs")
    case True
    with "1.prems" have l: "1 < length ys" by simp
    have len: "length (dup_last xs) = length (dup_last ys)"
      using "1.prems" by (simp add: length_dup_last)
    have sub: "pair_inputs (dup_last xs) \<subseteq> S" "merkle_inputs (hash_pairs (dup_last xs)) \<subseteq> S"
      "pair_inputs (dup_last ys) \<subseteq> S" "merkle_inputs (hash_pairs (dup_last ys)) \<subseteq> S"
      using "1.prems"(1,2) True l by (simp_all add: merkle_inputs_step)
    have "hash_pairs (dup_last xs) = hash_pairs (dup_last ys)"
      using "1.prems"(6) True l len sub
      by (intro "1.IH") (simp_all add: merkle_loop_step)
    then have "dup_last xs = dup_last ys"
      by (rule hash_pairs_inject [OF assms(1) sub(1,3) len even_dup_last
            digests_dup_last [OF "1.prems"(4)] digests_dup_last [OF "1.prems"(5)]])
    then show ?thesis by (rule dup_last_inject [OF "1.prems"(3)])
  next
    case False
    with "1.prems" show ?thesis by (simp add: merkle_loop_done)
  qed
qed

text \<open>The depth of the tree over \<open>n\<close> leaves.\<close>

lemma pow2_below_half:
  fixes m n :: nat
  assumes "m < 2 * ((n + 1) div 2)" "even m"
  shows "m < n"
  using assms by presburger

lemma length_proof_loop:
  assumes "level \<noteq> []"
  shows "length level \<le> 2 ^ length (proof_loop level pos [])
    \<and> (1 < length level \<longrightarrow> 2 ^ length (proof_loop level pos []) < 2 * length level)"
  using assms
proof (induction level arbitrary: pos rule: merkle_loop.induct)
  case (1 level)
  show ?case
  proof (cases "1 < length level")
    case True
    let ?next = "hash_pairs (dup_last level)"
    let ?d = "length (proof_loop ?next (pos div 2) [])"
    have len: "length ?next = (length level + 1) div 2" by (rule length_level)
    have "length ?next \<noteq> 0" unfolding len using True by simp
    then have "?next \<noteq> []" by (metis list.size(3))
    with "1.IH" True have IH: "length ?next \<le> 2 ^ ?d" "1 < length ?next \<longrightarrow> 2 ^ ?d < 2 * length ?next"
      by blast+
    show ?thesis
    proof (cases "length level = 2")
      case True
      with len have "length ?next = 1" by simp
      then show ?thesis using True by (simp add: proof_loop_step proof_loop_done)
    next
      case False
      with True len have "1 < length ?next" by auto
      with IH(2) have "2 ^ ?d < 2 * ((length level + 1) div 2)" by (simp only: len)
      moreover have "even (2 ^ ?d :: nat)"
        using proof_loop_step [OF \<open>1 < length ?next\<close>, of "pos div 2"] by simp
      ultimately have "2 ^ ?d < length level" by (rule pow2_below_half)
      moreover have "length level \<le> 2 * 2 ^ ?d" using IH(1) len by linarith
      ultimately show ?thesis using True by (simp add: proof_loop_step)
    qed
  next
    case False
    with "1.prems" show ?thesis by (cases level) (simp_all add: proof_loop_done)
  qed
qed

lemma map_san_utf8: "list_all utf8_tx txs \<Longrightarrow> map san_tx txs = txs"
  by (induction txs) simp_all

section \<open>Properties\<close>

lemma generated_proof_ok:
  assumes "0 \<le> sint index" "sint index < int (length txs)"
  shows "\<exists>path. GenerateMerkleProof txs index = Ok path
           \<and> (\<forall>root. VerifyMerkleProof (TransactionHash (txs ! nat (sint index))) path root
                      \<longleftrightarrow> root = CalculateMerkleRoot txs)"
proof -
  let ?i = "nat (sint index)"
  let ?path = "proof_loop (map leaf_hash txs) ?i []"
  have i: "?i < length (map leaf_hash txs)" using assms by auto
  then have ne: "txs \<noteq> []" by auto
  have "GenerateMerkleProof txs index = Ok ?path"
    using assms by (simp add: GenerateMerkleProof_def)
  moreover have "VerifyMerkleProof (TransactionHash (txs ! ?i)) ?path root
      \<longleftrightarrow> root = CalculateMerkleRoot txs" for root
    using verify_proof_loop [OF i, of root] i ne
    by (auto simp: VerifyMerkleProof_def TransactionHash_def CalculateMerkleRoot_def leaf_hash_def)
  ultimately show ?thesis by blast
qed

text \<open>
  C29. Every generated proof verifies: for an index in range, the path that
  \<open>GenerateMerkleProof\<close> returns takes the hash of that transaction to the root that
  \<open>CalculateMerkleRoot\<close> computes, and it verifies against no other root.
\<close>

theorem generated_proof_verifies:
  assumes "0 \<le> sint index" "sint index < int (length txs)"
  shows "\<exists>path. GenerateMerkleProof txs index = Ok path
           \<and> (\<forall>root. VerifyMerkleProof (TransactionHash (txs ! nat (sint index))) path root
                      \<longleftrightarrow> root = CalculateMerkleRoot txs)"
  using assms by (rule generated_proof_ok)

theorem generated_proof_verifies_witness:
  "\<exists>path. GenerateMerkleProof [zero_tx, zero_tx\<lparr>Amount := 1\<rparr>, zero_tx\<lparr>Amount := 2\<rparr>] 2 = Ok path
     \<and> VerifyMerkleProof (TransactionHash (zero_tx\<lparr>Amount := 2\<rparr>)) path
          (CalculateMerkleRoot [zero_tx, zero_tx\<lparr>Amount := 1\<rparr>, zero_tx\<lparr>Amount := 2\<rparr>])"
  using generated_proof_verifies [of 2 "[zero_tx, zero_tx\<lparr>Amount := 1\<rparr>, zero_tx\<lparr>Amount := 2\<rparr>]"] by auto

text \<open>
  Proofs are logarithmic: a proof for one of \<open>n\<close> transactions has exactly as many steps
  as the tree over \<open>n\<close> leaves has levels, that is the least \<open>d\<close> with \<open>n \<le> 2^d\<close>.
\<close>

theorem proof_length_logarithmic:
  assumes "GenerateMerkleProof txs index = Ok path"
  shows "length txs \<le> 2 ^ length path \<and> (\<forall>d. length txs \<le> 2 ^ d \<longrightarrow> length path \<le> d)"
proof -
  let ?level = "map leaf_hash txs"
  from assms have path: "path = proof_loop ?level (nat (sint index)) []" and ne: "?level \<noteq> []"
    by (auto simp: GenerateMerkleProof_def split: if_splits)
  note len = length_proof_loop [OF ne, of "nat (sint index)", folded path]
  have "length path \<le> d" if d: "length txs \<le> 2 ^ d" for d
  proof (cases "1 < length txs")
    case True
    with len have "2 ^ length path < 2 * length txs" by simp
    also have "\<dots> \<le> 2 ^ Suc d" using d by simp
    finally have "length path < Suc d" by (rule power_less_imp_less_exp [rotated]) simp
    then show ?thesis by simp
  next
    case False
    then show ?thesis by (simp add: path proof_loop_done)
  qed
  with len show ?thesis by simp
qed

theorem proof_length_logarithmic_witness:
  "\<exists>path. GenerateMerkleProof [zero_tx, zero_tx, zero_tx] 1 = Ok path \<and> length path = 2"
proof -
  obtain path where p: "GenerateMerkleProof [zero_tx, zero_tx, zero_tx] 1 = Ok path"
    by (simp add: GenerateMerkleProof_def)
  have "length [zero_tx, zero_tx, zero_tx] \<le> 2 ^ length path"
    "length [zero_tx, zero_tx, zero_tx] \<le> 2 ^ 2 \<longrightarrow> length path \<le> 2"
    using proof_length_logarithmic [OF p] by blast+
  then have "3 \<le> (2 :: nat) ^ length path" "length path \<le> 2" by simp_all
  then have "length path = 2"
    by (cases "length path"; cases "length path - 1") auto
  with p show ?thesis by blast
qed

definition root_inputs :: "transaction list \<Rightarrow> string set" where
  "root_inputs txs = (\<lambda>t. Marshal (tx_json t)) ` set txs \<union> merkle_inputs (map leaf_hash txs)"

lemma CalculateMerkleRoot_eqD:
  assumes "CalculateMerkleRoot txs = CalculateMerkleRoot us" "txs \<noteq> []" "us \<noteq> []"
  shows "merkle_loop (map leaf_hash txs) = merkle_loop (map leaf_hash us)"
proof -
  have "length (merkle_loop (map leaf_hash txs)) = 1" "length (merkle_loop (map leaf_hash us)) = 1"
    using assms by (simp_all add: length_merkle_loop)
  moreover have "merkle_loop (map leaf_hash txs) ! 0 = merkle_loop (map leaf_hash us) ! 0"
    using assms by (simp add: CalculateMerkleRoot_def)
  ultimately show ?thesis by (intro nth_equalityI) auto
qed

lemma merkle_root_inject:
  assumes "inj_on sha256 (root_inputs txs \<union> root_inputs us)"
    and "length txs = length us" "CalculateMerkleRoot txs = CalculateMerkleRoot us"
  shows "map san_tx txs = map san_tx us"
proof (cases "txs = []")
  case False
  with assms(2) have "us \<noteq> []" by auto
  with False assms(3) have "merkle_loop (map leaf_hash txs) = merkle_loop (map leaf_hash us)"
    by (intro CalculateMerkleRoot_eqD)
  then have leaves: "map leaf_hash txs = map leaf_hash us"
    by (rule merkle_loop_inject [OF assms(1) _ _ _ digests_leaves digests_leaves, rotated 3])
       (simp_all add: root_inputs_def assms(2) le_supI1 le_supI2)
  have "san_tx (txs ! i) = san_tx (us ! i)" if "i < length txs" for i
  proof (rule Marshal_tx_inject, rule sha.digest_eq_inputs [OF assms(1)])
    show "sha256 (Marshal (tx_json (txs ! i))) = sha256 (Marshal (tx_json (us ! i)))"
      using arg_cong [OF leaves, of "\<lambda>l. l ! i"] that assms(2) by (simp add: leaf_hash_def)
  qed (use that assms(2) in \<open>auto simp: root_inputs_def\<close>)
  with assms(2) show ?thesis by (intro nth_equalityI) simp_all
qed (use assms(2) in simp)

text \<open>
  C31. A root commits to the transactions: two lists of the same length with the same root
  are equal, transaction by transaction, up to the bytes that are not UTF-8 and that the
  hashed JSON replaces by U+FFFD, unless SHA-256 collides on two of the byte strings that the
  two computations hash; lists of UTF-8 transactions are the very same list.
\<close>

theorem merkle_root_commits:
  assumes "inj_on sha256 (root_inputs txs \<union> root_inputs us)"
    and "length txs = length us" "CalculateMerkleRoot txs = CalculateMerkleRoot us"
  shows "map san_tx txs = map san_tx us
    \<and> (list_all utf8_tx txs \<longrightarrow> list_all utf8_tx us \<longrightarrow> txs = us)"
proof (intro conjI impI)
  show same: "map san_tx txs = map san_tx us" by (rule merkle_root_inject [OF assms])
  show "txs = us" if "list_all utf8_tx txs" "list_all utf8_tx us"
    using same map_san_utf8 [OF that(1)] map_san_utf8 [OF that(2)] by simp
qed

theorem merkle_root_commits_witness:
  "\<exists>t u. t \<noteq> u \<and> CalculateMerkleRoot [t] = CalculateMerkleRoot [u] \<and> san_tx t = san_tx u"
proof -
  let ?t = "zero_tx\<lparr>Recipient := [CHR 0xFE]\<rparr>" and ?u = "zero_tx\<lparr>Recipient := [CHR 0xFF]\<rparr>"
  have "runes [CHR 0xFE] = runes [CHR 0xFF]"
    by (simp add: runes.simps(2) rune_width_def byte_def)
  then have same: "Marshal (tx_json ?t) = Marshal (tx_json ?u)"
    by (simp add: tx_json_def payload_members_def Marshal_def omitempty_def quote_def)
  then have inputs: "root_inputs [?t] \<union> root_inputs [?u] = {Marshal (tx_json ?t)}"
    by (simp only: root_inputs_def merkle_inputs_done list.map list.set image_insert image_empty
        Un_absorb) (simp add: merkle_inputs_done)
  have "inj_on sha256 (root_inputs [?t] \<union> root_inputs [?u])"
    unfolding inputs by simp
  moreover have root: "CalculateMerkleRoot [?t] = CalculateMerkleRoot [?u]"
    by (simp add: CalculateMerkleRoot_def leaf_hash_def same)
  ultimately have "map san_tx [?t] = map san_tx [?u]"
    using merkle_root_commits [of "[?t]" "[?u]"] by simp
  with root show ?thesis
    by (intro exI [of _ ?t] exI [of _ ?u]) (simp add: zero_tx_def)
qed

text \<open>
  The commitment stops at the length: repeating the last transaction of a list of odd
  length (three or more) leaves the root unchanged, because the tree duplicates the last
  digest of an odd level anyway.
\<close>

theorem merkle_root_hides_repeated_last:
  assumes "odd (length txs)" "1 < length txs"
  shows "CalculateMerkleRoot (txs @ [last txs]) = CalculateMerkleRoot txs"
proof -
  let ?level = "map leaf_hash txs"
  from assms(2) have "txs \<noteq> []" by fastforce
  then have dup: "dup_last ?level = map leaf_hash (txs @ [last txs])"
    "dup_last (map leaf_hash (txs @ [last txs])) = map leaf_hash (txs @ [last txs])"
    using assms by (simp_all add: dup_last_def last_map [OF \<open>txs \<noteq> []\<close>])
  have "merkle_loop (map leaf_hash (txs @ [last txs])) = merkle_loop (hash_pairs (dup_last ?level))"
    using assms \<open>txs \<noteq> []\<close> by (subst merkle_loop_step) (simp_all add: dup del: map_append)
  also have "\<dots> = merkle_loop ?level"
    using assms by (subst (2) merkle_loop_step) simp_all
  finally show ?thesis using \<open>txs \<noteq> []\<close> by (simp only: CalculateMerkleRoot_def append_is_Nil_conv) simp
qed

theorem merkle_root_hides_repeated_last_witness:
  "CalculateMerkleRoot [zero_tx, zero_tx\<lparr>Amount := 1\<rparr>, zero_tx\<lparr>Amount := 2\<rparr>, zero_tx\<lparr>Amount := 2\<rparr>]
     = CalculateMerkleRoot [zero_tx, zero_tx\<lparr>Amount := 1\<rparr>, zero_tx\<lparr>Amount := 2\<rparr>]"
  using merkle_root_hides_repeated_last [of "[zero_tx, zero_tx\<lparr>Amount := 1\<rparr>, zero_tx\<lparr>Amount := 2\<rparr>]"]
  by simp

text \<open>
  \<open>VerifyMerkleProof\<close> does not check the length of what it is given: for every list of at
  least two transactions there is a one-step proof with which the empty string verifies as
  a transaction hash against the list's root.
\<close>

theorem empty_hash_verifies:
  assumes "1 < length txs"
  shows "\<exists>step. VerifyMerkleProof [] [step] (CalculateMerkleRoot txs)"
proof -
  have "\<exists>l r. merkle_loop level ! 0 = sha256 (l @ r)" if "1 < length level" for level
    using that
  proof (induction level rule: merkle_loop.induct)
    case (1 level)
    let ?next = "hash_pairs (dup_last level)"
    show ?case
    proof (cases "1 < length ?next")
      case True
      with 1 show ?thesis by (simp add: merkle_loop_step)
    next
      case False
      have "1 < length (dup_last level)"
        using "1.prems" by (simp only: length_dup_last)
      then have "?next ! 0 = sha256 (dup_last level ! 0 @ dup_last level ! 1)"
        using nth_hash_pairs [of 0 "dup_last level"] by simp
      moreover have "merkle_loop level ! 0 = ?next ! 0"
        unfolding merkle_loop_step [OF "1.prems"] merkle_loop_done [OF False] ..
      ultimately have "merkle_loop level ! 0 = sha256 (dup_last level ! 0 @ dup_last level ! 1)"
        by (rule trans [rotated])
      then show ?thesis by blast
    qed
  qed
  from this [of "map leaf_hash txs"] assms obtain l r
    where root: "merkle_loop (map leaf_hash txs) ! 0 = sha256 (l @ r)" by auto
  from assms have "txs \<noteq> []" by fastforce
  with root have "VerifyMerkleProof [] [\<lparr>StepHash = hex_encode (l @ r), StepLeft = False\<rparr>]
      (CalculateMerkleRoot txs)"
    by (simp add: VerifyMerkleProof_def CalculateMerkleRoot_def)
  then show ?thesis by blast
qed

theorem empty_hash_verifies_witness:
  "\<exists>step. VerifyMerkleProof [] [step] (CalculateMerkleRoot [zero_tx, zero_tx\<lparr>Amount := 1\<rparr>])"
  using empty_hash_verifies [of "[zero_tx, zero_tx\<lparr>Amount := 1\<rparr>]"] by simp

text \<open>
  C30. With hashes of the right length a proof is binding: if a 32-byte hash verifies
  against a list's root along the same left/right turns as the generated proof of
  transaction \<open>index\<close>, with 32-byte siblings, then it is the hash of that transaction,
  unless SHA-256 collides on two strings hashed along the two paths.
\<close>

fun path_inputs :: "string \<Rightarrow> proof_step list \<Rightarrow> string set" where
  "path_inputs current [] = {}"
| "path_inputs current (step # path) =
     (case hex_decode (StepHash step) of
        None \<Rightarrow> {}
      | Some sibling \<Rightarrow>
          (let joined = (if StepLeft step then sibling @ current else current @ sibling)
           in insert joined (path_inputs (sha256 joined) path)))"

definition digest_steps :: "proof_step list \<Rightarrow> bool" where
  "digest_steps path \<longleftrightarrow> (\<forall>step\<in>set path. \<exists>h. hex_decode (StepHash step) = Some h \<and> length h = 32)"

lemma verify_loop_inject:
  assumes "inj_on sha256 S"
  shows "\<lbrakk>path_inputs a p \<subseteq> S; path_inputs b q \<subseteq> S; map StepLeft p = map StepLeft q;
      digest_steps p; digest_steps q; length a = 32; length b = 32;
      verify_loop a p root; verify_loop b q root\<rbrakk> \<Longrightarrow> a = b"
proof (induction p arbitrary: a b q)
  case Nil
  then show ?case by auto
next
  case (Cons step p)
  then obtain step' q' where q: "q = step' # q'" by (cases q) auto
  from Cons.prems(4,5) q obtain h h' where h: "hex_decode (StepHash step) = Some h" "length h = 32"
    "hex_decode (StepHash step') = Some h'" "length h' = 32"
    by (auto simp: digest_steps_def)
  let ?j = "if StepLeft step then h @ a else a @ h"
  let ?j' = "if StepLeft step' then h' @ b else b @ h'"
  from Cons.prems(1,2) q h have sub: "?j \<in> S" "?j' \<in> S" "path_inputs (sha256 ?j) p \<subseteq> S"
    "path_inputs (sha256 ?j') q' \<subseteq> S"
    by (simp_all add: Let_def)
  from Cons.prems(8,9) q h have v: "verify_loop (sha256 ?j) p root" "verify_loop (sha256 ?j') q' root"
    by simp_all
  have turns: "map StepLeft p = map StepLeft q'" "StepLeft step = StepLeft step'"
    using Cons.prems(3) q by simp_all
  have steps: "digest_steps p" "digest_steps q'"
    using Cons.prems(4,5) q by (simp_all add: digest_steps_def)
  have "sha256 ?j = sha256 ?j'"
    by (rule Cons.IH [OF sub(3,4) turns(1) steps _ _ v]) simp_all
  then have "?j = ?j'" by (rule sha.digest_eq_inputs [OF assms sub(1,2)])
  then show ?case using turns(2) h Cons.prems(6,7) by (cases "StepLeft step") auto
qed

lemma digest_steps_proof_loop: "pos < length level \<Longrightarrow> digests level \<Longrightarrow> digest_steps (proof_loop level pos [])"
proof (induction level arbitrary: pos rule: merkle_loop.induct)
  case (1 level)
  show ?case
  proof (cases "1 < length level")
    case True
    let ?sib = "if even pos then pos + 1 else pos - 1"
    have "?sib < length (dup_last level)"
      using "1.prems"(1) by (simp only: length_dup_last) presburger
    then have "length (dup_last level ! ?sib) = 32"
      using digests_dup_last [OF "1.prems"(2)] by (simp add: digests_def)
    moreover have "digest_steps (proof_loop (hash_pairs (dup_last level)) (pos div 2) [])"
      using "1.prems"(1) by (intro "1.IH" [OF True]) (simp_all add: length_dup_last)
    ultimately show ?thesis
      using True by (simp add: proof_loop_step digest_steps_def path_step_def)
  qed (simp add: proof_loop_done digest_steps_def)
qed

theorem verified_proof_is_binding:
  assumes "GenerateMerkleProof txs index = Ok path"
    and "VerifyMerkleProof h claimed (CalculateMerkleRoot txs)"
    and "length h = 64" "digest_steps claimed" "map StepLeft claimed = map StepLeft path"
    and "inj_on sha256 (path_inputs (the (hex_decode h)) claimed
           \<union> path_inputs (leaf_hash (txs ! nat (sint index))) path)"
  shows "hex_decode h = hex_decode (TransactionHash (txs ! nat (sint index)))"
proof -
  let ?i = "nat (sint index)"
  from assms(1) have i: "0 \<le> sint index" "sint index < int (length txs)"
    and path: "path = proof_loop (map leaf_hash txs) ?i []"
    by (auto simp: GenerateMerkleProof_def split: if_splits)
  have "VerifyMerkleProof (TransactionHash (txs ! ?i)) path (CalculateMerkleRoot txs)"
    using assms(1) verify_proof_loop [of ?i "map leaf_hash txs" "CalculateMerkleRoot txs"] i
    by (auto simp: VerifyMerkleProof_def TransactionHash_def path CalculateMerkleRoot_def leaf_hash_def)
  then have v: "verify_loop (leaf_hash (txs ! ?i)) path (CalculateMerkleRoot txs)"
    by (simp add: VerifyMerkleProof_def TransactionHash_def leaf_hash_def)
  from assms(2) obtain c where c: "hex_decode h = Some c"
    "verify_loop c claimed (CalculateMerkleRoot txs)"
    by (auto simp: VerifyMerkleProof_def split: option.splits)
  with hex_decode_length assms(3) have "length c = 32" by fastforce
  moreover have "digest_steps path"
    unfolding path using i by (intro digest_steps_proof_loop) auto
  ultimately have "c = leaf_hash (txs ! ?i)"
    using assms(4-6) c v by (intro verify_loop_inject [OF assms(6) _ _ assms(5)]) (auto simp: leaf_hash_def)
  with c show ?thesis by (simp add: TransactionHash_def leaf_hash_def)
qed

theorem verified_proof_is_binding_witness:
  "\<exists>path. GenerateMerkleProof [zero_tx, zero_tx\<lparr>Amount := 1\<rparr>] 1 = Ok path \<and> path \<noteq> []
     \<and> hex_decode (TransactionHash (zero_tx\<lparr>Amount := 1\<rparr>)) = Some (leaf_hash (zero_tx\<lparr>Amount := 1\<rparr>))"
proof -
  let ?txs = "[zero_tx, zero_tx\<lparr>Amount := 1\<rparr>]" and ?h = "TransactionHash (zero_tx\<lparr>Amount := 1\<rparr>)"
  let ?path = "[\<lparr>StepHash = hex_encode (leaf_hash zero_tx), StepLeft = True\<rparr>]"
  have g: "GenerateMerkleProof ?txs 1 = Ok ?path"
    by (simp add: GenerateMerkleProof_def proof_loop_step proof_loop_done path_step_def dup_last_def)
  then have v: "VerifyMerkleProof ?h ?path (CalculateMerkleRoot ?txs)"
    using generated_proof_ok [of 1 ?txs] by simp
  have "hex_decode ?h = hex_decode (TransactionHash (?txs ! nat (sint (1 :: i64))))"
    by (rule verified_proof_is_binding [OF g v])
       (simp_all add: digest_steps_def TransactionHash_def leaf_hash_def Let_def)
  with g show ?thesis by (simp add: TransactionHash_def leaf_hash_def)
qed

end
