(* ===== verification/Block.thy ===== *)
theory Block
  imports Merkle
begin

text \<open>
  Blocks of \<open>src/block/block.go\<close>: the struct and its JSON form, the header hash, the
  difficulty test and block construction. Mining is in \<open>Mining\<close>.
\<close>

record block =
  Height :: i64
  Timestamp :: i64
  Transactions :: "transaction list"
  MerkleRoot :: string
  PrevHash :: string
  BlockNonce :: u64
  Difficulty :: i64
  Hash :: string

definition GenesisPrevHash :: string where
  "GenesisPrevHash = replicate 64 (CHR ''0'')"

text \<open>The header fields that are hashed (\<open>hashPayload\<close>), in their order.\<close>

definition hash_json :: "block \<Rightarrow> json" where
  "hash_json b =
     JObj [(''height'', json_i64 (Height b)), (''timestamp'', json_i64 (Timestamp b)),
           (''merkle_root'', JStr (MerkleRoot b)), (''prev_hash'', JStr (PrevHash b)),
           (''nonce'', json_u64 (BlockNonce b)), (''difficulty'', json_i64 (Difficulty b))]"

definition ComputeHash :: "block \<Rightarrow> string" where
  "ComputeHash b = hex_encode (sha256 (Marshal (hash_json b)))"

text \<open>\<open>sha256.Size*2\<close> is 64, the number of hexadecimal digits of a hash.\<close>

definition MeetsDifficulty :: "string \<Rightarrow> i64 \<Rightarrow> bool" where
  "MeetsDifficulty hash difficulty =
     (if sint difficulty < 0 \<or> 64 < sint difficulty then False
      else HasPrefix hash (Repeat ''0'' (nat (sint difficulty))))"

text \<open>\<open>NewBlock\<close>; the clock reading \<open>time.Now().Unix()\<close> is an argument.\<close>

definition NewBlock :: "i64 \<Rightarrow> i64 \<Rightarrow> transaction list \<Rightarrow> string \<Rightarrow> i64 \<Rightarrow> block" where
  "NewBlock now height txs previousHash difficulty =
     \<lparr>Height = height, Timestamp = now, Transactions = txs, MerkleRoot = CalculateMerkleRoot txs,
      PrevHash = previousHash, BlockNonce = 0, Difficulty = difficulty, Hash = []\<rparr>"

section \<open>JSON form\<close>

definition block_json :: "block \<Rightarrow> json" where
  "block_json b =
     JObj [(''height'', json_i64 (Height b)), (''timestamp'', json_i64 (Timestamp b)),
           (''transactions'', JArr (map tx_json (Transactions b))),
           (''merkle_root'', JStr (MerkleRoot b)), (''prev_hash'', JStr (PrevHash b)),
           (''nonce'', json_u64 (BlockNonce b)), (''difficulty'', json_i64 (Difficulty b)),
           (''hash'', JStr (Hash b))]"

definition zero_block :: block where
  "zero_block =
     \<lparr>Height = 0, Timestamp = 0, Transactions = [], MerkleRoot = [], PrevHash = [],
      BlockNonce = 0, Difficulty = 0, Hash = []\<rparr>"

definition block_fields :: "string list" where
  "block_fields =
     [''height'', ''timestamp'', ''transactions'', ''merkle_root'', ''prev_hash'', ''nonce'',
      ''difficulty'', ''hash'']"

definition set_block_field :: "string \<Rightarrow> json \<Rightarrow> block \<Rightarrow> block option" where
  "set_block_field n v b =
     (if n = ''height'' then map_option (\<lambda>x. b\<lparr>Height := x\<rparr>) (un_i64 v (Height b))
      else if n = ''timestamp'' then map_option (\<lambda>x. b\<lparr>Timestamp := x\<rparr>) (un_i64 v (Timestamp b))
      else if n = ''transactions'' then
        map_option (\<lambda>x. b\<lparr>Transactions := x\<rparr>) (un_slice un_tx zero_tx v (Transactions b))
      else if n = ''merkle_root'' then map_option (\<lambda>x. b\<lparr>MerkleRoot := x\<rparr>) (un_string v (MerkleRoot b))
      else if n = ''prev_hash'' then map_option (\<lambda>x. b\<lparr>PrevHash := x\<rparr>) (un_string v (PrevHash b))
      else if n = ''nonce'' then map_option (\<lambda>x. b\<lparr>BlockNonce := x\<rparr>) (un_u64 v (BlockNonce b))
      else if n = ''difficulty'' then map_option (\<lambda>x. b\<lparr>Difficulty := x\<rparr>) (un_i64 v (Difficulty b))
      else map_option (\<lambda>x. b\<lparr>Hash := x\<rparr>) (un_string v (Hash b)))"

definition un_block :: "json \<Rightarrow> block \<Rightarrow> block option" where
  "un_block j b = un_struct block_fields set_block_field j b"

definition san_block :: "block \<Rightarrow> block" where
  "san_block b =
     b\<lparr>Transactions := map san_tx (Transactions b), MerkleRoot := sanitize (MerkleRoot b),
       PrevHash := sanitize (PrevHash b), Hash := sanitize (Hash b)\<rparr>"

definition utf8_block :: "block \<Rightarrow> bool" where
  "utf8_block b \<longleftrightarrow> list_all utf8_tx (Transactions b) \<and> valid_utf8 (MerkleRoot b)
     \<and> valid_utf8 (PrevHash b) \<and> valid_utf8 (Hash b)"

section \<open>Lemmas\<close>

lemma nums_ok_block [simp]: "nums_ok (hash_json b)" "nums_ok (block_json b)"
  by (simp_all add: hash_json_def block_json_def list_all_iff)

lemma sanitize_block_fields [simp]: "list_all (\<lambda>k. sanitize k = k) block_fields"
  by (simp add: block_fields_def ascii_def byte_def)

lemma san_hash_json: "san_json (hash_json b) = hash_json (san_block b)"
  using sanitize_block_fields by (simp add: hash_json_def san_block_def block_fields_def)

lemma san_block_json: "san_json (block_json b) = block_json (san_block b)"
  using sanitize_block_fields
  by (simp add: block_json_def san_block_def block_fields_def san_tx_json)

lemma un_block_json [simp]: "un_block (block_json b) zero_block = Some b"
proof -
  have "un_slice un_tx zero_tx (JArr (map tx_json (Transactions b))) [] = Some (Transactions b)"
    using un_slice_map [of "Transactions b" un_tx tx_json zero_tx id] by simp
  then show ?thesis
    by (simp add: un_block_def un_struct_def block_json_def set_block_field_def block_fields_def
        zero_block_def)
qed

lemma san_block_utf8 [simp]: "utf8_block b \<Longrightarrow> san_block b = b"
proof -
  assume u: "utf8_block b"
  then have "map san_tx (Transactions b) = Transactions b"
    by (auto simp: utf8_block_def list_all_iff intro: map_idI)
  with u show ?thesis by (simp add: san_block_def utf8_block_def)
qed

text \<open>The hash depends on the header fields only, and determines them when it does not collide.\<close>

lemma ComputeHash_cong:
  "Height a = Height b \<Longrightarrow> Timestamp a = Timestamp b \<Longrightarrow> MerkleRoot a = MerkleRoot b \<Longrightarrow>
   PrevHash a = PrevHash b \<Longrightarrow> BlockNonce a = BlockNonce b \<Longrightarrow> Difficulty a = Difficulty b \<Longrightarrow>
   ComputeHash a = ComputeHash b"
  by (simp add: ComputeHash_def hash_json_def)

lemma length_ComputeHash [simp]: "length (ComputeHash b) = 64"
  by (simp add: ComputeHash_def)

lemma ascii_ComputeHash [simp]: "ascii (ComputeHash b)"
  by (simp add: ComputeHash_def)

lemma ascii_MerkleRoot [simp]: "ascii (CalculateMerkleRoot txs)"
  by (simp add: CalculateMerkleRoot_def)

lemma ascii_GenesisPrevHash [simp]: "ascii GenesisPrevHash"
  by (simp add: GenesisPrevHash_def ascii_def list_all_iff byte_def)

definition header_inputs :: "block list \<Rightarrow> string set" where
  "header_inputs bs = (\<lambda>b. Marshal (hash_json b)) ` set bs"

lemma ComputeHash_inject:
  assumes "inj_on sha256 S" "Marshal (hash_json a) \<in> S" "Marshal (hash_json b) \<in> S"
    and "ComputeHash a = ComputeHash b"
  shows "Height a = Height b \<and> Timestamp a = Timestamp b
    \<and> sanitize (MerkleRoot a) = sanitize (MerkleRoot b) \<and> sanitize (PrevHash a) = sanitize (PrevHash b)
    \<and> BlockNonce a = BlockNonce b \<and> Difficulty a = Difficulty b"
proof -
  have "Marshal (hash_json a) = Marshal (hash_json b)"
    using assms(4) by (intro sha.digest_eq_inputs [OF assms(1-3)]) (simp add: ComputeHash_def)
  then have "san_json (hash_json a) = san_json (hash_json b)"
    by (intro Marshal_inject) simp_all
  then show ?thesis by (simp add: hash_json_def)
qed

lemma Repeat_single [simp]: "Repeat [c] n = replicate n c"
  by (induction n) (simp_all add: Repeat_def)

text \<open>The difficulty test counts leading zeros, and more zeros satisfy every easier test.\<close>

lemma HasPrefix_replicate:
  "HasPrefix s (replicate n c) \<longleftrightarrow> n \<le> length (takeWhile (\<lambda>x. x = c) s)"
proof (induction s arbitrary: n)
  case (Cons a s)
  then show ?case by (cases n) (auto simp: HasPrefix_def)
qed (simp add: HasPrefix_def)

lemma MeetsDifficulty_iff:
  "MeetsDifficulty hash d \<longleftrightarrow>
     0 \<le> sint d \<and> sint d \<le> 64 \<and> nat (sint d) \<le> length (takeWhile (\<lambda>x. x = CHR ''0'') hash)"
  by (auto simp: MeetsDifficulty_def HasPrefix_replicate)

lemma MeetsDifficulty_0 [simp]: "MeetsDifficulty hash 0"
  by (simp add: MeetsDifficulty_iff)

section \<open>Properties\<close>

text \<open>
  A block hash commits to the header: unless SHA-256 collides on the two encodings,
  blocks with equal hashes agree in height, timestamp, Merkle root, previous hash, nonce and
  difficulty (strings up to the replacement of bytes that are not UTF-8), and blocks that
  agree in these fields have equal hashes whatever transactions they list.
\<close>

theorem block_hash_commits_to_header:
  assumes "inj_on sha256 (header_inputs [a, b])" "utf8_block a" "utf8_block b"
  shows "ComputeHash a = ComputeHash b \<longleftrightarrow>
    Height a = Height b \<and> Timestamp a = Timestamp b \<and> MerkleRoot a = MerkleRoot b
    \<and> PrevHash a = PrevHash b \<and> BlockNonce a = BlockNonce b \<and> Difficulty a = Difficulty b"
  using ComputeHash_inject [OF assms(1), of a b] ComputeHash_cong [of a b] assms(2,3)
  by (auto simp: header_inputs_def utf8_block_def)

theorem block_hash_commits_to_header_witness:
  "ComputeHash zero_block = ComputeHash (zero_block\<lparr>Transactions := [zero_tx]\<rparr>)"
proof -
  have "header_inputs [zero_block, zero_block\<lparr>Transactions := [zero_tx]\<rparr>] = {Marshal (hash_json zero_block)}"
    by (simp add: header_inputs_def hash_json_def)
  then have "inj_on sha256 (header_inputs [zero_block, zero_block\<lparr>Transactions := [zero_tx]\<rparr>])"
    by simp
  then show ?thesis
    by (subst block_hash_commits_to_header) (simp_all add: utf8_block_def zero_block_def utf8_tx_def zero_tx_def)
qed

text \<open>
  The proof-of-work test accepts a 64-digit hash exactly when the difficulty is between
  0 and 64 and the hash has at least that many leading zeros; hence a hash that meets a
  difficulty meets every smaller one.
\<close>

theorem MeetsDifficulty_leading_zeros:
  "(MeetsDifficulty hash d \<longleftrightarrow>
      0 \<le> sint d \<and> sint d \<le> 64 \<and> sint d \<le> int (length (takeWhile (\<lambda>c. c = CHR ''0'') hash)))
   \<and> (\<forall>d'. MeetsDifficulty hash d \<longrightarrow> 0 \<le> sint d' \<longrightarrow> sint d' \<le> sint d \<longrightarrow> MeetsDifficulty hash d')"
  by (auto simp: MeetsDifficulty_iff)

theorem MeetsDifficulty_leading_zeros_witness:
  "MeetsDifficulty ''00ab'' 2 \<and> MeetsDifficulty ''00ab'' 1 \<and> \<not> MeetsDifficulty ''00ab'' 3"
  using MeetsDifficulty_leading_zeros [of "''00ab''" 2] MeetsDifficulty_leading_zeros [of "''00ab''" 3]
  by simp

end
