(* ===== verification/Ledger.thy ===== *)
theory Ledger
  imports Block
begin

text \<open>
  The ledger of \<open>src/ledger/ledger.go\<close>: balances (\<open>int64\<close>, wrapping) and the last accepted
  nonce per sender, both maps whose missing keys read as zero; validation and application
  of a transaction, of a block, and the replay of a whole chain.
\<close>

record ledger =
  balances :: "string \<rightharpoonup> i64"
  nonces :: "string \<rightharpoonup> u64"

datatype ledger_error =
    BadTransaction tx_error
  | BadNonce string u64 u64
  | InsufficientBalance string i64 i64
  | InBlock i64 nat ledger_error

definition ledger_New :: ledger where
  "ledger_New = \<lparr>balances = Map.empty, nonces = Map.empty\<rparr>"

definition Balance :: "ledger \<Rightarrow> string \<Rightarrow> i64" where
  "Balance l account = map_get (balances l) account"

definition NextNonce :: "ledger \<Rightarrow> string \<Rightarrow> u64" where
  "NextNonce l account = map_get (nonces l) account + 1"

text \<open>\<open>Balances\<close> returns a copy of the map; maps are values here.\<close>

definition Balances :: "ledger \<Rightarrow> (string \<rightharpoonup> i64)" where
  "Balances l = balances l"

definition ValidateTransaction :: "ed25519 \<Rightarrow> ledger \<Rightarrow> transaction \<Rightarrow> (ledger_error, unit) res" where
  "ValidateTransaction ed l tx =
     bind_res (map_err BadTransaction (Transaction_Validate ed tx))
       (\<lambda>_. if Sender tx = FaucetAccount then Ok ()
            else if TxNonce tx \<noteq> NextNonce l (Sender tx) then
              Err (BadNonce (Sender tx) (TxNonce tx) (NextNonce l (Sender tx)))
            else if sint (map_get (balances l) (Sender tx)) < sint (Amount tx) then
              Err (InsufficientBalance (Sender tx) (map_get (balances l) (Sender tx)) (Amount tx))
            else Ok ())"

definition debit :: "transaction \<Rightarrow> ledger \<Rightarrow> ledger" where
  "debit tx l =
     (if Sender tx \<noteq> FaucetAccount then
        l\<lparr>balances := (balances l)(Sender tx \<mapsto> map_get (balances l) (Sender tx) - Amount tx),
          nonces := (nonces l)(Sender tx \<mapsto> TxNonce tx)\<rparr>
      else l)"

definition credit :: "transaction \<Rightarrow> ledger \<Rightarrow> ledger" where
  "credit tx l =
     l\<lparr>balances := (balances l)(Recipient tx \<mapsto> map_get (balances l) (Recipient tx) + Amount tx)\<rparr>"

definition Apply :: "ed25519 \<Rightarrow> transaction \<Rightarrow> ledger \<Rightarrow> (ledger_error, ledger) res" where
  "Apply ed tx l = bind_res (ValidateTransaction ed l tx) (\<lambda>_. Ok (credit tx (debit tx l)))"

fun apply_txs :: "ed25519 \<Rightarrow> i64 \<Rightarrow> nat \<Rightarrow> transaction list \<Rightarrow> ledger \<Rightarrow> (ledger_error, ledger) res" where
  "apply_txs ed height index [] l = Ok l"
| "apply_txs ed height index (tx # txs) l =
     bind_res (map_err (InBlock height index) (Apply ed tx l)) (apply_txs ed height (Suc index) txs)"

definition ApplyBlock :: "ed25519 \<Rightarrow> block option \<Rightarrow> ledger \<Rightarrow> (ledger_error, ledger) res" where
  "ApplyBlock ed b l =
     bind_res (deref b) (\<lambda>blk. apply_txs ed (Height blk) 0 (Transactions blk) l)"

definition Rebuild :: "ed25519 \<Rightarrow> block option list \<Rightarrow> (ledger_error, ledger) res" where
  "Rebuild ed blocks = fold_res (ApplyBlock ed) blocks ledger_New"

section \<open>Single steps\<close>

lemma Apply_Ok:
  "Apply ed tx l = Ok l' \<longleftrightarrow> ValidateTransaction ed l tx = Ok () \<and> l' = credit tx (debit tx l)"
  by (auto simp: Apply_def res_simps)

lemma no_panic_Transaction_Validate [simp]: "no_panic (Transaction_Validate ed tx)"
  by (simp add: Transaction_Validate_def VerifySignature_def split: option.splits)

lemma no_panic_ValidateTransaction [simp]: "no_panic (ValidateTransaction ed l tx)"
  unfolding ValidateTransaction_def by (rule no_panic_bind) simp_all

lemma no_panic_Apply [simp]: "no_panic (Apply ed tx l)"
  unfolding Apply_def by (rule no_panic_bind) simp_all

lemma ValidateTransaction_Ok:
  "ValidateTransaction ed l tx = Ok () \<longleftrightarrow>
     Transaction_Validate ed tx = Ok ()
     \<and> (Sender tx \<noteq> FaucetAccount \<longrightarrow>
          TxNonce tx = NextNonce l (Sender tx) \<and> sint (Amount tx) \<le> sint (Balance l (Sender tx)))"
  by (auto simp: ValidateTransaction_def Balance_def res_simps)

lemma Transaction_Validate_parties:
  "Transaction_Validate ed tx = Ok () \<Longrightarrow> Sender tx \<noteq> Recipient tx \<and> 0 < sint (Amount tx)"
  by (auto simp: Transaction_Validate_def split: if_splits)

lemma Apply_balances:
  assumes "Apply ed tx l = Ok l'"
  shows "Balance l' a =
    (if a = Sender tx \<and> Sender tx \<noteq> FaucetAccount then Balance l a - Amount tx
     else if a = Recipient tx then Balance l a + Amount tx else Balance l a)"
proof -
  from assms have "Sender tx \<noteq> Recipient tx" "l' = credit tx (debit tx l)"
    by (auto simp: Apply_Ok ValidateTransaction_Ok dest: Transaction_Validate_parties)
  then show ?thesis by (simp add: Balance_def credit_def debit_def)
qed

lemma Apply_nonces:
  assumes "Apply ed tx l = Ok l'"
  shows "map_get (nonces l') a =
    (if a = Sender tx \<and> Sender tx \<noteq> FaucetAccount then map_get (nonces l) a + 1 else map_get (nonces l) a)"
  using assms by (auto simp: Apply_Ok ValidateTransaction_Ok NextNonce_def credit_def debit_def)

lemma Apply_dom:
  "Apply ed tx l = Ok l' \<Longrightarrow>
   dom (balances l') = dom (balances l) \<union> ({Recipient tx} \<union> (if Sender tx = FaucetAccount then {} else {Sender tx}))"
  by (auto simp: Apply_Ok credit_def debit_def)

section \<open>The interface of a replayable ledger\<close>

text \<open>
  What the chain and the command line rely on: a transaction applies exactly when it
  validates, and applying never fails otherwise. The pool lemmas are proved from this
  contract once.
\<close>

locale replayable =
  fixes apply_tx :: "'t \<Rightarrow> 'l \<Rightarrow> ('e, 'l) res"
    and validate_tx :: "'l \<Rightarrow> 't \<Rightarrow> ('e, unit) res"
  assumes apply_iff: "is_Ok (apply_tx t l) \<longleftrightarrow> is_Ok (validate_tx l t)"
begin

lemma pool_snoc:
  assumes "fold_res apply_tx pool l = Ok l'" "is_Ok (validate_tx l' t)"
  shows "is_Ok (fold_res apply_tx (pool @ [t]) l)"
proof -
  from assms(2) apply_iff obtain l'' where "apply_tx t l' = Ok l''" by (auto simp: is_Ok_iff)
  with assms(1) show ?thesis by (simp add: fold_res_append)
qed

lemma pool_split:
  assumes "is_Ok (fold_res apply_tx pool l)"
  shows "\<exists>m. fold_res apply_tx (take n pool) l = Ok m \<and> is_Ok (fold_res apply_tx (drop n pool) m)"
proof -
  from assms obtain l' where "fold_res apply_tx (take n pool @ drop n pool) l = Ok l'"
    by (auto simp: is_Ok_iff)
  then show ?thesis unfolding fold_res_append by (auto simp: bind_res_eq_Ok)
qed

end

lemma unit_res: "is_Ok r \<longleftrightarrow> r = Ok ()"
  by (cases r) auto

interpretation led: replayable "Apply ed" "ValidateTransaction ed" for ed
  by unfold_locales (auto simp: is_Ok_iff Apply_Ok)

section \<open>Blocks and chains as one list of transactions\<close>

lemma apply_txs_Ok:
  "apply_txs ed h i txs l = Ok l' \<longleftrightarrow> fold_res (Apply ed) txs l = Ok l'"
  by (induction ed h i txs l rule: apply_txs.induct) (auto simp: res_simps)

lemma ApplyBlock_Ok:
  "ApplyBlock ed (Some b) l = Ok l' \<longleftrightarrow> fold_res (Apply ed) (Transactions b) l = Ok l'"
  by (simp add: ApplyBlock_def apply_txs_Ok)

lemma no_panic_apply_txs [simp]: "no_panic (apply_txs ed h i txs l)"
  by (induction ed h i txs l rule: apply_txs.induct) (auto intro: no_panic_bind)

definition history :: "block list \<Rightarrow> transaction list" where
  "history bs = concat (map Transactions bs)"

lemma history_simps [simp]:
  "history [] = []" "history (b # bs) = Transactions b @ history bs"
  "history (bs @ cs) = history bs @ history cs"
  by (simp_all add: history_def)

lemma replay_Ok:
  "fold_res (ApplyBlock ed) (map Some bs) l = Ok l' \<longleftrightarrow> fold_res (Apply ed) (history bs) l = Ok l'"
proof (induction bs arbitrary: l)
  case (Cons b bs)
  then show ?case by (simp add: fold_res_append bind_res_eq_Ok ApplyBlock_Ok)
qed simp

lemma Rebuild_Ok:
  "Rebuild ed (map Some bs) = Ok l \<longleftrightarrow> fold_res (Apply ed) (history bs) ledger_New = Ok l"
  by (simp add: Rebuild_def replay_Ok)

lemma Rebuild_no_panic: "no_panic (Rebuild ed (map Some bs))"
proof -
  have "no_panic (fold_res (ApplyBlock ed) (map Some bs) l)" for l
    by (induction bs arbitrary: l) (auto intro!: no_panic_bind simp: ApplyBlock_def)
  then show ?thesis by (simp add: Rebuild_def)
qed

section \<open>Sums of balances\<close>

definition faucet_grants :: "transaction list \<Rightarrow> transaction list" where
  "faucet_grants txs = filter (\<lambda>t. Sender t = FaucetAccount) txs"

definition total :: "ledger \<Rightarrow> i64" where
  "total l = (\<Sum>a\<in>dom (balances l). Balance l a)"

definition total_int :: "ledger \<Rightarrow> int" where
  "total_int l = (\<Sum>a\<in>dom (balances l). sint (Balance l a))"

lemma faucet_grants_simps [simp]:
  "faucet_grants [] = []"
  "faucet_grants (t # ts) = (if Sender t = FaucetAccount then t # faucet_grants ts else faucet_grants ts)"
  by (simp_all add: faucet_grants_def)

lemma Balance_outside [simp]: "a \<notin> dom (balances l) \<Longrightarrow> Balance l a = 0"
  by (auto simp: Balance_def map_get_def split: option.splits)

lemma total_superset: "finite A \<Longrightarrow> dom (balances l) \<subseteq> A \<Longrightarrow> total l = (\<Sum>a\<in>A. Balance l a)"
  unfolding total_def by (rule sum.mono_neutral_left) auto

lemma total_int_superset:
  "finite A \<Longrightarrow> dom (balances l) \<subseteq> A \<Longrightarrow> total_int l = (\<Sum>a\<in>A. sint (Balance l a))"
  unfolding total_int_def by (rule sum.mono_neutral_left) auto

interpretation fin: kept_by_step "Apply ed" "\<lambda>_. True" "\<lambda>l. finite (dom (balances l))" for ed
  by unfold_locales (simp add: Apply_dom)

lemma finite_New [simp]: "finite (dom (balances ledger_New))"
  by (simp add: ledger_New_def)

lemma replay_finite: "fold_res (Apply ed) txs ledger_New = Ok l \<Longrightarrow> finite (dom (balances l))"
  using fin.fold_keeps [of ledger_New txs ed l] by (simp add: list_all_iff)

lemma Apply_total:
  assumes "Apply ed tx l = Ok l'" "finite (dom (balances l))"
  shows "total l' = total l + (if Sender tx = FaucetAccount then Amount tx else 0)"
proof -
  let ?A = "insert (Sender tx) (insert (Recipient tx) (dom (balances l)))"
  let ?out = "if Sender tx = FaucetAccount then 0 else - Amount tx"
  have "Sender tx \<noteq> Recipient tx"
    using assms(1) by (auto simp: Apply_Ok ValidateTransaction_Ok dest: Transaction_Validate_parties)
  then have b: "Balance l' a = Balance l a + (if a = Recipient tx then Amount tx else 0)
      + (if a = Sender tx then ?out else 0)" for a
    by (simp add: Apply_balances [OF assms(1)])
  have "total l' = (\<Sum>a\<in>?A. Balance l' a)"
    using assms by (intro total_superset) (auto simp: Apply_dom [OF assms(1)])
  also have "\<dots> = (\<Sum>a\<in>?A. Balance l a) + Amount tx + ?out"
    unfolding b sum.distrib using assms(2) by (subst (1 2) sum.delta) simp_all
  also have "(\<Sum>a\<in>?A. Balance l a) = total l"
    using assms(2) by (intro total_superset [symmetric]) auto
  finally show ?thesis by simp
qed

lemma replay_total:
  "fold_res (Apply ed) txs l = Ok l' \<Longrightarrow> finite (dom (balances l)) \<Longrightarrow>
   total l' = total l + sum_list (map Amount (faucet_grants txs))"
proof (induction txs arbitrary: l)
  case (Cons tx txs)
  then obtain m where m: "Apply ed tx l = Ok m" "fold_res (Apply ed) txs m = Ok l'"
    by (auto simp: bind_res_eq_Ok)
  with Cons.prems have "finite (dom (balances m))" by (simp add: Apply_dom)
  with Cons m show ?case by (simp add: Apply_total add.assoc)
qed simp

text \<open>The same in integers, as long as the grants do not reach \<open>2^63\<close>.\<close>

definition solvent :: "ledger \<Rightarrow> bool" where
  "solvent l \<longleftrightarrow> finite (dom (balances l)) \<and> (\<forall>a. 0 \<le> sint (Balance l a))"

lemma solvent_le_total: "solvent l \<Longrightarrow> sint (Balance l a) \<le> total_int l"
proof -
  assume s: "solvent l"
  show ?thesis
  proof (cases "a \<in> dom (balances l)")
    case True
    with s show ?thesis unfolding total_int_def solvent_def by (intro member_le_sum) auto
  next
    case False
    with s show ?thesis unfolding total_int_def solvent_def by (simp add: sum_nonneg)
  qed
qed

lemma Apply_solvent:
  assumes "Apply ed tx l = Ok l'" "solvent l"
    and "Sender tx = FaucetAccount \<Longrightarrow> total_int l + sint (Amount tx) < 2 ^ 63"
    and "total_int l < 2 ^ 63"
  shows "solvent l' \<and> total_int l' = total_int l + (if Sender tx = FaucetAccount then sint (Amount tx) else 0)"
proof -
  let ?s = "Sender tx" and ?r = "Recipient tx" and ?amt = "sint (Amount tx)"
  let ?A = "insert ?s (insert ?r (dom (balances l)))"
  let ?out = "if ?s = FaucetAccount then 0 else - ?amt"
  from assms(1) have v: "?s \<noteq> ?r" "0 < ?amt"
    "?s \<noteq> FaucetAccount \<Longrightarrow> ?amt \<le> sint (Balance l ?s)"
    by (auto simp: Apply_Ok ValidateTransaction_Ok dest: Transaction_Validate_parties)
  have nonneg: "0 \<le> sint (Balance l a)" for a using assms(2) by (simp add: solvent_def)
  have fin: "finite ?A" using assms(2) by (simp add: solvent_def)
  have tot: "total_int l = (\<Sum>a\<in>?A. sint (Balance l a))"
    using fin by (intro total_int_superset) auto
  have two: "sint (Balance l ?s) + sint (Balance l ?r) \<le> total_int l"
  proof -
    have "(\<Sum>a\<in>{?s, ?r}. sint (Balance l a)) \<le> (\<Sum>a\<in>?A. sint (Balance l a))"
      using fin nonneg by (intro sum_mono2) auto
    with v(1) tot show ?thesis by simp
  qed
  have room: "sint (Balance l ?r) + ?amt < 2 ^ 63"
  proof (cases "?s = FaucetAccount")
    case True
    with assms(3) solvent_le_total [OF assms(2), of ?r] show ?thesis by simp
  next
    case False
    with v(3) two assms(4) show ?thesis by simp
  qed
  have b: "sint (Balance l' a) = sint (Balance l a) + (if a = ?r then ?amt else 0)
      + (if a = ?s then ?out else 0)" for a
  proof -
    have "sint (Balance l ?r + Amount tx) = sint (Balance l ?r) + ?amt"
      using room nonneg [of ?r] v(2) by (intro sint_plus64) linarith+
    moreover have "?s \<noteq> FaucetAccount \<Longrightarrow> sint (Balance l ?s - Amount tx) = sint (Balance l ?s) - ?amt"
      using v(2,3) sint_range64 [of "Balance l ?s"] by (intro sint_minus64) linarith+
    ultimately show ?thesis using v(1) by (simp add: Apply_balances [OF assms(1)])
  qed
  have "total_int l' = (\<Sum>a\<in>?A. sint (Balance l' a))"
    using fin by (intro total_int_superset) (auto simp: Apply_dom [OF assms(1)] split: if_splits)
  also have "\<dots> = total_int l + ?amt + ?out"
    unfolding b sum.distrib tot using fin by (subst (1 2) sum.delta) simp_all
  finally have "total_int l' = total_int l + (if ?s = FaucetAccount then ?amt else 0)" by simp
  moreover have "0 \<le> sint (Balance l' a)" for a
    unfolding b using nonneg [of a] v by auto
  moreover have "finite (dom (balances l'))"
    using assms(2) by (simp add: Apply_dom [OF assms(1)] solvent_def)
  ultimately show ?thesis by (simp add: solvent_def)
qed

definition grants_int :: "transaction list \<Rightarrow> int" where
  "grants_int txs = sum_list (map (\<lambda>t. sint (Amount t)) (faucet_grants txs))"

lemma grants_int_nonneg:
  "is_Ok (fold_res (Apply ed) txs l) \<Longrightarrow> 0 \<le> grants_int txs"
proof (induction txs arbitrary: l)
  case (Cons tx txs)
  then obtain m where m: "Apply ed tx l = Ok m" "is_Ok (fold_res (Apply ed) txs m)"
    by (auto simp: is_Ok_iff bind_res_eq_Ok)
  then have "0 < sint (Amount tx)"
    by (auto simp: Apply_Ok ValidateTransaction_Ok dest: Transaction_Validate_parties)
  with Cons.IH [OF m(2)] show ?case by (simp add: grants_int_def)
qed (simp add: grants_int_def)

lemma replay_solvent:
  "fold_res (Apply ed) txs l = Ok l' \<Longrightarrow> solvent l \<Longrightarrow> total_int l + grants_int txs < 2 ^ 63 \<Longrightarrow>
   solvent l' \<and> total_int l' = total_int l + grants_int txs"
proof (induction txs arbitrary: l)
  case (Cons tx txs)
  then obtain m where m: "Apply ed tx l = Ok m" "fold_res (Apply ed) txs m = Ok l'"
    by (auto simp: bind_res_eq_Ok)
  let ?g = "if Sender tx = FaucetAccount then sint (Amount tx) else 0"
  have g: "grants_int (tx # txs) = ?g + grants_int txs" by (simp add: grants_int_def)
  have "0 \<le> grants_int txs" using m(2) by (intro grants_int_nonneg [of ed txs m]) simp
  moreover have "0 < sint (Amount tx)"
    using m(1) by (auto simp: Apply_Ok ValidateTransaction_Ok dest: Transaction_Validate_parties)
  ultimately have step: "solvent m \<and> total_int m = total_int l + ?g"
    using Cons.prems(2,3) g by (intro Apply_solvent [OF m(1)]) (auto split: if_splits)
  with Cons.IH [OF m(2)] Cons.prems(3) g show ?case by simp
qed (simp add: grants_int_def)

lemma solvent_New [simp]: "solvent ledger_New" "total_int ledger_New = 0" "total ledger_New = 0"
  by (simp_all add: solvent_def ledger_New_def Balance_def total_int_def total_def)

section \<open>Nonces\<close>

lemma word_of_nat_differ:
  assumes "k < n" "n < 2 ^ 64"
  shows "(word_of_nat k :: u64) \<noteq> word_of_nat n"
proof
  assume "(word_of_nat k :: u64) = word_of_nat n"
  then have "unat (word_of_nat k :: u64) = unat (word_of_nat n :: u64)" by (rule arg_cong)
  with assms show False by (simp add: unat_of_nat)
qed

definition transfers_by :: "string \<Rightarrow> transaction list \<Rightarrow> transaction list" where
  "transfers_by a txs = filter (\<lambda>t. Sender t = a) txs"

lemma replay_nonces:
  assumes "a \<noteq> FaucetAccount"
  shows "fold_res (Apply ed) txs l = Ok l' \<Longrightarrow>
   map TxNonce (transfers_by a txs)
     = map (\<lambda>k. map_get (nonces l) a + word_of_nat k) [1..<Suc (length (transfers_by a txs))]
   \<and> map_get (nonces l') a = map_get (nonces l) a + word_of_nat (length (transfers_by a txs))"
proof (induction txs arbitrary: l)
  case (Cons tx txs)
  then obtain m where m: "Apply ed tx l = Ok m" "fold_res (Apply ed) txs m = Ok l'"
    by (auto simp: bind_res_eq_Ok)
  show ?case
  proof (cases "Sender tx = a")
    case True
    with m(1) assms have "TxNonce tx = map_get (nonces l) a + 1"
      by (auto simp: Apply_Ok ValidateTransaction_Ok NextNonce_def)
    moreover from True m(1) assms have "map_get (nonces m) a = map_get (nonces l) a + 1"
      by (simp add: Apply_nonces)
    ultimately have n: "TxNonce tx = map_get (nonces l) a + 1"
      "map_get (nonces m) a = map_get (nonces l) a + 1" by simp_all
    let ?k = "length (transfers_by a txs)"
    have "[1..<Suc (Suc ?k)] = 1 # map Suc [1..<Suc ?k]"
      by (simp add: upt_conv_Cons map_Suc_upt del: upt_Suc)
    with True n Cons.IH [OF m(2)] show ?thesis
      by (simp add: transfers_by_def add.assoc comp_def del: upt_Suc)
  next
    case False
    with m(1) have "map_get (nonces m) a = map_get (nonces l) a" by (simp add: Apply_nonces)
    with False Cons.IH [OF m(2)] show ?thesis by (simp add: transfers_by_def)
  qed
qed (simp add: transfers_by_def)

lemma nonces_New [simp]: "map_get (nonces ledger_New) a = 0"
  by (simp add: ledger_New_def)

section \<open>Sample histories\<close>

text \<open>A faucet grant and a transfer signed under \<open>plain_ed25519\<close>, for the witnesses.\<close>

definition grant :: "string \<Rightarrow> i64 \<Rightarrow> transaction" where
  "grant r amt =
     \<lparr>Sender = FaucetAccount, Recipient = r, Amount = amt, TxNonce = 0, PublicKey = [], Signature = []\<rparr>"

lemma TrimSpace_Faucet [simp]: "TrimSpace FaucetAccount = FaucetAccount"
  by (rule TrimSpace_printable) (simp_all add: FaucetAccount_def byte_def)

lemma FaucetAccount_not_Nil [simp]: "FaucetAccount \<noteq> []"
  by (simp add: FaucetAccount_def)

lemma Apply_grant:
  assumes "0 < sint amt" "TrimSpace r \<noteq> []" "r \<noteq> FaucetAccount"
  shows "Apply ed (grant r amt) l
    = Ok (l\<lparr>balances := (balances l)(r \<mapsto> map_get (balances l) r + amt)\<rparr>)"
  using assms
  by (simp add: Apply_def ValidateTransaction_def Transaction_Validate_def VerifySignature_def
      grant_def credit_def debit_def)

lemma TrimSpace_alice: "TrimSpace ''alice'' = ''alice''"
  by (rule TrimSpace_printable) (simp_all add: byte_def)

definition demo_owner :: string where
  "demo_owner = AddressFromPublicKey (replicate 32 (CHR ''k''))"

definition demo_transfer :: transaction where
  "demo_transfer =
     (let t = \<lparr>Sender = demo_owner, Recipient = ''alice'', Amount = 5, TxNonce = 1,
               PublicKey = hex_encode (replicate 32 (CHR ''k'')), Signature = []\<rparr>
      in t\<lparr>Signature := hex_encode (replicate 32 (CHR ''k'') @ sha256 (signingBytes t))\<rparr>)"

lemma demo_owner [simp]: "demo_owner \<noteq> FaucetAccount" "FaucetAccount \<noteq> demo_owner" "TrimSpace demo_owner \<noteq> []" "demo_owner \<noteq> ''alice''"
  "''alice'' \<noteq> demo_owner"
proof -
  show "demo_owner \<noteq> ''alice''"
  proof
    assume "demo_owner = ''alice''"
    then have "length demo_owner = length ''alice''" by (rule arg_cong)
    then show False by (simp add: demo_owner_def)
  qed
  then show "''alice'' \<noteq> demo_owner" by (rule not_sym)
qed (simp_all add: demo_owner_def Address_not_Faucet [symmetric])

lemma demo_transfer [simp]:
  "Sender demo_transfer = demo_owner" "Recipient demo_transfer = ''alice''"
  "Amount demo_transfer = 5" "TxNonce demo_transfer = 1"
  by (simp_all add: demo_transfer_def Let_def)

lemma demo_transfer_valid: "Transaction_Validate plain_ed25519 demo_transfer = Ok ()"
proof -
  let ?t = "\<lparr>Sender = demo_owner, Recipient = ''alice'', Amount = 5, TxNonce = 1,
      PublicKey = hex_encode (replicate 32 (CHR ''k'')), Signature = []\<rparr>"
  have "signingBytes demo_transfer = signingBytes ?t"
    by (rule signingBytes_cong) simp_all
  then have "PublicKey demo_transfer = hex_encode (replicate 32 (CHR ''k''))"
    "Signature demo_transfer = hex_encode (replicate 32 (CHR ''k'') @ sha256 (signingBytes demo_transfer))"
    by (simp_all add: demo_transfer_def Let_def)
  then have "VerifySignature plain_ed25519 demo_transfer = Ok ()"
    by (simp add: VerifySignature_def PublicKeySize_def SignatureSize_def plain_ed25519_def
        demo_owner_def)
  then show ?thesis
    by (simp add: Transaction_Validate_def TrimSpace_alice)
qed

definition demo_history :: "block list" where
  "demo_history =
     [zero_block\<lparr>Transactions := [grant demo_owner 100]\<rparr>, zero_block\<lparr>Transactions := [demo_transfer]\<rparr>]"

definition demo_ledger :: ledger where
  "demo_ledger =
     \<lparr>balances = [demo_owner \<mapsto> 95, ''alice'' \<mapsto> 5], nonces = [demo_owner \<mapsto> 1]\<rparr>"

lemma demo_replay: "Rebuild plain_ed25519 (map Some demo_history) = Ok demo_ledger"
  unfolding Rebuild_Ok
  by (simp add: demo_history_def Apply_grant Apply_Ok ValidateTransaction_Ok demo_transfer_valid
      ledger_New_def NextNonce_def Balance_def credit_def debit_def demo_ledger_def
      bind_res_eq_Ok fun_upd_twist)

lemma grant_fields [simp]:
  "Sender (grant r a) = FaucetAccount" "Recipient (grant r a) = r" "Amount (grant r a) = a"
  by (simp_all add: grant_def)

section \<open>Properties\<close>

text \<open>
  C4. Conservation: after the replay of any accepted chain the balances add up, in
  64-bit arithmetic, to exactly what the faucet granted; transfers move value and never
  create or destroy it.
\<close>

theorem replay_conserves_value:
  assumes "Rebuild ed (map Some bs) = Ok l"
  shows "finite (dom (balances l)) \<and> total l = sum_list (map Amount (faucet_grants (history bs)))"
  using assms replay_finite replay_total [of ed "history bs" ledger_New l]
  by (auto simp: Rebuild_Ok)

theorem replay_conserves_value_witness: "total demo_ledger = 100"
  using replay_conserves_value [OF demo_replay] demo_owner
  by (simp add: demo_history_def)

text \<open>
  C5. Solvency: as long as the grants of an accepted chain add up to less than \<open>2^63\<close>, no
  balance is negative, no balance exceeds the supply, and the balances add up to the supply
  as integers: no addition or subtraction of the replay overflowed.
\<close>

theorem replay_is_solvent:
  assumes "Rebuild ed (map Some bs) = Ok l" "grants_int (history bs) < 2 ^ 63"
  shows "total_int l = grants_int (history bs)
    \<and> (\<forall>a. 0 \<le> sint (Balance l a) \<and> sint (Balance l a) \<le> grants_int (history bs))"
proof -
  have s: "solvent l" "total_int l = grants_int (history bs)"
    using assms replay_solvent [of ed "history bs" ledger_New l] by (simp_all add: Rebuild_Ok)
  moreover from s(1) have "0 \<le> sint (Balance l a)" for a by (simp add: solvent_def)
  ultimately show ?thesis using solvent_le_total [OF s(1)] by simp
qed

theorem replay_is_solvent_witness: "total_int demo_ledger = 100"
  using replay_is_solvent [OF demo_replay]
  by (simp add: demo_history_def grants_int_def)

text \<open>
  Without that bound a balance can wrap: two faucet grants, each valid on its own, are
  accepted and leave the recipient with a balance of minus \<open>2^63\<close>.
\<close>

theorem grants_can_overflow:
  "\<exists>l. Rebuild ed [Some (zero_block\<lparr>Transactions := [grant ''alice'' max_int, grant ''alice'' 1]\<rparr>)] = Ok l
       \<and> sint (Balance l ''alice'') = - (2 ^ 63)"
proof -
  let ?b = "zero_block\<lparr>Transactions := [grant ''alice'' max_int, grant ''alice'' 1]\<rparr>"
  let ?l = "\<lparr>balances = [''alice'' \<mapsto> max_int + 1], nonces = Map.empty\<rparr>"
  have "Rebuild ed (map Some [?b]) = Ok ?l"
    unfolding Rebuild_Ok
    by (simp add: Apply_grant TrimSpace_alice ledger_New_def FaucetAccount_def)
  then show ?thesis by (intro exI [of _ ?l]) (simp add: Balance_def max_int_def)
qed

text \<open>
  C37. Nonces are consecutive: in an accepted chain the transfers of one sender carry the
  nonces 1, 2, 3, ... in the order they appear (in 64-bit arithmetic), and the next nonce the
  ledger asks for is the one after them.
\<close>

theorem nonces_are_consecutive:
  assumes "Rebuild ed (map Some bs) = Ok l" "a \<noteq> FaucetAccount"
  shows "map TxNonce (transfers_by a (history bs))
           = map word_of_nat [1..<Suc (length (transfers_by a (history bs)))]
    \<and> NextNonce l a = word_of_nat (Suc (length (transfers_by a (history bs))))"
  using assms replay_nonces [OF assms(2), of ed "history bs" ledger_New l]
  by (simp add: Rebuild_Ok NextNonce_def del: upt_Suc)

theorem nonces_are_consecutive_witness: "NextNonce demo_ledger demo_owner = 2"
  using nonces_are_consecutive [OF demo_replay, of demo_owner]
  by (simp add: demo_history_def transfers_by_def)

text \<open>
  C6. Replay protection: a transfer that an accepted chain already contains is rejected
  when it is submitted again, whatever happened in between (for histories of fewer than
  \<open>2^64 - 1\<close> transfers).
\<close>

theorem replayed_transfer_is_rejected:
  assumes "Rebuild ed (map Some bs) = Ok l" "t \<in> set (history bs)" "Sender t \<noteq> FaucetAccount"
    and "length (history bs) < 2 ^ 64 - 1"
  shows "\<exists>e. ValidateTransaction ed l t = Err e"
proof -
  let ?ts = "transfers_by (Sender t) (history bs)"
  have n: "map TxNonce ?ts = map word_of_nat [1..<Suc (length ?ts)]"
    "NextNonce l (Sender t) = word_of_nat (Suc (length ?ts))"
    using replay_nonces [OF assms(3), of ed "history bs" ledger_New l] assms(1)
    by (simp_all add: Rebuild_Ok NextNonce_def del: upt_Suc)
  have "t \<in> set ?ts" using assms(2) by (simp add: transfers_by_def)
  then have "TxNonce t \<in> set (map TxNonce ?ts)" by simp
  then obtain k where k: "TxNonce t = word_of_nat k" "k \<le> length ?ts" unfolding n(1) by auto
  have "length ?ts \<le> length (history bs)" by (simp add: transfers_by_def)
  with k(2) assms(4) have "(word_of_nat k :: u64) \<noteq> word_of_nat (Suc (length ?ts))"
    by (intro word_of_nat_differ) simp_all
  with k n(2) have "ValidateTransaction ed l t \<noteq> Ok ()"
    using assms(3) by (simp add: ValidateTransaction_Ok)
  moreover have "no_panic (ValidateTransaction ed l t)" by simp
  ultimately show ?thesis by (cases "ValidateTransaction ed l t") auto
qed

theorem replayed_transfer_is_rejected_witness:
  "\<exists>e. ValidateTransaction plain_ed25519 demo_ledger demo_transfer = Err e"
  by (rule replayed_transfer_is_rejected [OF demo_replay]) (simp_all add: demo_history_def)

end
