(* ===== verification/Mining.thy ===== *)
theory Mining
  imports Block
begin

text \<open>
  Concurrent proof-of-work mining: \<open>Block.Mine\<close> and \<open>NewGenesisBlock\<close> of
  \<open>src/block/block.go\<close>. The goroutines are a state machine. Every worker is a program
  counter; the shared state is the attempt counter, the flag \<open>maximumAttemptsReached\<close>, the
  mining context, the result channel of capacity one and the caller's context. One event is
  one atomic step of one goroutine, or the end of the caller's context, and a schedule is a
  list of events: theorems quantify over every schedule. The field \<open>tried\<close> is not in the
  code: it records the nonces that were hashed, in order, for the statements.
\<close>

section \<open>State and steps\<close>

record mining_limits =
  MaxAttempts :: u64
  MaxNonce :: u64
  Workers :: i64

record mine_result =
  ResNonce :: u64
  ResHash :: string
  ResAttempts :: u64
  ResElapsed :: i64
  ResDifficulty :: i64
  ResWorkers :: i64

datatype mine_error =
    InvalidDifficulty i64
  | ErrMiningTimeout
  | ErrMaxAttempts
  | ErrMaxNonce
  | ErrMiningCancelled

datatype ctx_end = DeadlineExceeded | Canceled

datatype worker =
    Poll u64
  | Count u64
  | Refused
  | Hashing u64
  | Sending u64 string
  | Cancelling
  | Finished

record mine_state =
  workers :: "worker list"
  attempts :: u64
  maximumAttemptsReached :: bool
  miningCancelled :: bool
  resultChannel :: "(u64 \<times> string) option"
  parentCtx :: "ctx_end option"
  outcome :: "(mine_error, mine_result) res option"
  tried :: "u64 list"

definition max_u64 :: u64 where
  "max_u64 = 0xFFFFFFFFFFFFFFFF"

text \<open>One step of a worker: the points between its accesses to shared state.\<close>

fun worker_step :: "mining_limits \<Rightarrow> block \<Rightarrow> u64 \<Rightarrow> worker \<Rightarrow> mine_state \<Rightarrow> worker \<times> mine_state" where
  "worker_step lim b step (Poll n) s =
     (if miningCancelled s \<or> parentCtx s \<noteq> None then (Finished, s)
      else if 0 < MaxNonce lim \<and> MaxNonce lim < n then (Finished, s)
      else (Count n, s))"
| "worker_step lim b step (Count n) s =
     (if 0 < MaxAttempts lim \<and> MaxAttempts lim < attempts s + 1
      then (Refused, s\<lparr>attempts := attempts s + 1\<rparr>)
      else (Hashing n, s\<lparr>attempts := attempts s + 1\<rparr>))"
| "worker_step lim b step Refused s = (Cancelling, s\<lparr>maximumAttemptsReached := True\<rparr>)"
| "worker_step lim b step (Hashing n) s =
     (let hash = ComputeHash (b\<lparr>BlockNonce := n\<rparr>); s' = s\<lparr>tried := tried s @ [n]\<rparr>
      in if MeetsDifficulty hash (Difficulty b) then (Sending n hash, s')
         else if max_u64 - step < n then (Finished, s')
         else (Poll (n + step), s'))"
| "worker_step lim b step (Sending n hash) s =
     (if resultChannel s = None then (Cancelling, s\<lparr>resultChannel := Some (n, hash)\<rparr>)
      else (Finished, s))"
| "worker_step lim b step Cancelling s = (Finished, s\<lparr>miningCancelled := True\<rparr>)"
| "worker_step lim b step Finished s = (Finished, s)"

datatype event =
    WorkerStep nat
  | ContextEnds ctx_end
  | MainReceives i64
  | MainSeesContext
  | MainSeesDone i64

definition success :: "block \<Rightarrow> nat \<Rightarrow> mine_state \<Rightarrow> i64 \<Rightarrow> u64 \<times> string \<Rightarrow> mine_result" where
  "success b wc s elapsed r =
     \<lparr>ResNonce = fst r, ResHash = snd r, ResAttempts = attempts s, ResElapsed = elapsed,
      ResDifficulty = Difficulty b, ResWorkers = word_of_nat wc\<rparr>"

text \<open>Returning runs the deferred \<open>cancel()\<close>.\<close>

definition return_with :: "(mine_error, mine_result) res \<Rightarrow> mine_state \<Rightarrow> mine_state" where
  "return_with r s = s\<lparr>outcome := Some r, miningCancelled := True\<rparr>"

text \<open>
  A step that is not enabled gives \<open>None\<close>. The three cases of the select statement of
  \<open>Mine\<close> are the three \<open>Main\<close> events; \<open>workersDone\<close> is closed when every worker has
  finished.
\<close>

fun mine_step :: "mining_limits \<Rightarrow> block \<Rightarrow> nat \<Rightarrow> event \<Rightarrow> mine_state \<Rightarrow> mine_state option" where
  "mine_step lim b wc (WorkerStep i) s =
     (if i < length (workers s) \<and> workers s ! i \<noteq> Finished then
        (case worker_step lim b (word_of_nat wc) (workers s ! i) s of
           (w, s') \<Rightarrow> Some (s'\<lparr>workers := (workers s')[i := w]\<rparr>))
      else None)"
| "mine_step lim b wc (ContextEnds r) s =
     (if parentCtx s = None then Some (s\<lparr>parentCtx := Some r\<rparr>) else None)"
| "mine_step lim b wc (MainReceives elapsed) s =
     (if outcome s = None then
        (case resultChannel s of
           None \<Rightarrow> None
         | Some r \<Rightarrow> Some (return_with (Ok (success b wc s elapsed r)) (s\<lparr>resultChannel := None\<rparr>)))
      else None)"
| "mine_step lim b wc MainSeesContext s =
     (if outcome s = None then
        (case parentCtx s of
           None \<Rightarrow> None
         | Some DeadlineExceeded \<Rightarrow> Some (return_with (Err ErrMiningTimeout) s)
         | Some Canceled \<Rightarrow> Some (return_with (Err ErrMiningCancelled) s))
      else None)"
| "mine_step lim b wc (MainSeesDone elapsed) s =
     (if outcome s = None \<and> list_all (\<lambda>w. w = Finished) (workers s) then
        (case resultChannel s of
           Some r \<Rightarrow> Some (return_with (Ok (success b wc s elapsed r)) (s\<lparr>resultChannel := None\<rparr>))
         | None \<Rightarrow>
             (if maximumAttemptsReached s then Some (return_with (Err ErrMaxAttempts) s)
              else Some (return_with (Err ErrMaxNonce) s)))
      else None)"

definition mine_init :: "nat \<Rightarrow> mine_state" where
  "mine_init wc =
     \<lparr>workers = map (\<lambda>i. Poll (word_of_nat i)) [0..<wc], attempts = 0,
      maximumAttemptsReached = False, miningCancelled = False, resultChannel = None,
      parentCtx = None, outcome = None, tried = []\<rparr>"

fun mine_run :: "mining_limits \<Rightarrow> block \<Rightarrow> nat \<Rightarrow> event list \<Rightarrow> mine_state \<Rightarrow> mine_state option" where
  "mine_run lim b wc [] s = Some s"
| "mine_run lim b wc (e # es) s =
     (case mine_step lim b wc e s of None \<Rightarrow> None | Some s' \<Rightarrow> mine_run lim b wc es s')"

text \<open>What one run of the program meets outside it: the clock, the processors, the schedule.\<close>

record mine_env =
  Now :: i64
  NumCPU :: i64
  Schedule :: "event list"

definition worker_count :: "mine_env \<Rightarrow> mining_limits \<Rightarrow> i64" where
  "worker_count env lim =
     (let n = (if sint (Workers lim) \<le> 0 then NumCPU env else Workers lim)
      in if sint n < 1 then 1 else n)"

text \<open>
  \<open>None\<close>: the schedule ends before \<open>Mine\<close> has returned, or is not a schedule of it. The counter of
  the wait group has 32 bits with a sign, so \<open>2^31\<close> workers make it negative, which panics. Of
  more workers only the low 32 bits count; where these are not negative, it is a worker's
  \<open>Done\<close> that panics later, which the model does not tell apart (no machine starts
  as many).
\<close>

definition Mine :: "mine_env \<Rightarrow> mining_limits \<Rightarrow> block \<Rightarrow> (mine_error, block \<times> mine_result) res option" where
  "Mine env lim b =
     (if sint (Difficulty b) < 0 \<or> 64 < sint (Difficulty b)
      then Some (Err (InvalidDifficulty (Difficulty b)))
      else if 2 ^ 31 \<le> sint (worker_count env lim) then Some (Panic NegativeWaitGroup)
      else
        (let wc = nat (sint (worker_count env lim))
         in case mine_run lim b wc (Schedule env) (mine_init wc) of
              None \<Rightarrow> None
            | Some s \<Rightarrow>
                map_option
                  (\<lambda>r. bind_res r (\<lambda>res. Ok (b\<lparr>BlockNonce := ResNonce res, Hash := ResHash res\<rparr>, res)))
                  (outcome s)))"

definition genesis_block :: "i64 \<Rightarrow> block" where
  "genesis_block difficulty =
     \<lparr>Height = 0, Timestamp = 0, Transactions = [], MerkleRoot = CalculateMerkleRoot [],
      PrevHash = GenesisPrevHash, BlockNonce = 0, Difficulty = difficulty, Hash = []\<rparr>"

definition NewGenesisBlock :: "mine_env \<Rightarrow> i64 \<Rightarrow> mining_limits \<Rightarrow> (mine_error, block) res option" where
  "NewGenesisBlock env difficulty limits =
     map_option (\<lambda>r. bind_res r (\<lambda>p. Ok (fst p)))
       (Mine env (limits\<lparr>Workers := 1\<rparr>) (genesis_block difficulty))"

inductive mining :: "mining_limits \<Rightarrow> block \<Rightarrow> nat \<Rightarrow> mine_state \<Rightarrow> bool"
  for lim :: mining_limits and b :: block and wc :: nat
where
  start: "mining lim b wc (mine_init wc)"
| step: "mining lim b wc s \<Longrightarrow> mine_step lim b wc e s = Some s' \<Longrightarrow> mining lim b wc s'"

lemma mine_run_mining:
  "mining lim b wc s \<Longrightarrow> mine_run lim b wc es s = Some s' \<Longrightarrow> mining lim b wc s'"
  by (induction es arbitrary: s) (auto split: option.splits intro: mining.step)


section \<open>What the workers have covered\<close>

definition meets :: "block \<Rightarrow> u64 \<Rightarrow> bool" where
  "meets b n = MeetsDifficulty (ComputeHash (b\<lparr>BlockNonce := n\<rparr>)) (Difficulty b)"

definition within :: "mining_limits \<Rightarrow> u64 \<Rightarrow> bool" where
  "within lim n \<longleftrightarrow> MaxNonce lim = 0 \<or> n \<le> MaxNonce lim"

text \<open>Worker \<open>i\<close> of \<open>wc\<close> owns the nonces that leave the remainder \<open>i\<close>.\<close>

definition owned :: "nat \<Rightarrow> nat \<Rightarrow> u64 set" where
  "owned wc i = {n. unat n mod wc = i}"

definition below :: "nat \<Rightarrow> nat \<Rightarrow> u64 \<Rightarrow> u64 set" where
  "below wc i n = {m \<in> owned wc i. m < n}"

definition tried_by :: "nat \<Rightarrow> nat \<Rightarrow> mine_state \<Rightarrow> u64 set" where
  "tried_by wc i s = set (tried s) \<inter> owned wc i"

text \<open>A worker stops early only after one of these has happened.\<close>

definition halted :: "mine_state \<Rightarrow> bool" where
  "halted s \<longleftrightarrow> parentCtx s \<noteq> None \<or> maximumAttemptsReached s \<or> resultChannel s \<noteq> None \<or> outcome s \<noteq> None"

definition at_nonce :: "block \<Rightarrow> nat \<Rightarrow> nat \<Rightarrow> u64 \<Rightarrow> mine_state \<Rightarrow> bool" where
  "at_nonce b wc i n s \<longleftrightarrow>
     n \<in> owned wc i \<and> tried_by wc i s = below wc i n \<and> (\<forall>m\<in>below wc i n. \<not> meets b m)"

definition found :: "mining_limits \<Rightarrow> block \<Rightarrow> nat \<Rightarrow> u64 \<Rightarrow> string \<Rightarrow> mine_state \<Rightarrow> bool" where
  "found lim b wc n h s \<longleftrightarrow>
     h = ComputeHash (b\<lparr>BlockNonce := n\<rparr>) \<and> meets b n \<and> within lim n \<and> n \<in> set (tried s)
     \<and> (\<forall>m\<in>below wc (unat n mod wc) n. \<not> meets b m)"

definition exhausted :: "mining_limits \<Rightarrow> block \<Rightarrow> nat \<Rightarrow> nat \<Rightarrow> mine_state \<Rightarrow> bool" where
  "exhausted lim b wc i s \<longleftrightarrow>
     tried_by wc i s = {m \<in> owned wc i. within lim m} \<and> (\<forall>m\<in>tried_by wc i s. \<not> meets b m)"

fun worker_ok :: "mining_limits \<Rightarrow> block \<Rightarrow> nat \<Rightarrow> nat \<Rightarrow> worker \<Rightarrow> mine_state \<Rightarrow> bool" where
  "worker_ok lim b wc i (Poll n) s = at_nonce b wc i n s"
| "worker_ok lim b wc i (Count n) s = (at_nonce b wc i n s \<and> within lim n)"
| "worker_ok lim b wc i (Hashing n) s = (at_nonce b wc i n s \<and> within lim n)"
| "worker_ok lim b wc i (Sending n h) s = found lim b wc n h s"
| "worker_ok lim b wc i Refused s = True"
| "worker_ok lim b wc i Cancelling s = halted s"
| "worker_ok lim b wc i Finished s = (halted s \<or> exhausted lim b wc i s)"

definition shared_ok :: "mining_limits \<Rightarrow> block \<Rightarrow> nat \<Rightarrow> mine_state \<Rightarrow> bool" where
  "shared_ok lim b wc s \<longleftrightarrow>
     distinct (tried s) \<and> (\<forall>n\<in>set (tried s). within lim n) \<and> (miningCancelled s \<longrightarrow> halted s)
     \<and> (\<forall>n h. resultChannel s = Some (n, h) \<longrightarrow> found lim b wc n h s)
     \<and> (\<forall>r. outcome s = Some (Ok r) \<longrightarrow> found lim b wc (ResNonce r) (ResHash r) s
              \<and> ResDifficulty r = Difficulty b \<and> ResWorkers r = word_of_nat wc)
     \<and> (\<forall>p. outcome s \<noteq> Some (Panic p))"

definition mine_inv :: "mining_limits \<Rightarrow> block \<Rightarrow> nat \<Rightarrow> mine_state \<Rightarrow> bool" where
  "mine_inv lim b wc s \<longleftrightarrow>
     length (workers s) = wc \<and> (\<forall>i<wc. worker_ok lim b wc i (workers s ! i) s) \<and> shared_ok lim b wc s"

lemma found_mono: "found lim b wc n h s \<Longrightarrow> set (tried s) \<subseteq> set (tried s') \<Longrightarrow> found lim b wc n h s'"
  by (auto simp: found_def)

lemma worker_ok_mono:
  assumes "worker_ok lim b wc i w s" "tried_by wc i s' = tried_by wc i s" "halted s \<Longrightarrow> halted s'"
    and "set (tried s) \<subseteq> set (tried s')"
  shows "worker_ok lim b wc i w s'"
  using assms by (cases w) (auto simp: at_nonce_def exhausted_def found_def)

text \<open>The nonces of one worker: what comes after \<open>n\<close>, and what remains when \<open>n + step\<close> overflows.\<close>

lemma same_owner_gap:
  assumes "m \<in> owned wc i" "n \<in> owned wc i" "n < m"
  shows "unat n + wc \<le> unat m"
proof -
  from assms have "unat m mod wc = unat n mod wc" "unat n < unat m"
    by (auto simp: owned_def word_less_nat_alt)
  then show ?thesis by (metis le_add_diff_inverse mod_eq_dvd_iff_nat dvd_imp_le less_imp_le nat_add_left_cancel_le zero_less_diff)
qed

lemma unat_step: "wc < 2 ^ 64 \<Longrightarrow> unat (word_of_nat wc :: u64) = wc"
  by (simp add: unat_of_nat)

lemma no_wrap_step:
  assumes "wc < 2 ^ 64"
  shows "max_u64 - word_of_nat wc < n \<longleftrightarrow> 2 ^ 64 \<le> unat n + wc"
proof -
  have "unat (max_u64 - word_of_nat wc :: u64) = 2 ^ 64 - 1 - wc"
    using assms by (simp add: max_u64_def unat_sub word_le_nat_alt unat_step)
  with assms show ?thesis by (simp add: word_less_nat_alt) linarith
qed

lemma unat_next:
  assumes "wc < 2 ^ 64" "unat n + wc < 2 ^ 64"
  shows "unat (n + word_of_nat wc :: u64) = unat n + wc"
  using assms by (simp add: unat_word_ariths unat_step)

lemma below_next:
  assumes "0 < wc" "wc < 2 ^ 64" "n \<in> owned wc i" "unat n + wc < 2 ^ 64"
  shows "n + word_of_nat wc \<in> owned wc i" "below wc i (n + word_of_nat wc) = insert n (below wc i n)"
proof -
  note u = unat_next [OF assms(2,4)]
  from u assms(3) show "n + word_of_nat wc \<in> owned wc i" by (simp add: owned_def)
  have "m < n + word_of_nat wc \<longleftrightarrow> m = n \<or> m < n" if "m \<in> owned wc i" for m
    using same_owner_gap [OF that assms(3)] u assms(1)
    unfolding word_less_nat_alt word_unat_eq_iff by linarith
  with assms(3) show "below wc i (n + word_of_nat wc) = insert n (below wc i n)"
    by (auto simp: below_def)
qed

lemma below_last:
  assumes "n \<in> owned wc i" "2 ^ 64 \<le> unat n + wc"
  shows "owned wc i = insert n (below wc i n)"
proof -
  have "\<not> n < m" if "m \<in> owned wc i" for m
  proof
    assume "n < m"
    from same_owner_gap [OF that assms(1) this] assms(2) have "2 ^ 64 \<le> unat m" by linarith
    moreover have "unat m < 2 ^ 64" using unsigned_less [of m] by simp
    ultimately show False by simp
  qed
  with assms(1) show ?thesis by (auto simp: below_def not_less le_less)
qed

lemma below_start: "i < wc \<Longrightarrow> wc < 2 ^ 64 \<Longrightarrow> word_of_nat i \<in> owned wc i \<and> below wc i (word_of_nat i) = {}"
  using mod_less_eq_dividend by (auto simp: owned_def below_def word_less_nat_alt unat_of_nat not_less)

lemma owned_disjoint: "n \<in> owned wc i \<Longrightarrow> i \<noteq> j \<Longrightarrow> n \<notin> owned wc j"
  by (auto simp: owned_def)


section \<open>The invariant\<close>

lemma mine_inv_init:
  assumes "0 < wc" "wc < 2 ^ 64"
  shows "mine_inv lim b wc (mine_init wc)"
proof -
  have "worker_ok lim b wc i (workers (mine_init wc) ! i) (mine_init wc)" if "i < wc" for i
    using below_start [OF that assms(2)] that
    by (simp add: mine_init_def at_nonce_def tried_by_def)
  then show ?thesis by (simp add: mine_inv_def shared_ok_def mine_init_def)
qed

lemma frame_simps [simp]:
  "halted (s\<lparr>attempts := a\<rparr>) = halted s" "halted (s\<lparr>tried := t\<rparr>) = halted s"
  "halted (s\<lparr>miningCancelled := c\<rparr>) = halted s" "halted (s\<lparr>workers := ws\<rparr>) = halted s"
  "halted (s\<lparr>maximumAttemptsReached := True\<rparr>)" "halted (s\<lparr>resultChannel := Some r\<rparr>)"
  "halted (s\<lparr>parentCtx := Some q\<rparr>)" "halted (return_with x s)"
  by (simp_all add: halted_def return_with_def)

lemma found_frame [simp]:
  "found lim b wc n h (s\<lparr>attempts := a\<rparr>) = found lim b wc n h s"
  "found lim b wc n h (s\<lparr>miningCancelled := c\<rparr>) = found lim b wc n h s"
  "found lim b wc n h (s\<lparr>workers := ws\<rparr>) = found lim b wc n h s"
  "found lim b wc n h (s\<lparr>maximumAttemptsReached := m\<rparr>) = found lim b wc n h s"
  "found lim b wc n h (s\<lparr>resultChannel := r\<rparr>) = found lim b wc n h s"
  "found lim b wc n h (s\<lparr>parentCtx := q\<rparr>) = found lim b wc n h s"
  "found lim b wc n h (s\<lparr>outcome := x\<rparr>) = found lim b wc n h s"
  by (simp_all add: found_def)

lemma shared_ok_frame:
  "shared_ok lim b wc (s\<lparr>attempts := a\<rparr>) = shared_ok lim b wc s"
  "shared_ok lim b wc (s\<lparr>workers := ws\<rparr>) = shared_ok lim b wc s"
  "shared_ok lim b wc s \<Longrightarrow> halted s \<Longrightarrow> shared_ok lim b wc (s\<lparr>miningCancelled := True\<rparr>)"
  "shared_ok lim b wc s \<Longrightarrow> shared_ok lim b wc (s\<lparr>maximumAttemptsReached := True\<rparr>)"
  "shared_ok lim b wc s \<Longrightarrow> shared_ok lim b wc (s\<lparr>parentCtx := Some q\<rparr>)"
  "shared_ok lim b wc s \<Longrightarrow> found lim b wc n h s \<Longrightarrow> shared_ok lim b wc (s\<lparr>resultChannel := Some (n, h)\<rparr>)"
  by (simp_all add: shared_ok_def)

lemma shared_ok_hashed:
  assumes "shared_ok lim b wc s" "n \<notin> set (tried s)" "within lim n"
  shows "shared_ok lim b wc (s\<lparr>tried := tried s @ [n]\<rparr>)"
proof -
  have "found lim b wc m h s \<Longrightarrow> found lim b wc m h (s\<lparr>tried := tried s @ [n]\<rparr>)" for m h
    by (rule found_mono) auto
  with assms show ?thesis by (simp add: shared_ok_def)
qed

lemma return_with_frame:
  "workers (return_with x s) = workers s" "tried (return_with x s) = tried s"
  "attempts (return_with x s) = attempts s" "parentCtx (return_with x s) = parentCtx s"
  "outcome (return_with x s) = Some x" "resultChannel (return_with x s) = resultChannel s"
  by (simp_all add: return_with_def)

lemma shared_ok_returns:
  "shared_ok lim b wc s \<Longrightarrow> shared_ok lim b wc (return_with (Err e) s)"
  "shared_ok lim b wc s \<Longrightarrow> resultChannel s = Some r \<Longrightarrow>
   shared_ok lim b wc (return_with (Ok (success b wc s t r)) (s\<lparr>resultChannel := None\<rparr>))"
  by (cases r; simp add: shared_ok_def return_with_def success_def halted_def)+

text \<open>One step of worker \<open>i\<close>: its own condition, the other workers' conditions, the shared state.\<close>

lemma worker_step_mono:
  assumes "worker_step lim b st w s = (w', s')"
  shows "workers s' = workers s \<and> outcome s' = outcome s \<and> parentCtx s' = parentCtx s
    \<and> (halted s \<longrightarrow> halted s') \<and> set (tried s) \<subseteq> set (tried s')"
  using assms by (cases w) (auto simp: Let_def halted_def split: if_splits)

lemma worker_step_others:
  assumes "worker_step lim b st w s = (w', s')" "worker_ok lim b wc i w s" "i \<noteq> j"
  shows "tried_by wc j s' = tried_by wc j s"
  using assms owned_disjoint
  by (cases w) (auto simp: Let_def tried_by_def at_nonce_def split: if_splits)

lemma tried_by_snoc:
  "tried_by wc i (s\<lparr>tried := tried s @ [n]\<rparr>)
     = (if n \<in> owned wc i then insert n (tried_by wc i s) else tried_by wc i s)"
  by (auto simp: tried_by_def)

lemma hashing_step:
  assumes "worker_step lim b (word_of_nat wc) (Hashing n) s = (w', s')"
    and "worker_ok lim b wc i (Hashing n) s" "0 < wc" "wc < 2 ^ 64"
    and within: "\<And>m. m \<in> set (tried s) \<Longrightarrow> within lim m"
  shows "worker_ok lim b wc i w' s'"
proof -
  from assms(2) have n: "n \<in> owned wc i" and t: "tried_by wc i s = below wc i n"
    and none: "\<And>m. m \<in> below wc i n \<Longrightarrow> \<not> meets b m" and w: "within lim n"
    by (auto simp: at_nonce_def)
  let ?s = "s\<lparr>tried := tried s @ [n]\<rparr>"
  have t': "tried_by wc i ?s = insert n (below wc i n)" using n t by (simp add: tried_by_snoc)
  from n have i: "unat n mod wc = i" by (simp add: owned_def)
  consider "meets b n" | "\<not> meets b n" "2 ^ 64 \<le> unat n + wc" | "\<not> meets b n" "unat n + wc < 2 ^ 64"
    by linarith
  then show ?thesis
  proof cases
    case 1
    with assms(1) have "w' = Sending n (ComputeHash (b\<lparr>BlockNonce := n\<rparr>))" "s' = ?s"
      by (simp_all add: meets_def Let_def)
    with 1 i none w show ?thesis by (simp add: found_def)
  next
    case 2
    with assms(1,4) have r: "w' = Finished" "s' = ?s"
      by (simp_all add: meets_def Let_def no_wrap_step)
    have "owned wc i = tried_by wc i ?s" using below_last [OF n 2(2)] t' by simp
    moreover have "within lim m" if "m \<in> tried_by wc i ?s" for m
      using that within w by (auto simp: tried_by_def)
    ultimately have "tried_by wc i ?s = {m \<in> owned wc i. within lim m}" by blast
    with 2 none t' r show ?thesis by (auto simp: exhausted_def)
  next
    case 3
    with assms(1,4) have r: "w' = Poll (n + word_of_nat wc)" "s' = ?s"
      by (simp_all add: meets_def Let_def no_wrap_step)
    with 3 below_next [OF assms(3,4) n 3(2)] none t' show ?thesis by (auto simp: at_nonce_def)
  qed
qed

lemma worker_step_own:
  assumes "worker_step lim b (word_of_nat wc) w s = (w', s')" "worker_ok lim b wc i w s"
    and "0 < wc" "wc < 2 ^ 64" "shared_ok lim b wc s"
  shows "worker_ok lim b wc i w' s'"
proof (cases w)
  case (Poll n)
  have e: "exhausted lim b wc i s" if "0 < MaxNonce lim" "MaxNonce lim < n"
  proof -
    have "within lim m \<Longrightarrow> m < n" for m using that by (auto simp: within_def)
    moreover have "m \<in> below wc i n \<Longrightarrow> within lim m" for m
      using assms(2,5) Poll by (auto simp: at_nonce_def shared_ok_def tried_by_def)
    ultimately have "below wc i n = {m \<in> owned wc i. within lim m}" by (auto simp: below_def)
    with assms(2) Poll show ?thesis by (simp add: exhausted_def at_nonce_def)
  qed
  have c: "miningCancelled s \<or> parentCtx s \<noteq> None \<Longrightarrow> halted s"
    using assms(5) by (auto simp: shared_ok_def halted_def)
  have w: "within lim n" if "\<not> (0 < MaxNonce lim \<and> MaxNonce lim < n)"
    using that by (auto simp: within_def word_neq_0_conv [symmetric])
  from Poll assms(1) have "s' = s" by (auto split: if_splits)
  with Poll assms(1,2) e c w show ?thesis by (auto split: if_splits)
next
  case (Hashing n)
  with hashing_step [of lim b wc n s w' s' i] assms show ?thesis by (simp add: shared_ok_def)
next
  case (Sending n h)
  with assms(1) show ?thesis by (auto simp: halted_def split: if_splits)
qed (use assms in \<open>auto simp: at_nonce_def tried_by_def split: if_splits\<close>)

lemma worker_step_shared:
  assumes "worker_step lim b (word_of_nat wc) w s = (w', s')" "worker_ok lim b wc i w s"
    and "shared_ok lim b wc s"
  shows "shared_ok lim b wc s'"
proof (cases w)
  case (Hashing n)
  with assms(1) have s': "s' = s\<lparr>tried := tried s @ [n]\<rparr>" by (auto simp: Let_def split: if_splits)
  have "n \<notin> set (tried s)"
    using assms(2) Hashing by (auto simp: at_nonce_def tried_by_def below_def)
  with assms(2,3) Hashing s' show ?thesis by (simp add: shared_ok_hashed)
qed (use assms in \<open>auto simp: shared_ok_frame split: if_splits\<close>)

text \<open>Steps of \<open>Mine\<close> itself change only the shared fields.\<close>

lemma mine_inv_shared_step:
  assumes "mine_inv lim b wc s" "workers s' = workers s" "tried s' = tried s" "halted s \<longrightarrow> halted s'"
    and "shared_ok lim b wc s'"
  shows "mine_inv lim b wc s'"
proof -
  have "tried_by wc i s' = tried_by wc i s" for i using assms(3) by (simp add: tried_by_def)
  with assms(3,4) have "worker_ok lim b wc i w s \<Longrightarrow> worker_ok lim b wc i w s'" for i w
    by (intro worker_ok_mono [of lim b wc i w s s']) simp_all
  with assms show ?thesis by (simp add: mine_inv_def)
qed

lemma mine_step_worker:
  assumes "mine_step lim b wc (WorkerStep i) s = Some s'"
  obtains w' s1 where "i < length (workers s)" "workers s ! i \<noteq> Finished"
    "worker_step lim b (word_of_nat wc) (workers s ! i) s = (w', s1)"
    "s' = s1\<lparr>workers := (workers s1)[i := w']\<rparr>"
  using assms by (auto split: if_splits prod.splits)

lemma mine_step_main:
  assumes "mine_step lim b wc e s = Some s'" "\<And>i. e \<noteq> WorkerStep i" "shared_ok lim b wc s"
  shows "workers s' = workers s \<and> tried s' = tried s \<and> halted s' \<and> shared_ok lim b wc s'"
proof (cases e)
  case (ContextEnds r)
  with assms(1) have "s' = s\<lparr>parentCtx := Some r\<rparr>" by (simp split: if_splits)
  with assms(3) show ?thesis by (simp add: shared_ok_frame)
next
  case (MainReceives t)
  with assms(1) obtain r where "resultChannel s = Some r"
    "s' = return_with (Ok (success b wc s t r)) (s\<lparr>resultChannel := None\<rparr>)"
    by (auto split: if_splits option.splits)
  with assms(3) show ?thesis by (simp add: shared_ok_returns return_with_frame)
next
  case MainSeesContext
  with assms(1) obtain x where "s' = return_with (Err x) s"
    by (auto split: if_splits option.splits ctx_end.splits)
  with assms(3) show ?thesis by (simp add: shared_ok_returns return_with_frame)
next
  case (MainSeesDone t)
  with assms(1) consider x where "s' = return_with (Err x) s"
    | r where "resultChannel s = Some r"
        "s' = return_with (Ok (success b wc s t r)) (s\<lparr>resultChannel := None\<rparr>)"
    by (auto split: if_splits option.splits)
  then show ?thesis using assms(3) by cases (simp_all add: shared_ok_returns return_with_frame)
qed (use assms(2) in simp)

lemma mine_inv_worker_step:
  assumes "mine_step lim b wc (WorkerStep i) s = Some s'" "mine_inv lim b wc s" "0 < wc" "wc < 2 ^ 64"
  shows "mine_inv lim b wc s'"
proof -
  obtain w' s1 where st: "i < length (workers s)"
    "worker_step lim b (word_of_nat wc) (workers s ! i) s = (w', s1)"
    "s' = s1\<lparr>workers := (workers s1)[i := w']\<rparr>"
    using mine_step_worker [OF assms(1)] by metis
  from assms(2) have len: "length (workers s) = wc" and sh: "shared_ok lim b wc s"
    and all: "\<And>j. j < wc \<Longrightarrow> worker_ok lim b wc j (workers s ! j) s"
    unfolding mine_inv_def by blast+
  have ok: "worker_ok lim b wc i (workers s ! i) s" using all st(1) len by simp
  note mono = worker_step_mono [OF st(2)]
  have "worker_ok lim b wc j (workers s' ! j) s1" if "j < wc" for j
  proof (cases "j = i")
    case True
    with worker_step_own [OF st(2) ok assms(3,4) sh] st(3) mono that len show ?thesis by simp
  next
    case False
    have "worker_ok lim b wc j (workers s ! j) s1"
      using mono worker_step_others [OF st(2) ok, of j] False all [OF that]
      by (intro worker_ok_mono [of lim b wc j "workers s ! j" s s1]) simp_all
    with False st(3) mono show ?thesis by simp
  qed
  then have "worker_ok lim b wc j (workers s' ! j) s'" if "j < wc" for j
    using worker_ok_mono [of lim b wc j "workers s' ! j" s1 s'] that st(3) by (simp add: tried_by_def)
  moreover have "shared_ok lim b wc s'"
    using worker_step_shared [OF st(2) ok sh] st(3) by (simp add: shared_ok_frame)
  ultimately show ?thesis using mono len st(3) unfolding mine_inv_def by simp
qed

lemma mine_inv_step:
  assumes "mine_step lim b wc e s = Some s'" "mine_inv lim b wc s" "0 < wc" "wc < 2 ^ 64"
  shows "mine_inv lim b wc s'"
proof (cases "\<exists>i. e = WorkerStep i")
  case True
  with assms show ?thesis using mine_inv_worker_step by blast
next
  case False
  moreover have "shared_ok lim b wc s" using assms(2) unfolding mine_inv_def by blast
  ultimately show ?thesis
    using mine_step_main [OF assms(1)] by (intro mine_inv_shared_step [OF assms(2)]) blast+
qed

lemma mining_inv:
  "mining lim b wc s \<Longrightarrow> 0 < wc \<Longrightarrow> wc < 2 ^ 64 \<Longrightarrow> mine_inv lim b wc s"
  by (induction rule: mining.induct) (auto intro: mine_inv_init mine_inv_step)


section \<open>Counting attempts\<close>

lemma sum_list_replace:
  fixes f :: "'a \<Rightarrow> nat"
  assumes "i < length ws"
  shows "sum_list (map f (ws[i := w])) + f (ws ! i) = sum_list (map f ws) + f w"
  using assms
proof (induction ws arbitrary: i)
  case (Cons v ws)
  then show ?case by (cases i) (auto simp: add.assoc add.left_commute)
qed simp

fun is_hashing :: "worker \<Rightarrow> nat" where
  "is_hashing (Hashing n) = 1"
| "is_hashing _ = 0"

fun is_idle :: "worker \<Rightarrow> nat" where
  "is_idle Refused = 1"
| "is_idle Cancelling = 1"
| "is_idle Finished = 1"
| "is_idle _ = 0"

text \<open>Attempts that were counted and allowed: hashed ones and those about to be hashed.\<close>

definition allowed :: "mine_state \<Rightarrow> nat" where
  "allowed s = length (tried s) + sum_list (map is_hashing (workers s))"

definition idle :: "mine_state \<Rightarrow> nat" where
  "idle s = sum_list (map is_idle (workers s))"

definition attempts_ok :: "mining_limits \<Rightarrow> nat \<Rightarrow> mine_state \<Rightarrow> bool" where
  "attempts_ok lim wc s \<longleftrightarrow>
     length (workers s) = wc
     \<and> (MaxAttempts lim = 0 \<longrightarrow> attempts s = word_of_nat (allowed s))
     \<and> (0 < MaxAttempts lim \<and> unat (MaxAttempts lim) + wc < 2 ^ 64 \<longrightarrow>
          allowed s \<le> unat (MaxAttempts lim) \<and> allowed s \<le> unat (attempts s)
          \<and> unat (attempts s) \<le> unat (MaxAttempts lim) + idle s)"

lemma idle_bound: "idle s \<le> length (workers s)"
proof -
  have "sum_list (map is_idle ws) \<le> length ws" for ws
  proof (induction ws)
    case (Cons w ws)
    then show ?case by (cases w) auto
  qed simp
  then show ?thesis by (simp add: idle_def)
qed

lemma idle_less:
  assumes "i < length (workers s)" "is_idle (workers s ! i) = 0"
  shows "idle s < length (workers s)"
proof -
  have "idle (s\<lparr>workers := (workers s)[i := Finished]\<rparr>) = idle s + 1"
    using sum_list_replace [OF assms(1), of is_idle Finished] assms(2) by (simp add: idle_def)
  with idle_bound [of "s\<lparr>workers := (workers s)[i := Finished]\<rparr>"] show ?thesis by simp
qed

lemma attempts_ok_init: "attempts_ok lim wc (mine_init wc)"
proof -
  have z: "sum_list (map (is_hashing \<circ> (\<lambda>i. Poll (word_of_nat i))) xs) = 0"
    "sum_list (map (is_idle \<circ> (\<lambda>i. Poll (word_of_nat i))) xs) = 0" for xs
    by (induction xs) simp_all
  show ?thesis by (simp add: attempts_ok_def mine_init_def allowed_def idle_def z)
qed

lemma attempts_ok_count:
  assumes "attempts_ok lim wc s" "i < length (workers s)" "workers s ! i = Count n"
    and "worker_step lim b st (Count n) s = (w', s1)"
  shows "attempts_ok lim wc (s1\<lparr>workers := (workers s1)[i := w']\<rparr>)"
proof -
  let ?a = "attempts s" and ?M = "MaxAttempts lim"
  note H = sum_list_replace [OF assms(2), of is_hashing w']
  note D = sum_list_replace [OF assms(2), of is_idle w']
  have "idle s < wc" using idle_less [OF assms(2)] assms(1,3) by (simp add: attempts_ok_def)
  then have succ: "unat (?a + 1) = unat ?a + 1"
    if "0 < ?M \<and> unat ?M + wc < 2 ^ 64"
  proof -
    have "unat ?a + 1 < 2 ^ 64" using assms(1) that \<open>idle s < wc\<close> by (simp add: attempts_ok_def)
    then show ?thesis by (simp add: unat_word_ariths)
  qed
  show ?thesis
  proof (cases "0 < ?M \<and> ?M < ?a + 1")
    case True
    with assms(3,4) H D succ assms(1) show ?thesis
      by (auto simp: attempts_ok_def allowed_def idle_def word_less_nat_alt)
  next
    case False
    with assms(3,4) H D succ assms(1) show ?thesis
      by (auto simp: attempts_ok_def allowed_def idle_def word_less_nat_alt not_less word_le_nat_alt)
  qed
qed


text \<open>The other worker steps count nothing and never make an idle worker busy.\<close>

lemma attempts_ok_worker:
  assumes "attempts_ok lim wc s" "i < length (workers s)" "workers s ! i \<noteq> Finished"
    and "worker_step lim b st (workers s ! i) s = (w', s1)"
  shows "attempts_ok lim wc (s1\<lparr>workers := (workers s1)[i := w']\<rparr>)"
proof (cases "\<exists>n. workers s ! i = Count n")
  case True
  with assms show ?thesis using attempts_ok_count by metis
next
  case False
  let ?s' = "s1\<lparr>workers := (workers s1)[i := w']\<rparr>"
  note H = sum_list_replace [OF assms(2), of is_hashing w']
  note D = sum_list_replace [OF assms(2), of is_idle w']
  have "attempts ?s' = attempts s \<and> length (workers ?s') = length (workers s)
    \<and> allowed ?s' = allowed s \<and> idle s \<le> idle ?s'"
    using assms(3,4) False H D
    by (cases "workers s ! i") (auto simp: Let_def allowed_def idle_def split: if_splits)
  with assms(1) show ?thesis by (auto simp: attempts_ok_def)
qed

lemma attempts_ok_step:
  assumes "mine_step lim b wc e s = Some s'" "attempts_ok lim wc s"
  shows "attempts_ok lim wc s'"
proof (cases "\<exists>i. e = WorkerStep i")
  case True
  then obtain i where "e = WorkerStep i" ..
  with assms(1) have "mine_step lim b wc (WorkerStep i) s = Some s'" by simp
  then show ?thesis by (rule mine_step_worker) (metis assms(2) attempts_ok_worker)
next
  case False
  with assms(1) have "attempts s' = attempts s \<and> workers s' = workers s \<and> tried s' = tried s"
    by (cases e) (auto simp: return_with_def split: if_splits option.splits ctx_end.splits)
  with assms(2) show ?thesis by (simp add: attempts_ok_def allowed_def idle_def)
qed

lemma mining_attempts: "mining lim b wc s \<Longrightarrow> attempts_ok lim wc s"
  by (induction rule: mining.induct) (auto intro: attempts_ok_init attempts_ok_step)

section \<open>Termination and progress\<close>

text \<open>How many steps a worker can still take.\<close>

fun steps_left :: "worker \<Rightarrow> nat" where
  "steps_left (Poll n) = 3 * (2 ^ 64 - unat n) + 2"
| "steps_left (Count n) = 3 * (2 ^ 64 - unat n) + 1"
| "steps_left (Hashing n) = 3 * (2 ^ 64 - unat n)"
| "steps_left Refused = 2"
| "steps_left (Sending n h) = 2"
| "steps_left Cancelling = 1"
| "steps_left Finished = 0"

definition run_left :: "mine_state \<Rightarrow> nat" where
  "run_left s = sum_list (map steps_left (workers s))
     + (if parentCtx s = None then 1 else 0) + (if outcome s = None then 1 else 0)"

lemma unat_room: "1 \<le> 2 ^ 64 - unat (n :: u64)"
proof -
  have "unat n < 2 ^ 64" using unsigned_less [of n, where ?'a = nat] by simp
  then show ?thesis by simp
qed

lemma worker_step_decreases:
  assumes "worker_step lim b (word_of_nat wc) w s = (w', s')" "w \<noteq> Finished" "0 < wc" "wc < 2 ^ 64"
  shows "steps_left w' < steps_left w"
proof (cases w)
  case (Hashing n)
  have "steps_left (Poll (n + word_of_nat wc)) < steps_left (Hashing n)" if "unat n + wc < 2 ^ 64"
    using that assms(3) unat_next [OF assms(4) that] by simp
  with Hashing assms unat_room [of n] show ?thesis
    by (auto simp: Let_def no_wrap_step not_le split: if_splits)
next
  case (Count n)
  with assms unat_room [of n] show ?thesis by (auto split: if_splits)
qed (use assms in \<open>auto split: if_splits\<close>)

lemma mine_step_decreases:
  assumes "mine_step lim b wc e s = Some s'" "0 < wc" "wc < 2 ^ 64"
  shows "run_left s' < run_left s"
proof (cases "\<exists>i. e = WorkerStep i")
  case True
  then obtain i where "e = WorkerStep i" ..
  with assms(1) have "mine_step lim b wc (WorkerStep i) s = Some s'" by simp
  then obtain w' s1 where st: "i < length (workers s)" "workers s ! i \<noteq> Finished"
    "worker_step lim b (word_of_nat wc) (workers s ! i) s = (w', s1)"
    "s' = s1\<lparr>workers := (workers s1)[i := w']\<rparr>" by (rule mine_step_worker)
  have "steps_left w' < steps_left (workers s ! i)"
    using worker_step_decreases [OF st(3,2) assms(2,3)] .
  with sum_list_replace [OF st(1), of steps_left w'] worker_step_mono [OF st(3)] st(4)
  show ?thesis by (simp add: run_left_def)
next
  case False
  with assms(1) show ?thesis
    by (cases e) (auto simp: return_with_def run_left_def split: if_splits option.splits ctx_end.splits)
qed

lemma mine_run_length:
  "mine_run lim b wc es s = Some s' \<Longrightarrow> 0 < wc \<Longrightarrow> wc < 2 ^ 64 \<Longrightarrow> length es + run_left s' \<le> run_left s"
proof (induction es arbitrary: s)
  case (Cons e es)
  then obtain t where t: "mine_step lim b wc e s = Some t" "mine_run lim b wc es t = Some s'"
    by (auto split: option.splits)
  from mine_step_decreases [OF t(1)] Cons.IH [OF t(2)] Cons.prems show ?case by simp
qed simp

lemma run_left_init: "run_left (mine_init wc) \<le> wc * (3 * 2 ^ 64 + 2) + 2"
proof -
  have "sum_list (map steps_left (map (\<lambda>i. Poll (word_of_nat i)) xs)) \<le> length xs * (3 * 2 ^ 64 + 2)" for xs
    by (induction xs) (auto intro: add_mono)
  from this [of "[0..<wc]"] show ?thesis by (simp add: run_left_def mine_init_def)
qed

text \<open>While \<open>Mine\<close> has not returned, a worker or the select statement can move.\<close>

lemma mine_progress:
  assumes "outcome s = None"
  shows "\<exists>e s'. (\<forall>r. e \<noteq> ContextEnds r) \<and> mine_step lim b wc e s = Some s'"
proof (cases "list_all (\<lambda>w. w = Finished) (workers s)")
  case True
  with assms show ?thesis
    by (intro exI [of _ "MainSeesDone 0"]) (auto split: option.splits)
next
  case False
  then obtain i where "i < length (workers s)" "workers s ! i \<noteq> Finished"
    by (auto simp: list_all_iff in_set_conv_nth)
  then show ?thesis
    by (intro exI [of _ "WorkerStep i"]) (auto split: prod.splits)
qed

lemma mine_run_append:
  "mine_run lim b wc (es @ fs) s
     = (case mine_run lim b wc es s of None \<Rightarrow> None | Some t \<Rightarrow> mine_run lim b wc fs t)"
  by (induction es arbitrary: s) (auto split: option.splits)

lemma mine_run_completes:
  assumes "0 < wc" "wc < 2 ^ 64"
  shows "\<exists>es s'. mine_run lim b wc es s = Some s' \<and> outcome s' \<noteq> None \<and> (\<forall>r. ContextEnds r \<notin> set es)"
proof (induction s rule: measure_induct_rule [where f = run_left])
  case (less s)
  show ?case
  proof (cases "outcome s = None")
    case True
    then obtain e t where e: "\<forall>r. e \<noteq> ContextEnds r" "mine_step lim b wc e s = Some t"
      using mine_progress by blast
    from less.IH [OF mine_step_decreases [OF e(2) assms]] obtain es s' where
      "mine_run lim b wc es t = Some s'" "outcome s' \<noteq> None" "\<forall>r. ContextEnds r \<notin> set es" by blast
    with e show ?thesis by (intro exI [of _ "e # es"] exI [of _ s']) auto
  next
    case False
    then show ?thesis by (intro exI [of _ "[]"] exI [of _ s]) simp
  qed
qed


section \<open>Why \<open>Mine\<close> returned\<close>

definition flag_ok :: "mining_limits \<Rightarrow> mine_state \<Rightarrow> bool" where
  "flag_ok lim s \<longleftrightarrow> (maximumAttemptsReached s \<or> Refused \<in> set (workers s) \<longrightarrow> 0 < MaxAttempts lim)"

definition reason_ok :: "mining_limits \<Rightarrow> block \<Rightarrow> mine_state \<Rightarrow> bool" where
  "reason_ok lim b s \<longleftrightarrow>
     (\<forall>e. outcome s = Some (Err e) \<longrightarrow>
        (e = ErrMaxAttempts \<and> 0 < MaxAttempts lim)
        \<or> (e = ErrMiningTimeout \<and> parentCtx s = Some DeadlineExceeded)
        \<or> (e = ErrMiningCancelled \<and> parentCtx s = Some Canceled)
        \<or> (e = ErrMaxNonce \<and> (parentCtx s \<noteq> None \<or> (\<forall>n. within lim n \<longrightarrow> \<not> meets b n))))"

lemma flag_ok_worker:
  assumes "flag_ok lim s" "worker_step lim b st (workers s ! i) s = (w', s1)" "i < length (workers s)"
  shows "flag_ok lim (s1\<lparr>workers := (workers s1)[i := w']\<rparr>)"
proof -
  have own: "w' = Refused \<or> maximumAttemptsReached s1 \<longrightarrow> 0 < MaxAttempts lim"
    using assms nth_mem [OF assms(3)]
    by (cases "workers s ! i") (auto simp: flag_ok_def Let_def split: if_splits)
  have "set ((workers s)[i := w']) \<subseteq> insert w' (set (workers s))" by (rule set_update_subset_insert)
  with own assms(1) worker_step_mono [OF assms(2)] show ?thesis by (auto simp: flag_ok_def)
qed

lemma all_exhausted:
  assumes "mine_inv lim b wc s" "0 < wc" "list_all (\<lambda>w. w = Finished) (workers s)" "\<not> halted s"
    and "within lim n"
  shows "\<not> meets b n"
proof -
  let ?i = "unat n mod wc"
  have "?i < wc" using assms(2) by simp
  with assms(1,3) have "worker_ok lim b wc ?i Finished s"
    unfolding mine_inv_def list_all_length by metis
  with assms(4) have "exhausted lim b wc ?i s" by simp
  moreover have "n \<in> owned wc ?i" by (simp add: owned_def)
  ultimately show ?thesis using assms(5) by (auto simp: exhausted_def)
qed

lemma mining_reasons:
  assumes "mining lim b wc s" "0 < wc" "wc < 2 ^ 64"
  shows "flag_ok lim s \<and> reason_ok lim b s"
  using assms(1)
proof (induction rule: mining.induct)
  case start
  have "Refused \<notin> set (workers (mine_init wc))" by (auto simp: mine_init_def)
  then show ?case by (simp add: flag_ok_def reason_ok_def) (simp add: mine_init_def)
next
  case (step s e s')
  show ?case
  proof (cases e)
    case (WorkerStep i)
    with step.hyps(2) have "mine_step lim b wc (WorkerStep i) s = Some s'" by simp
    then obtain w' s1 where st: "i < length (workers s)"
      "worker_step lim b (word_of_nat wc) (workers s ! i) s = (w', s1)"
      "s' = s1\<lparr>workers := (workers s1)[i := w']\<rparr>" by (rule mine_step_worker)
    with step.IH flag_ok_worker [of lim s b "word_of_nat wc" i w' s1] worker_step_mono [OF st(2)]
    show ?thesis by (simp add: reason_ok_def)
  next
    case (MainSeesDone t)
    have "outcome s = None" "list_all (\<lambda>w. w = Finished) (workers s)"
      using MainSeesDone step.hyps(2) by (auto split: if_splits)
    moreover have "mine_inv lim b wc s" using mining_inv [OF step.hyps(1) assms(2,3)] .
    ultimately have "\<not> halted s \<Longrightarrow> within lim n \<Longrightarrow> \<not> meets b n" for n
      using all_exhausted assms(2) by blast
    with MainSeesDone step.hyps(2) step.IH show ?thesis
      by (auto simp: flag_ok_def reason_ok_def return_with_def halted_def split: if_splits option.splits)
  qed (use step in \<open>auto simp: flag_ok_def reason_ok_def return_with_def
         split: if_splits option.splits ctx_end.splits\<close>)
qed

lemma mine_run_context:
  "mine_run lim b wc es s = Some s' \<Longrightarrow> \<forall>r. ContextEnds r \<notin> set es \<Longrightarrow> parentCtx s' = parentCtx s"
proof (induction es arbitrary: s)
  case (Cons e es)
  then obtain t where t: "mine_step lim b wc e s = Some t" "mine_run lim b wc es t = Some s'"
    by (auto split: option.splits)
  have "parentCtx t = parentCtx s"
  proof (cases "\<exists>i. e = WorkerStep i")
    case True
    then obtain i where "e = WorkerStep i" ..
    with t(1) have "mine_step lim b wc (WorkerStep i) s = Some t" by simp
    then show ?thesis by (rule mine_step_worker) (auto dest: worker_step_mono)
  next
    case False
    with t(1) Cons.prems(2) show ?thesis
      by (cases e) (auto simp: return_with_def split: if_splits option.splits ctx_end.splits)
  qed
  with Cons.IH [OF t(2)] Cons.prems(2) show ?case by simp
qed simp

section \<open>The interface of a miner\<close>

lemma worker_count_pos: "1 \<le> sint (worker_count env lim)"
  by (simp add: worker_count_def Let_def)

lemma worker_count_nat:
  "0 < nat (sint (worker_count env lim))" "nat (sint (worker_count env lim)) < 2 ^ 64"
  "word_of_nat (nat (sint (worker_count env lim))) = worker_count env lim"
  using worker_count_pos [of env lim] sint_range64(2) [of "worker_count env lim"] by simp_all

lemma Mine_returns:
  assumes "Mine env lim b = Some x" "0 \<le> sint (Difficulty b)" "sint (Difficulty b) \<le> 64"
    and "sint (worker_count env lim) < 2 ^ 31"
  obtains s r where "mine_run lim b (nat (sint (worker_count env lim))) (Schedule env)
      (mine_init (nat (sint (worker_count env lim)))) = Some s"
    "mining lim b (nat (sint (worker_count env lim))) s" "outcome s = Some r"
    "x = bind_res r (\<lambda>res. Ok (b\<lparr>BlockNonce := ResNonce res, Hash := ResHash res\<rparr>, res))"
  using assms mine_run_mining [OF mining.start]
  by (auto simp: Mine_def Let_def split: if_splits option.splits)

lemma Mine_Ok:
  assumes "Mine env lim b = Some (Ok (b', r))"
  obtains s where "mining lim b (nat (sint (worker_count env lim))) s"
    "found lim b (nat (sint (worker_count env lim))) (ResNonce r) (ResHash r) s"
    "b' = b\<lparr>BlockNonce := ResNonce r, Hash := ResHash r\<rparr>"
    "ResDifficulty r = Difficulty b" "ResWorkers r = worker_count env lim"
proof -
  have "0 \<le> sint (Difficulty b)" "sint (Difficulty b) \<le> 64" "sint (worker_count env lim) < 2 ^ 31"
    using assms by (auto simp: Mine_def split: if_splits)
  from Mine_returns [OF assms this] obtain s x where s:
    "mining lim b (nat (sint (worker_count env lim))) s" "outcome s = Some x"
    "Ok (b', r) = bind_res x (\<lambda>res. Ok (b\<lparr>BlockNonce := ResNonce res, Hash := ResHash res\<rparr>, res))" by blast
  from s(3) have "x = Ok r" "b' = b\<lparr>BlockNonce := ResNonce r, Hash := ResHash r\<rparr>"
    by (cases x; simp)+
  moreover have "shared_ok lim b (nat (sint (worker_count env lim))) s"
    using mining_inv [OF s(1) worker_count_nat(1,2)] unfolding mine_inv_def by blast
  ultimately show thesis using s that by (simp add: shared_ok_def worker_count_nat(3))
qed

text \<open>
  What the chain relies on when it mines: a successful call seals the block it was given.
\<close>

locale miner =
  fixes mine :: "block \<Rightarrow> (mine_error, block \<times> mine_result) res option"
  assumes seals: "mine b = Some (Ok (b', r)) \<Longrightarrow>
      b' = b\<lparr>BlockNonce := BlockNonce b', Hash := Hash b'\<rparr>
      \<and> Hash b' = ComputeHash b' \<and> MeetsDifficulty (Hash b') (Difficulty b)"
begin

lemma sealed_fields:
  assumes "mine b = Some (Ok (b', r))"
  shows "Height b' = Height b" "Timestamp b' = Timestamp b" "Transactions b' = Transactions b"
    "MerkleRoot b' = MerkleRoot b" "PrevHash b' = PrevHash b" "Difficulty b' = Difficulty b"
proof -
  from seals [OF assms] obtain n h where "b' = b\<lparr>BlockNonce := n, Hash := h\<rparr>" by blast
  then show "Height b' = Height b" "Timestamp b' = Timestamp b" "Transactions b' = Transactions b"
    "MerkleRoot b' = MerkleRoot b" "PrevHash b' = PrevHash b" "Difficulty b' = Difficulty b"
    by simp_all
qed

lemma sealed_hash:
  assumes "mine b = Some (Ok (b', r))"
  shows "Hash b' = ComputeHash b'" "MeetsDifficulty (Hash b') (Difficulty b')"
proof -
  show "Hash b' = ComputeHash b'" using seals [OF assms] by blast
  have "MeetsDifficulty (Hash b') (Difficulty b)" using seals [OF assms] by blast
  then show "MeetsDifficulty (Hash b') (Difficulty b')" unfolding sealed_fields(6) [OF assms] .
qed

end

lemma Mine_seals:
  assumes "Mine env lim b = Some (Ok (b', r))"
  shows "b' = b\<lparr>BlockNonce := BlockNonce b', Hash := Hash b'\<rparr>
    \<and> Hash b' = ComputeHash b' \<and> MeetsDifficulty (Hash b') (Difficulty b)
    \<and> within lim (BlockNonce b') \<and> ResNonce r = BlockNonce b' \<and> ResHash r = Hash b'
    \<and> ResDifficulty r = Difficulty b \<and> ResWorkers r = worker_count env lim
    \<and> (\<forall>m\<in>below (nat (sint (worker_count env lim)))
            (unat (BlockNonce b') mod nat (sint (worker_count env lim))) (BlockNonce b'). \<not> meets b m)"
proof -
  from assms obtain s where s:
    "found lim b (nat (sint (worker_count env lim))) (ResNonce r) (ResHash r) s"
    "b' = b\<lparr>BlockNonce := ResNonce r, Hash := ResHash r\<rparr>"
    "ResDifficulty r = Difficulty b" "ResWorkers r = worker_count env lim" by (rule Mine_Ok)
  moreover have "ComputeHash b' = ComputeHash (b\<lparr>BlockNonce := ResNonce r\<rparr>)"
    unfolding s(2) by (rule ComputeHash_cong) simp_all
  ultimately show ?thesis by (simp add: found_def meets_def)
qed

lemma Mine_panic:
  assumes "Mine env lim b = Some (Panic p)"
  shows "p = NegativeWaitGroup \<and> 2 ^ 31 \<le> sint (worker_count env lim)"
proof (cases "2 ^ 31 \<le> sint (worker_count env lim)")
  case True
  with assms show ?thesis by (auto simp: Mine_def split: if_splits)
next
  case False
  then have "0 \<le> sint (Difficulty b)" "sint (Difficulty b) \<le> 64" "sint (worker_count env lim) < 2 ^ 31"
    using assms by (auto simp: Mine_def split: if_splits)
  from Mine_returns [OF assms this] obtain s x where s:
    "mining lim b (nat (sint (worker_count env lim))) s" "outcome s = Some x"
    "Panic p = bind_res x (\<lambda>res. Ok (b\<lparr>BlockNonce := ResNonce res, Hash := ResHash res\<rparr>, res))" by blast
  moreover have "shared_ok lim b (nat (sint (worker_count env lim))) s"
    using mining_inv [OF s(1) worker_count_nat(1,2)] unfolding mine_inv_def by blast
  ultimately have False by (cases x) (auto simp: shared_ok_def)
  then show ?thesis ..
qed

interpretation mn: miner "Mine env lim" for env lim
  by unfold_locales (use Mine_seals in blast)


section \<open>Sample run\<close>

text \<open>One worker that succeeds with its first nonce.\<close>

definition quick_env :: mine_env where
  "quick_env = \<lparr>Now = 100, NumCPU = 1,
     Schedule = [WorkerStep 0, WorkerStep 0, WorkerStep 0, WorkerStep 0, MainReceives 7]\<rparr>"

definition quick_limits :: mining_limits where
  "quick_limits = \<lparr>MaxAttempts = 0, MaxNonce = 0, Workers = 1\<rparr>"

lemma quick_mine:
  assumes "Difficulty b = 0"
  shows "Mine quick_env quick_limits b
    = Some (Ok (b\<lparr>BlockNonce := 0, Hash := ComputeHash (b\<lparr>BlockNonce := 0\<rparr>)\<rparr>,
        \<lparr>ResNonce = 0, ResHash = ComputeHash (b\<lparr>BlockNonce := 0\<rparr>), ResAttempts = 1, ResElapsed = 7,
         ResDifficulty = 0, ResWorkers = 1\<rparr>))"
  using assms
  by (simp add: Mine_def quick_env_def quick_limits_def worker_count_def mine_init_def Let_def
      return_with_def success_def)

section \<open>Properties\<close>

text \<open>
  C10. Mining seals the block it was given, whatever the interleaving of the workers: only
  the nonce and the hash change, the hash is the block's hash and meets its difficulty, the
  nonce respects the nonce limit, and the reported result is the one stored in the block.
\<close>

theorem mined_block_is_sealed:
  assumes "Mine env lim b = Some (Ok (b', r))"
  shows "b' = b\<lparr>BlockNonce := BlockNonce b', Hash := Hash b'\<rparr>
    \<and> Hash b' = ComputeHash b' \<and> MeetsDifficulty (Hash b') (Difficulty b)
    \<and> (MaxNonce lim = 0 \<or> BlockNonce b' \<le> MaxNonce lim)
    \<and> ResNonce r = BlockNonce b' \<and> ResHash r = Hash b'
    \<and> ResDifficulty r = Difficulty b \<and> ResWorkers r = worker_count env lim"
  using Mine_seals [OF assms] unfolding within_def by blast

theorem mined_block_is_sealed_witness:
  "Hash (zero_block\<lparr>Hash := ComputeHash zero_block\<rparr>) = ComputeHash (zero_block\<lparr>Hash := ComputeHash zero_block\<rparr>)"
  using mined_block_is_sealed [OF quick_mine [of zero_block]] by (simp add: zero_block_def)

text \<open>
  C11. A block that can be mined is mined: if some nonce within the limit meets the
  difficulty and the caller's context does not end, then \<open>Mine\<close> never reports that the
  nonces are exhausted, and without an attempt limit it can only return with success (or
  panic at once, when it is asked for \<open>2^31\<close> workers or more).
\<close>

theorem minable_block_is_mined:
  assumes "MeetsDifficulty (ComputeHash (b\<lparr>BlockNonce := n\<rparr>)) (Difficulty b)"
    and "MaxNonce lim = 0 \<or> n \<le> MaxNonce lim" "\<forall>q. ContextEnds q \<notin> set (Schedule env)"
    and "Mine env lim b = Some x"
  shows "x \<noteq> Err ErrMaxNonce \<and> (MaxAttempts lim = 0 \<longrightarrow> (\<exists>b' r. x = Ok (b', r))
      \<or> x = Panic NegativeWaitGroup \<and> 2 ^ 31 \<le> sint (worker_count env lim))"
proof (cases "2 ^ 31 \<le> sint (worker_count env lim)")
  case True
  with assms(1,4) show ?thesis by (auto simp: Mine_def MeetsDifficulty_iff split: if_splits)
next
  case False
  then have workers: "sint (worker_count env lim) < 2 ^ 31" by simp
  let ?wc = "nat (sint (worker_count env lim))"
  from assms(1) have "0 \<le> sint (Difficulty b)" "sint (Difficulty b) \<le> 64"
    by (simp_all add: MeetsDifficulty_iff)
  from Mine_returns [OF assms(4) this workers] obtain s r where s:
    "mine_run lim b ?wc (Schedule env) (mine_init ?wc) = Some s"
    "mining lim b ?wc s" "outcome s = Some r"
    "x = bind_res r (\<lambda>res. Ok (b\<lparr>BlockNonce := ResNonce res, Hash := ResHash res\<rparr>, res))" by blast
  have "reason_ok lim b s" using mining_reasons [OF s(2) worker_count_nat(1,2)] by blast
  moreover have "parentCtx s = None"
    using mine_run_context [OF s(1) assms(3)] by (simp add: mine_init_def)
  moreover have "meets b n" "within lim n" using assms(1,2) by (auto simp: meets_def within_def)
  ultimately have "r = Err e \<Longrightarrow> e = ErrMaxAttempts \<and> 0 < MaxAttempts lim" for e
    using s(3) by (auto simp: reason_ok_def)
  moreover have "\<And>p. x \<noteq> Panic p" using assms(4) Mine_panic False by blast
  ultimately show ?thesis using s(4) by (cases r) auto
qed

theorem minable_block_is_mined_witness:
  "\<exists>b' r. the (Mine quick_env quick_limits zero_block) = Ok (b', r)"
proof -
  have m: "Mine quick_env quick_limits zero_block = Some (the (Mine quick_env quick_limits zero_block))"
    using quick_mine [of zero_block] by (simp add: zero_block_def)
  have "MeetsDifficulty (ComputeHash (zero_block\<lparr>BlockNonce := 0\<rparr>)) (Difficulty zero_block)"
    by (simp add: zero_block_def)
  moreover have "MaxNonce quick_limits = 0 \<or> 0 \<le> MaxNonce quick_limits" by simp
  moreover have "\<forall>q. ContextEnds q \<notin> set (Schedule quick_env)" by (simp add: quick_env_def)
  ultimately have "(\<exists>b' r. the (Mine quick_env quick_limits zero_block) = Ok (b', r))
      \<or> 2 ^ 31 \<le> sint (worker_count quick_env quick_limits)"
    using minable_block_is_mined [OF _ _ _ m] by (auto simp: quick_limits_def)
  moreover have "\<not> 2 ^ 31 \<le> sint (worker_count quick_env quick_limits)"
    by (simp add: worker_count_def quick_limits_def)
  ultimately show ?thesis by blast
qed

text \<open>
  C12. Every run of the workers is finite, and any run can be completed, without the
  caller's context ending, to one in which \<open>Mine\<close> returns: there is no deadlock and no
  endless search, whatever the interleaving.
\<close>

theorem mining_terminates:
  assumes "0 < wc" "wc < 2 ^ 63" "mine_run lim b wc es (mine_init wc) = Some s"
  shows "length es \<le> wc * (3 * 2 ^ 64 + 2) + 2
    \<and> (\<exists>fs t. mine_run lim b wc (es @ fs) (mine_init wc) = Some t \<and> outcome t \<noteq> None
           \<and> (\<forall>r. ContextEnds r \<notin> set fs))"
proof -
  have wc: "wc < 2 ^ 64" using assms(2) by simp
  obtain fs t where "mine_run lim b wc fs s = Some t" "outcome t \<noteq> None" "\<forall>r. ContextEnds r \<notin> set fs"
    using mine_run_completes [OF assms(1) wc] by blast
  moreover have "length es \<le> wc * (3 * 2 ^ 64 + 2) + 2"
    using mine_run_length [OF assms(3,1) wc] run_left_init [of wc] by linarith
  ultimately show ?thesis using assms(3) by (auto simp: mine_run_append)
qed

theorem mining_terminates_witness:
  "\<exists>fs t. mine_run quick_limits zero_block 2 ([WorkerStep 1, WorkerStep 0] @ fs) (mine_init 2) = Some t
     \<and> outcome t \<noteq> None"
proof -
  obtain s where "mine_run quick_limits zero_block 2 [WorkerStep 1, WorkerStep 0] (mine_init 2) = Some s"
    by (simp add: mine_init_def quick_limits_def upt_rec numeral_2_eq_2)
  from mining_terminates [OF _ _ this] show ?thesis by (simp del: mine_run.simps mine_step.simps) blast
qed


text \<open>
  C13. No work is repeated and the limits hold at every moment of every run: no nonce is
  hashed twice by any worker, no nonce above \<open>MaxNonce\<close> is hashed, at most \<open>MaxAttempts\<close>
  nonces are hashed, and without an attempt limit the counter is exactly the number of
  nonces hashed plus those about to be hashed.
\<close>

theorem no_nonce_hashed_twice:
  assumes "0 < wc" "wc < 2 ^ 63" "mine_run lim b wc es (mine_init wc) = Some s"
  shows "distinct (tried s) \<and> (\<forall>n\<in>set (tried s). MaxNonce lim = 0 \<or> n \<le> MaxNonce lim)
    \<and> (0 < MaxAttempts lim \<longrightarrow> unat (MaxAttempts lim) + wc < 2 ^ 64 \<longrightarrow>
         length (tried s) \<le> unat (MaxAttempts lim))
    \<and> (MaxAttempts lim = 0 \<longrightarrow>
         attempts s = word_of_nat (length (tried s) + sum_list (map is_hashing (workers s))))"
proof -
  have "mining lim b wc s" using mine_run_mining [OF mining.start assms(3)] .
  then have "shared_ok lim b wc s" "attempts_ok lim wc s"
    using mining_inv [of lim b wc s] mining_attempts assms(1,2) by (auto simp: mine_inv_def)
  then show ?thesis by (auto simp: shared_ok_def attempts_ok_def allowed_def within_def)
qed

theorem no_nonce_hashed_twice_witness:
  "\<exists>s. mine_run quick_limits zero_block 1 (Schedule quick_env) (mine_init 1) = Some s \<and> distinct (tried s)"
proof -
  obtain s where s: "mine_run quick_limits zero_block 1 (Schedule quick_env) (mine_init 1) = Some s"
    by (simp add: mine_init_def quick_limits_def quick_env_def zero_block_def Let_def)
  from no_nonce_hashed_twice [OF _ _ this] have "distinct (tried s)" by simp
  with s show ?thesis by blast
qed

lemma Mine_single:
  assumes "Mine env (lim\<lparr>Workers := 1\<rparr>) b = Some (Ok (b', r))"
  shows "meets b (BlockNonce b') \<and> (\<forall>m<BlockNonce b'. \<not> meets b m)
    \<and> b' = b\<lparr>BlockNonce := BlockNonce b', Hash := ComputeHash (b\<lparr>BlockNonce := BlockNonce b'\<rparr>)\<rparr>"
proof -
  have wc: "nat (sint (worker_count env (lim\<lparr>Workers := 1\<rparr>))) = 1" by (simp add: worker_count_def)
  note S = Mine_seals [OF assms, unfolded wc]
  have b': "b' = b\<lparr>BlockNonce := BlockNonce b', Hash := Hash b'\<rparr>" using S by blast
  have "ComputeHash b' = ComputeHash (b\<lparr>BlockNonce := BlockNonce b'\<rparr>)"
    by (subst b') (rule ComputeHash_cong; simp)
  with S b' show ?thesis by (auto simp: meets_def below_def owned_def)
qed

text \<open>
  Genesis is deterministic: two runs that create a genesis block of the same difficulty
  produce the same block, whatever their limits, processors and schedules, because one
  worker finds the least nonce.
\<close>

theorem genesis_is_deterministic:
  assumes "NewGenesisBlock env difficulty lim = Some (Ok g)"
    and "NewGenesisBlock env' difficulty lim' = Some (Ok g')"
  shows "g = g'"
proof -
  let ?b = "genesis_block difficulty"
  from assms obtain r r' where "Mine env (lim\<lparr>Workers := 1\<rparr>) ?b = Some (Ok (g, r))"
    "Mine env' (lim'\<lparr>Workers := 1\<rparr>) ?b = Some (Ok (g', r'))"
    by (auto simp: NewGenesisBlock_def bind_res_eq_Ok)
  note L = this [THEN Mine_single]
  then have "BlockNonce g = BlockNonce g'" by (metis linorder_neqE)
  with L show ?thesis by metis
qed

theorem genesis_is_deterministic_witness:
  "\<exists>g. NewGenesisBlock quick_env 0 quick_limits = Some (Ok g)
     \<and> NewGenesisBlock quick_env 0 (quick_limits\<lparr>Workers := 8\<rparr>) = Some (Ok g)"
proof -
  have w: "quick_limits\<lparr>Workers := 1\<rparr> = quick_limits" by (simp add: quick_limits_def)
  have d: "Difficulty (genesis_block 0) = 0" by (simp add: genesis_block_def)
  obtain g where g: "NewGenesisBlock quick_env 0 quick_limits = Some (Ok g)"
    "\<exists>g'. NewGenesisBlock quick_env 0 (quick_limits\<lparr>Workers := 8\<rparr>) = Some (Ok g')"
    by (simp add: NewGenesisBlock_def w quick_mine [OF d])
  then obtain g' where "NewGenesisBlock quick_env 0 (quick_limits\<lparr>Workers := 8\<rparr>) = Some (Ok g')" by blast
  moreover from genesis_is_deterministic [OF g(1) this] have "g = g'" .
  ultimately show ?thesis using g(1) by blast
qed

text \<open>
  A timeout can be reported as \<open>ErrMaxNonce\<close>: when the caller's deadline passes, the
  workers stop too, both cases of the final select are ready, and the one for finished
  workers reports that every nonce was tried although none was.
\<close>

theorem timeout_reported_as_max_nonce:
  "\<exists>env. ContextEnds DeadlineExceeded \<in> set (Schedule env)
     \<and> Mine env quick_limits (genesis_block 0) = Some (Err ErrMaxNonce)
     \<and> MeetsDifficulty (ComputeHash ((genesis_block 0)\<lparr>BlockNonce := 0\<rparr>)) 0"
  by (rule exI [of _ "quick_env\<lparr>Schedule := [ContextEnds DeadlineExceeded, WorkerStep 0, MainSeesDone 0]\<rparr>"])
    (simp add: Mine_def quick_env_def quick_limits_def worker_count_def mine_init_def return_with_def
      genesis_block_def)

text \<open>
  The reported attempt count is not the number of hashes: with two workers and a limit
  of one attempt, a run hashes one nonce and reports two attempts, more than the limit.
\<close>

theorem attempts_can_exceed_limit:
  "\<exists>s r. mine_run \<lparr>MaxAttempts = 1, MaxNonce = 0, Workers = 2\<rparr> (genesis_block 0) 2
           [WorkerStep 0, WorkerStep 1, WorkerStep 0, WorkerStep 1, WorkerStep 0, WorkerStep 0, MainReceives 0]
           (mine_init 2) = Some s
       \<and> outcome s = Some (Ok r) \<and> ResAttempts r = 2 \<and> length (tried s) = 1"
  by (simp add: mine_init_def return_with_def success_def genesis_block_def Let_def upt_rec numeral_2_eq_2)

end
