(* ===== verification/DifficultyRules.thy ===== *)
theory DifficultyRules
  imports Ledger Mining
begin

text \<open>
  The data of \<open>src/chain/chain.go\<close> (\<open>Chain\<close>, \<open>DifficultyRule\<close>) and everything that decides
  the difficulty of a block: the manual schedule (\<open>ExpectedDifficulty\<close>) and the automatic
  retargeting of \<open>src/chain/retarget.go\<close>. Block pointers may be nil in a chain that was
  parsed from a file, so \<open>Blocks\<close> is a list of options.
\<close>

record difficulty_rule =
  StartHeight :: i64
  RuleDifficulty :: i64

record retarget_config =
  Enabled :: bool
  Interval :: i64
  TargetBlockSeconds :: i64
  MinDifficulty :: i64
  MaxDifficulty :: i64

record chain =
  Blocks :: "block option list"
  Pending :: "transaction list"
  DifficultySchedule :: "difficulty_rule list"
  Retarget :: retarget_config
  MaxTxPerBlock :: i64

definition DefaultDifficulty :: i64 where "DefaultDifficulty = 4"
definition DefaultMaxTxPerBlock :: i64 where "DefaultMaxTxPerBlock = 10"

definition DefaultRetargetConfig :: retarget_config where
  "DefaultRetargetConfig =
     \<lparr>Enabled = False, Interval = 5, TargetBlockSeconds = 5, MinDifficulty = 1, MaxDifficulty = 8\<rparr>"

section \<open>Automatic retargeting\<close>

datatype retarget_error =
    IntervalTooSmall
  | TargetNotPositive
  | MinimumOutOfRange
  | MaximumOutOfRange
  | MinimumAboveMaximum

definition RetargetConfig_Validate :: "retarget_config \<Rightarrow> (retarget_error, unit) res" where
  "RetargetConfig_Validate r =
     (if sint (Interval r) < 2 then Err IntervalTooSmall
      else if sint (TargetBlockSeconds r) \<le> 0 then Err TargetNotPositive
      else if sint (MinDifficulty r) < 0 \<or> 64 < sint (MinDifficulty r) then Err MinimumOutOfRange
      else if sint (MaxDifficulty r) < 0 \<or> 64 < sint (MaxDifficulty r) then Err MaximumOutOfRange
      else if sint (MaxDifficulty r) < sint (MinDifficulty r) then Err MinimumAboveMaximum
      else Ok ())"

definition shouldRetarget :: "chain \<Rightarrow> i64 \<Rightarrow> ('e, bool) res" where
  "shouldRetarget c height =
     (if \<not> Enabled (Retarget c) then Ok False
      else if sint height \<le> sint (Interval (Retarget c)) then Ok False
      else bind_res (smod_res (height - 1) (Interval (Retarget c))) (\<lambda>m. Ok (m = 0)))"

definition clamp :: "retarget_config \<Rightarrow> i64 \<Rightarrow> i64" where
  "clamp r next =
     (let next1 = (if sint next < sint (MinDifficulty r) then MinDifficulty r else next)
      in if sint (MaxDifficulty r) < sint next1 then MaxDifficulty r else next1)"

definition adjust :: "retarget_config \<Rightarrow> block \<Rightarrow> block \<Rightarrow> i64 \<Rightarrow> i64" where
  "adjust r first latest current =
     (let actualSeconds = Timestamp latest - Timestamp first;
          expectedSeconds = (Interval r - 1) * TargetBlockSeconds r;
          next = (if sint actualSeconds < sint (sdiv64 expectedSeconds 2) then current + 1
                  else if sint (expectedSeconds * 2) < sint actualSeconds then current - 1
                  else current)
      in clamp r next)"

definition retargetDifficulty :: "chain \<Rightarrow> i64 \<Rightarrow> i64 \<Rightarrow> ('e, i64) res" where
  "retargetDifficulty c height current =
     (let windowStart = height - Interval (Retarget c); windowEnd = height - 1
      in if sint windowStart < 1 \<or> sint (len (Blocks c)) \<le> sint windowEnd then Ok current
         else bind_res (index_at (Blocks c) windowStart) (\<lambda>first.
              bind_res (index_at (Blocks c) windowEnd) (\<lambda>latest.
              bind_res (deref latest) (\<lambda>l.
              bind_res (deref first) (\<lambda>f. Ok (adjust (Retarget c) f l current))))))"

section \<open>The schedule\<close>

text \<open>The two inner loops of \<open>ExpectedDifficulty\<close>; \<open>ruleIndex\<close> is the list of remaining rules.\<close>

fun started_rules :: "difficulty_rule list \<Rightarrow> i64 \<Rightarrow> i64 \<times> difficulty_rule list" where
  "started_rules [] current = (current, [])"
| "started_rules (r # rules) current =
     (if sint (StartHeight r) \<le> 0 then started_rules rules (RuleDifficulty r) else (current, r # rules))"

fun manual_rules :: "i64 \<Rightarrow> difficulty_rule list \<Rightarrow> i64 \<Rightarrow> bool \<Rightarrow> i64 \<times> bool \<times> difficulty_rule list" where
  "manual_rules height [] current applied = (current, applied, [])"
| "manual_rules height (r # rules) current applied =
     (if StartHeight r = height then manual_rules height rules (RuleDifficulty r) True
      else (current, applied, r # rules))"

text \<open>
  The loop over the heights; \<open>None\<close> means that it does not end. The counter wraps at the
  largest \<open>int\<close> to a negative value, as in Go, and goes on from there.
\<close>

partial_function (option) height_loop ::
  "chain \<Rightarrow> i64 \<Rightarrow> i64 \<Rightarrow> difficulty_rule list \<Rightarrow> i64 \<Rightarrow> ('e, i64) res option" where
  "height_loop c height blockHeight rules current =
     (if sint height < sint blockHeight then Some (Ok current)
      else
        (case manual_rules blockHeight rules current False of
           (current', applied, rules') \<Rightarrow>
             (case (if applied then Ok current'
                    else bind_res (shouldRetarget c blockHeight)
                           (\<lambda>due. if due then retargetDifficulty c blockHeight current' else Ok current')) of
                Ok next \<Rightarrow> height_loop c height (blockHeight + 1) rules' next
              | Err e \<Rightarrow> Some (Err e)
              | Panic p \<Rightarrow> Some (Panic p))))"

definition ExpectedDifficulty :: "chain \<Rightarrow> i64 \<Rightarrow> ('e, i64) res" where
  "ExpectedDifficulty c height =
     (if sint height < 0 then Ok DefaultDifficulty
      else
        (case started_rules (sort_slice StartHeight (DifficultySchedule c)) DefaultDifficulty of
           (current, rules) \<Rightarrow>
             (case height_loop c height 1 rules current of None \<Rightarrow> Panic EndlessLoop | Some r \<Rightarrow> r)))"


section \<open>Specification by height\<close>

text \<open>
  The difficulty of height \<open>n\<close>: the manual rule for that height, if there are several the last
  one in the order that sorting left them in; else, when the height
  starts a retarget period whose window is complete, the adjusted difficulty of the height
  before; else the difficulty of the height before.
\<close>

definition rules_at :: "chain \<Rightarrow> nat \<Rightarrow> difficulty_rule list" where
  "rules_at c n = filter (\<lambda>r. sint (StartHeight r) = int n) (sort_slice StartHeight (DifficultySchedule c))"

definition retarget_due :: "retarget_config \<Rightarrow> nat \<Rightarrow> bool" where
  "retarget_due r n \<longleftrightarrow>
     Enabled r \<and> sint (Interval r) < int n \<and> (int n - 1) mod sint (Interval r) = 0"

definition period_step :: "chain \<Rightarrow> nat \<Rightarrow> i64 \<Rightarrow> i64" where
  "period_step c n d =
     (if retarget_due (Retarget c) n \<and> n \<le> length (Blocks c)
      then adjust (Retarget c) (the (Blocks c ! (n - nat (sint (Interval (Retarget c))))))
             (the (Blocks c ! (n - 1))) d
      else d)"

definition first_difficulty :: "chain \<Rightarrow> i64" where
  "first_difficulty c =
     (case filter (\<lambda>r. sint (StartHeight r) \<le> 0) (sort_slice StartHeight (DifficultySchedule c)) of
        [] \<Rightarrow> DefaultDifficulty | rs \<Rightarrow> RuleDifficulty (last rs))"

primrec expected :: "chain \<Rightarrow> nat \<Rightarrow> i64" where
  "expected c 0 = first_difficulty c"
| "expected c (Suc n) =
     (case rules_at c (Suc n) of
        [] \<Rightarrow> period_step c (Suc n) (expected c n)
      | rs \<Rightarrow> RuleDifficulty (last rs))"

section \<open>The loops compute the specification\<close>

lemma sint_eq_nat: "n < 2 ^ 63 \<Longrightarrow> h = word_of_nat n \<longleftrightarrow> sint (h :: i64) = int n"
  using sint_inject64 [of h "word_of_nat n"] by (simp add: sint_of_nat64)

definition config_ok :: "retarget_config \<Rightarrow> bool" where
  "config_ok r \<longleftrightarrow>
     2 \<le> sint (Interval r) \<and> 0 < sint (TargetBlockSeconds r)
     \<and> 0 \<le> sint (MinDifficulty r) \<and> sint (MinDifficulty r) \<le> sint (MaxDifficulty r)
     \<and> sint (MaxDifficulty r) \<le> 64"

lemma RetargetConfig_Validate_Ok: "RetargetConfig_Validate r = Ok () \<longleftrightarrow> config_ok r"
  by (auto simp: RetargetConfig_Validate_def config_ok_def)

lemma no_panic_RetargetConfig [simp]: "no_panic (RetargetConfig_Validate r)"
  by (simp add: RetargetConfig_Validate_def)

lemma trunc_mod_nonneg: "0 \<le> a \<Longrightarrow> 0 < b \<Longrightarrow> trunc_mod a b = a mod b"
  by (cases "a = 0") (simp_all add: trunc_mod_def trunc_quot_def minus_mult_div_eq_mod)

lemma smod_nonneg:
  assumes "0 \<le> sint a" "0 < sint b"
  shows "smod_res a b = Ok (smod64 a b)" "sint (smod64 a b) = sint a mod sint b"
proof -
  from assms(2) show "smod_res a b = Ok (smod64 a b)" by (auto simp: smod_res_def)
  have "0 \<le> sint a mod sint b" "sint a mod sint b < sint b" using assms(2) by simp_all
  with sint_range64(2) [of b] show "sint (smod64 a b) = sint a mod sint b"
    unfolding smod64_def trunc_mod_nonneg [OF assms] by (intro sint_of_int64) linarith+
qed

lemma sint_zero_iff: "(a :: i64) = 0 \<longleftrightarrow> sint a = 0"
  using sint_inject64 [of a 0] by simp

lemma sint_pred_nat: "0 < n \<Longrightarrow> n < 2 ^ 63 \<Longrightarrow> sint (word_of_nat n - 1 :: i64) = int n - 1"
  by (subst sint_minus64) (simp_all add: sint_of_nat64)

lemma shouldRetarget_spec:
  assumes "config_ok (Retarget c)" "0 < n" "n < 2 ^ 63"
  shows "shouldRetarget c (word_of_nat n) = Ok (retarget_due (Retarget c) n)"
proof -
  let ?I = "Interval (Retarget c)"
  have "0 \<le> sint (word_of_nat n - 1 :: i64)" "0 < sint ?I"
    using assms by (simp_all add: sint_pred_nat config_ok_def)
  note M = smod_nonneg [OF this]
  show ?thesis
    using assms
    by (auto simp: shouldRetarget_def retarget_due_def sint_of_nat64 sint_zero_iff sint_pred_nat M)
qed

lemma retargetDifficulty_spec:
  assumes "config_ok (Retarget c)" "n < 2 ^ 63" "length (Blocks c) < 2 ^ 63"
    and "None \<notin> set (Blocks c)" "retarget_due (Retarget c) n"
  shows "retargetDifficulty c (word_of_nat n) d = Ok (period_step c n d)"
proof -
  let ?I = "Interval (Retarget c)"
  from assms(1,5) have I: "2 \<le> sint ?I" "sint ?I < int n" by (auto simp: config_ok_def retarget_due_def)
  then have n: "0 < n" by linarith
  have w: "sint (word_of_nat n - ?I) = int n - sint ?I"
    using I assms(2) by (subst sint_minus64) (simp_all add: sint_of_nat64)
  have idx: "nat (int n - sint ?I) = n - nat (sint ?I)" "nat (int n - 1) = n - 1" using I by simp_all
  have some: "i < length (Blocks c) \<Longrightarrow> Blocks c ! i = Some (the (Blocks c ! i))" for i
    using assms(4) nth_mem [of i "Blocks c"] by (cases "Blocks c ! i") auto
  show ?thesis
  proof (cases "n \<le> length (Blocks c)")
    case True
    then have "n - nat (sint ?I) < length (Blocks c)" "n - 1 < length (Blocks c)" using n I by linarith+
    then have "\<exists>x. Blocks c ! (n - nat (sint ?I)) = Some x" "\<exists>y. Blocks c ! (n - 1) = Some y"
      using some by blast+
    then obtain x y where "Blocks c ! (n - nat (sint ?I)) = Some x" "Blocks c ! (n - 1) = Some y" by blast
    with True show ?thesis
      using I n assms(5)
      by (simp add: retargetDifficulty_def period_step_def Let_def w sint_pred_nat [OF n assms(2)]
          sint_len [OF assms(3)] index_at_def idx)
  next
    case False
    then show ?thesis
      using I n assms(5)
      by (simp add: retargetDifficulty_def period_step_def Let_def w sint_pred_nat [OF n assms(2)]
          sint_len [OF assms(3)])
  qed
qed

lemma period_step_not_due: "\<not> retarget_due (Retarget c) n \<Longrightarrow> period_step c n d = d"
  by (simp add: period_step_def)

lemma started_rules_eq:
  "started_rules rules current =
     ((case takeWhile (\<lambda>r. sint (StartHeight r) \<le> 0) rules of
         [] \<Rightarrow> current | rs \<Rightarrow> RuleDifficulty (last rs)),
      dropWhile (\<lambda>r. sint (StartHeight r) \<le> 0) rules)"
  by (induction rules current rule: started_rules.induct) (auto split: list.splits)

lemma manual_rules_eq:
  "manual_rules height rules current applied =
     ((case takeWhile (\<lambda>r. StartHeight r = height) rules of
         [] \<Rightarrow> current | rs \<Rightarrow> RuleDifficulty (last rs)),
      applied \<or> takeWhile (\<lambda>r. StartHeight r = height) rules \<noteq> [],
      dropWhile (\<lambda>r. StartHeight r = height) rules)"
  by (induction height rules current applied rule: manual_rules.induct) (auto split: list.splits)

text \<open>In a sorted list the conditions of the loops are filters.\<close>

lemma sorted_takeWhile_le:
  fixes f :: "'a \<Rightarrow> int"
  assumes "sorted (map f xs)"
  shows "takeWhile (\<lambda>x. f x \<le> k) xs = filter (\<lambda>x. f x \<le> k) xs"
    "dropWhile (\<lambda>x. f x \<le> k) xs = filter (\<lambda>x. k < f x) xs"
  using assms
proof (induction xs)
  case (Cons x xs)
  { case 1
    then have "k < f x \<Longrightarrow> filter (\<lambda>y. f y \<le> k) xs = []" by (auto simp: filter_empty_conv)
    with 1 Cons.IH show ?case by auto }
  { case 2
    then have "k < f x \<Longrightarrow> filter (\<lambda>y. k < f y) xs = xs" by (auto simp: filter_id_conv)
    with 2 Cons.IH show ?case by auto }
qed simp_all

lemma sorted_takeWhile_eq:
  fixes f :: "'a \<Rightarrow> int"
  assumes "sorted (map f xs)" "\<And>x. x \<in> set xs \<Longrightarrow> k \<le> f x"
  shows "takeWhile (\<lambda>x. f x = k) xs = filter (\<lambda>x. f x = k) xs"
    "dropWhile (\<lambda>x. f x = k) xs = filter (\<lambda>x. k < f x) xs"
proof -
  have eq: "x \<in> set xs \<Longrightarrow> f x = k \<longleftrightarrow> f x \<le> k" for x using assms(2) by force
  show "takeWhile (\<lambda>x. f x = k) xs = filter (\<lambda>x. f x = k) xs"
    using sorted_takeWhile_le(1) [OF assms(1), of k] eq
    by (metis (mono_tags, lifting) filter_cong takeWhile_cong)
  show "dropWhile (\<lambda>x. f x = k) xs = filter (\<lambda>x. k < f x) xs"
    using sorted_takeWhile_le(2) [OF assms(1), of k] eq
    by (metis (mono_tags, lifting) dropWhile_cong)
qed


text \<open>Where the schedule has distinct heights, the order of its rules does not matter.\<close>

lemma rules_at_distinct:
  assumes "distinct (map StartHeight (DifficultySchedule c))"
  shows "rules_at c n = filter (\<lambda>r. sint (StartHeight r) = int n) (DifficultySchedule c)"
  by (simp add: rules_at_def sort_slice_distinct [OF assms] sort_key_stable)

lemma first_difficulty_distinct:
  assumes "distinct (map StartHeight (DifficultySchedule c))"
  shows "first_difficulty c =
    (case sort_key (\<lambda>r. sint (StartHeight r)) (filter (\<lambda>r. sint (StartHeight r) \<le> 0) (DifficultySchedule c)) of
        [] \<Rightarrow> DefaultDifficulty | rs \<Rightarrow> RuleDifficulty (last rs))"
  by (simp add: first_difficulty_def sort_slice_distinct [OF assms] filter_sort)

lemma height_loop_spec:
  assumes "config_ok (Retarget c)" "length (Blocks c) < 2 ^ 63" "None \<notin> set (Blocks c)"
  shows "0 < h \<Longrightarrow> h \<le> Suc n \<Longrightarrow> n < 2 ^ 63 - 1 \<Longrightarrow>
    height_loop c (word_of_nat n) (word_of_nat h)
      (filter (\<lambda>r. int h \<le> sint (StartHeight r)) (sort_slice StartHeight (DifficultySchedule c)))
      (expected c (h - 1)) = (Some (Ok (expected c n)) :: ('e, i64) res option)"
proof (induction "Suc n - h" arbitrary: h)
  case 0
  then have "h = Suc n" by simp
  moreover have "sint (word_of_nat n :: i64) < sint (word_of_nat (Suc n) :: i64)"
    using 0(4) by (subst (1 2) sint_of_nat64) simp_all
  ultimately show ?case by (subst height_loop.simps) simp
next
  case (Suc d)
  let ?S = "sort_slice StartHeight (DifficultySchedule c)"
  let ?R = "filter (\<lambda>r. int h \<le> sint (StartHeight r)) ?S"
  let ?w = "word_of_nat h :: i64"
  from Suc.hyps(2) Suc.prems have h: "0 < h" "h \<le> n" "h < 2 ^ 63" by simp_all
  have sorted: "sorted (map (\<lambda>r. sint (StartHeight r)) ?R)"
    using sorted_sort_slice [of StartHeight "DifficultySchedule c"] by (rule sorted_filter)
  have eq: "StartHeight r = ?w \<longleftrightarrow> sint (StartHeight r) = int h" for r :: difficulty_rule
    using h(3) by (rule sint_eq_nat)
  have T: "takeWhile (\<lambda>r. sint (StartHeight r) = int h) ?R = filter (\<lambda>r. sint (StartHeight r) = int h) ?R"
    "dropWhile (\<lambda>r. sint (StartHeight r) = int h) ?R = filter (\<lambda>r. int h < sint (StartHeight r)) ?R"
    by (rule sorted_takeWhile_eq [OF sorted]; simp)+
  have "rules_at c h = filter (\<lambda>r. sint (StartHeight r) = int h) ?S"
    by (simp add: rules_at_def)
  then have "filter (\<lambda>r. sint (StartHeight r) = int h) ?R = rules_at c h"
    by (simp only: filter_filter) (intro filter_cong; auto)
  then have tk: "takeWhile (\<lambda>r. StartHeight r = ?w) ?R = rules_at c h"
    unfolding eq T(1) .
  have dr: "dropWhile (\<lambda>r. StartHeight r = ?w) ?R
      = filter (\<lambda>r. int (Suc h) \<le> sint (StartHeight r)) ?S"
    unfolding eq T(2) filter_filter by (intro filter_cong; auto)
  from h obtain m where m: "h = Suc m" by (cases h) auto
  let ?cur = "case rules_at c h of [] \<Rightarrow> expected c m | rs \<Rightarrow> RuleDifficulty (last rs)"
  let ?next = "if rules_at c h \<noteq> [] then Ok ?cur :: ('e, i64) res
      else bind_res (shouldRetarget c ?w) (\<lambda>due. if due then retargetDifficulty c ?w ?cur else Ok ?cur)"
  have man: "manual_rules ?w ?R (expected c m) False
      = (?cur, rules_at c h \<noteq> [], filter (\<lambda>r. int (Suc h) \<le> sint (StartHeight r)) ?S)"
    unfolding manual_rules_eq tk dr by simp
  have step: "?next = Ok (expected c h)"
  proof (cases "rules_at c h")
    case Nil
    then have "expected c h = period_step c h (expected c m)" by (simp add: m)
    with Nil show ?thesis
      by (cases "retarget_due (Retarget c) h")
        (simp_all add: shouldRetarget_spec [OF assms(1) h(1,3)] period_step_not_due
          retargetDifficulty_spec [OF assms(1) h(3) assms(2,3)])
  qed (simp add: m del: of_nat_Suc)
  have "\<not> sint (word_of_nat n :: i64) < sint ?w"
    using h Suc.prems(3) by (simp add: sint_of_nat64)
  then have "(height_loop c (word_of_nat n) ?w ?R (expected c m) :: ('e, i64) res option)
    = (case ?next of Ok next \<Rightarrow> height_loop c (word_of_nat n) (?w + 1)
        (filter (\<lambda>r. int (Suc h) \<le> sint (StartHeight r)) ?S) next | Err e \<Rightarrow> Some (Err e) | Panic p \<Rightarrow> Some (Panic p))"
    by (subst height_loop.simps) (simp only: man prod.case if_False)
  also have "\<dots> = (height_loop c (word_of_nat n) (word_of_nat (Suc h)) :: _ \<Rightarrow> _ \<Rightarrow> ('e, i64) res option)
      (filter (\<lambda>r. int (Suc h) \<le> sint (StartHeight r)) ?S) (expected c h)"
    unfolding step by (simp add: add.commute)
  also have "\<dots> = Some (Ok (expected c n))"
  proof -
    have "d = Suc n - Suc h" using Suc.hyps(2) by simp
    from Suc.hyps(1) [OF this] Suc.prems h(2) show ?thesis by (simp del: of_nat_Suc)
  qed
  finally show ?case using m by simp
qed

lemma ExpectedDifficulty_expected:
  assumes "config_ok (Retarget c)" "length (Blocks c) < 2 ^ 63" "None \<notin> set (Blocks c)"
    and "n < 2 ^ 63 - 1"
  shows "ExpectedDifficulty c (word_of_nat n) = (Ok (expected c n) :: ('e, i64) res)"
proof -
  let ?S = "sort_slice StartHeight (DifficultySchedule c)"
  note T = sorted_takeWhile_le [OF sorted_sort_slice [of StartHeight "DifficultySchedule c"], of 0]
  have "filter (\<lambda>r. 0 < sint (StartHeight r)) ?S = filter (\<lambda>r. int 1 \<le> sint (StartHeight r)) ?S"
    by (auto intro: filter_cong)
  then have "started_rules ?S DefaultDifficulty
      = (expected c 0, filter (\<lambda>r. int 1 \<le> sint (StartHeight r)) ?S)"
    unfolding started_rules_eq T by (simp add: first_difficulty_def)
  moreover have "\<not> sint (word_of_nat n :: i64) < 0" using assms(4) by (simp add: sint_of_nat64)
  ultimately show ?thesis
    using height_loop_spec [OF assms(1-3), of 1 n, where ?'e = 'e] assms(4) by (simp add: ExpectedDifficulty_def)
qed


text \<open>
  Under a valid policy no pass of the loop stops it, at any value of the counter, so only
  the counter can: at the largest height it never does.
\<close>

lemma shouldRetarget_low:
  assumes "config_ok (Retarget c)" "sint h \<le> 0"
  shows "shouldRetarget c h = Ok False"
  using assms by (simp add: shouldRetarget_def config_ok_def)

lemma height_pass:
  assumes "config_ok (Retarget c)" "length (Blocks c) < 2 ^ 63" "None \<notin> set (Blocks c)"
  shows "\<exists>x. bind_res (shouldRetarget c h) (\<lambda>due. if due then retargetDifficulty c h cur else Ok cur)
    = (Ok x :: ('e, i64) res)"
proof (cases "sint h \<le> 0")
  case False
  let ?n = "nat (sint h)"
  have n: "0 < ?n" "?n < 2 ^ 63" "h = word_of_nat ?n" using False sint_range64(2) [of h] by simp_all
  have "shouldRetarget c h = (Ok (retarget_due (Retarget c) ?n) :: ('e, bool) res)"
    using shouldRetarget_spec [OF assms(1) n(1,2)] n(3) by simp
  moreover have "retarget_due (Retarget c) ?n \<Longrightarrow> retargetDifficulty c h cur = (Ok (period_step c ?n cur) :: ('e, i64) res)"
    using retargetDifficulty_spec [OF assms(1) n(2) assms(2,3)] n(3) by simp
  ultimately show ?thesis by simp
qed (simp add: shouldRetarget_low [OF assms(1)])

lemma height_loop_endless:
  assumes "config_ok (Retarget c)" "length (Blocks c) < 2 ^ 63" "None \<notin> set (Blocks c)"
  shows "height_loop c max_int h rules current = (None :: ('e, i64) res option)"
proof (rule ccontr)
  assume "height_loop c max_int h rules current \<noteq> (None :: ('e, i64) res option)"
  then obtain r where r: "height_loop c max_int h rules current = (Some r :: ('e, i64) res option)" by blast
  have "\<not> (max_int = max_int \<and> c = c)"
  proof (rule height_loop.raw_induct [where P = "\<lambda>d height _ _ _ _. \<not> (height = max_int \<and> d = c)", OF _ r])
    fix f d height h rules cur and r :: "('e, i64) res"
    assume IH: "\<And>d height h rules cur r. f d height h rules cur = Some r \<Longrightarrow> \<not> (height = max_int \<and> d = c)"
      and step: "(if sint height < sint h then Some (Ok cur)
          else case manual_rules h rules cur False of (current', applied, rules') \<Rightarrow>
             (case (if applied then Ok current'
                    else bind_res (shouldRetarget d h) (\<lambda>due. if due then retargetDifficulty d h current' else Ok current')) of
                Ok next \<Rightarrow> f d height (h + 1) rules' next | Err e \<Rightarrow> Some (Err e) | Panic p \<Rightarrow> Some (Panic p))) = Some r"
    show "\<not> (height = max_int \<and> d = c)"
    proof
      assume "height = max_int \<and> d = c"
      then have *: "height = max_int" "d = c" by simp_all
      obtain cur' applied rules' where man: "manual_rules h rules cur False = (cur', applied, rules')" by (rule prod_cases3)
      obtain x where "bind_res (shouldRetarget c h) (\<lambda>due. if due then retargetDifficulty c h cur' else Ok cur')
          = (Ok x :: ('e, i64) res)"
        using height_pass [OF assms] by blast
      moreover have "\<not> sint height < sint h" using * sint_range64(2) [of h] by simp
      ultimately have "\<exists>y. f d height (h + 1) rules' y = Some r" using step man * by (auto split: if_splits)
      with IH * show False by blast
    qed
  qed
  then show False by simp
qed

lemma ExpectedDifficulty_endless:
  assumes "config_ok (Retarget c)" "length (Blocks c) < 2 ^ 63" "None \<notin> set (Blocks c)"
  shows "ExpectedDifficulty c max_int = (Panic EndlessLoop :: ('e, i64) res)"
  by (simp add: ExpectedDifficulty_def height_loop_endless [OF assms] split: prod.split)

section \<open>Locality and bounds\<close>

lemma expected_cong:
  assumes "DifficultySchedule c' = DifficultySchedule c" "Retarget c' = Retarget c"
    and "config_ok (Retarget c)"
    and "\<And>i. i < n \<Longrightarrow> i < length (Blocks c) \<longleftrightarrow> i < length (Blocks c')"
    and "\<And>i. i < n \<Longrightarrow> i < length (Blocks c) \<Longrightarrow> Blocks c' ! i = Blocks c ! i"
  shows "expected c' n = expected c n"
  using assms(4,5)
proof (induction n)
  case 0
  then show ?case by (simp add: first_difficulty_def assms(1))
next
  case (Suc n)
  then have IH: "expected c' n = expected c n" by simp
  have len: "Suc n \<le> length (Blocks c') \<longleftrightarrow> Suc n \<le> length (Blocks c)"
    using Suc.prems(1) [of n] by (simp add: Suc_le_eq)
  have "period_step c' (Suc n) d = period_step c (Suc n) d" for d
  proof (cases "retarget_due (Retarget c) (Suc n) \<and> Suc n \<le> length (Blocks c)")
    case True
    let ?i = "Suc n - nat (sint (Interval (Retarget c)))"
    have "?i < Suc n" using assms(3) by (simp add: config_ok_def)
    with True Suc.prems(2) [of ?i] Suc.prems(2) [of n] len show ?thesis
      by (simp add: period_step_def assms(2))
  next
    case False
    with len show ?thesis by (auto simp: period_step_def assms(2))
  qed
  with IH show ?case by (simp add: rules_at_def assms(1) split: list.splits)
qed


definition rules_ok :: "difficulty_rule list \<Rightarrow> bool" where
  "rules_ok rs \<longleftrightarrow> (\<forall>r\<in>set rs. 0 \<le> sint (RuleDifficulty r) \<and> sint (RuleDifficulty r) \<le> 64)"

lemma last_rule_ok:
  assumes "rules_ok rs" "set xs \<subseteq> set rs" "xs \<noteq> []"
  shows "0 \<le> sint (RuleDifficulty (last xs)) \<and> sint (RuleDifficulty (last xs)) \<le> 64"
  using assms last_in_set [OF assms(3)] unfolding rules_ok_def by blast

lemma clamp_bounds:
  assumes "config_ok r"
  shows "sint (MinDifficulty r) \<le> sint (clamp r d) \<and> sint (clamp r d) \<le> sint (MaxDifficulty r)"
  using assms by (simp add: clamp_def config_ok_def Let_def)

lemma adjust_bounds:
  assumes "config_ok r"
  shows "sint (MinDifficulty r) \<le> sint (adjust r f l d) \<and> sint (adjust r f l d) \<le> sint (MaxDifficulty r)"
  using clamp_bounds [OF assms] unfolding adjust_def Let_def by blast

lemma expected_bounds:
  assumes "rules_ok (DifficultySchedule c)" "config_ok (Retarget c)"
  shows "0 \<le> sint (expected c n) \<and> sint (expected c n) \<le> 64"
proof (induction n)
  case 0
  let ?f = "filter (\<lambda>r. sint (StartHeight r) \<le> 0) (sort_slice StartHeight (DifficultySchedule c))"
  have "set ?f \<subseteq> set (DifficultySchedule c)" by auto
  from last_rule_ok [OF assms(1) this] show ?case
    by (cases ?f) (simp_all add: first_difficulty_def DefaultDifficulty_def)
next
  case (Suc n)
  have "set (rules_at c (Suc n)) \<subseteq> set (DifficultySchedule c)" by (auto simp: rules_at_def)
  note last_rule_ok [OF assms(1) this]
  moreover have "0 \<le> sint (period_step c (Suc n) (expected c n)) \<and> sint (period_step c (Suc n) (expected c n)) \<le> 64"
  proof (cases "retarget_due (Retarget c) (Suc n) \<and> Suc n \<le> length (Blocks c)")
    case True
    then show ?thesis using assms(2) adjust_bounds [OF assms(2)]
      by (auto simp: period_step_def config_ok_def intro: order_trans)
  qed (use Suc in \<open>auto simp: period_step_def\<close>)
  ultimately show ?case by (cases "rules_at c (Suc n)") simp_all
qed

lemma ExpectedDifficulty_height:
  assumes "config_ok (Retarget c)" "length (Blocks c) < 2 ^ 63" "None \<notin> set (Blocks c)" "height \<noteq> max_int"
  shows "ExpectedDifficulty c height
    = (Ok (if sint height < 0 then DefaultDifficulty else expected c (nat (sint height))) :: ('e, i64) res)"
proof (cases "sint height < 0")
  case True
  then show ?thesis by (simp add: ExpectedDifficulty_def)
next
  case False
  let ?n = "nat (sint height)"
  have "sint height \<noteq> 2 ^ 63 - 1" using assms(4) sint_inject64 [of height max_int] by simp
  then have "sint height < 2 ^ 63 - 1" using sint_range64(2) [of height] by linarith
  then have "?n < 2 ^ 63 - 1" using False by simp
  moreover have "height = word_of_nat ?n" using False by simp
  ultimately show ?thesis using ExpectedDifficulty_expected [of c ?n] assms False by simp
qed

text \<open>The adjustment, over the integers where nothing overflows.\<close>

lemma adjust_exact:
  fixes e a :: int
  assumes "config_ok r" "0 \<le> sint (Timestamp f)" "sint (Timestamp f) \<le> sint (Timestamp l)"
    and "2 * ((sint (Interval r) - 1) * sint (TargetBlockSeconds r)) < 2 ^ 63" "0 \<le> sint d" "sint d \<le> 64"
  defines "e \<equiv> (sint (Interval r) - 1) * sint (TargetBlockSeconds r)"
    and "a \<equiv> sint (Timestamp l) - sint (Timestamp f)"
  shows "sint (adjust r f l d) = min (sint (MaxDifficulty r)) (max (sint (MinDifficulty r))
    (sint d + (if a < e div 2 then 1 else if 2 * e < a then - 1 else 0)))"
proof -
  from assms(1) have cfg: "2 \<le> sint (Interval r)" "0 < sint (TargetBlockSeconds r)" by (simp_all add: config_ok_def)
  then have pos: "0 \<le> e" by (simp add: e_def)
  have small: "2 * e < 2 ^ 63" using assms(4) by (simp add: e_def)
  have act: "sint (Timestamp l - Timestamp f) = a"
    using assms(2,3) sint_range64(2) [of "Timestamp l"] by (subst sint_minus64) (simp_all add: a_def)
  have i: "sint (Interval r - 1) = sint (Interval r) - 1"
    using cfg(1) sint_range64(2) [of "Interval r"] by (subst sint_minus64) simp_all
  have ex: "sint ((Interval r - 1) * TargetBlockSeconds r) = e"
    using pos small by (subst sint_times64) (simp_all only: i e_def)
  then have dbl: "sint ((Interval r - 1) * TargetBlockSeconds r * 2) = 2 * e"
    using pos small by (subst sint_times64) simp_all
  have half: "sint (sdiv64 ((Interval r - 1) * TargetBlockSeconds r) 2) = e div 2"
  proof -
    have "trunc_quot e 2 = e div 2" using pos by (cases "e = 0") (simp_all add: trunc_quot_def)
    then show ?thesis using pos small by (simp add: sdiv64_def ex) (subst sint_of_int64; simp)
  qed
  have d: "sint (d + 1) = sint d + 1" "sint (d - 1) = sint d - 1"
    using assms(5,6) by (subst sint_plus64 sint_minus64; simp)+
  show ?thesis
    using assms(1) by (simp add: adjust_def clamp_def Let_def act dbl half d config_ok_def)
qed

definition sample_rules :: chain where
  "sample_rules =
     \<lparr>Blocks = map (\<lambda>t. Some (zero_block\<lparr>Timestamp := t\<rparr>)) [0, 0, 1, 2],
      Pending = [], DifficultySchedule = [\<lparr>StartHeight = 2, RuleDifficulty = 3\<rparr>, \<lparr>StartHeight = 0, RuleDifficulty = 2\<rparr>],
      Retarget = \<lparr>Enabled = True, Interval = 3, TargetBlockSeconds = 10, MinDifficulty = 1, MaxDifficulty = 8\<rparr>,
      MaxTxPerBlock = 10\<rparr>"

lemma sample_rules_ok:
  "RetargetConfig_Validate (Retarget sample_rules) = Ok ()" "length (Blocks sample_rules) < 2 ^ 63"
  "None \<notin> set (Blocks sample_rules)" "DifficultySchedule sample_rules \<noteq> []" "rules_ok (DifficultySchedule sample_rules)"
  "config_ok (Retarget sample_rules)"
  by (auto simp: sample_rules_def RetargetConfig_Validate_def rules_ok_def config_ok_def)

lemma sample_expected: "expected sample_rules 4 = 4"
  by (simp add: eval_nat_numeral rules_at_def sample_rules_def period_step_def retarget_due_def
      first_difficulty_def adjust_def clamp_def Let_def sdiv64_def trunc_quot_def sort_slice_def)

section \<open>Properties\<close>

text \<open>
  C24. The expected difficulty, computed by one loop over a sorted copy of the rules, is the
  specification by height: the manual rule of the height wins, else a due retarget
  adjusts the difficulty of the previous height, else that difficulty is kept. A negative
  height gives the default. Of several rules for one height, which a crafted file may have, the
  one that sorting puts last wins, and Go does not specify which that is.
\<close>

theorem ExpectedDifficulty_by_height:
  assumes "RetargetConfig_Validate (Retarget c) = Ok ()" "length (Blocks c) < 2 ^ 63"
    and "None \<notin> set (Blocks c)" "height \<noteq> max_int"
  shows "ExpectedDifficulty c height
    = Ok (if sint height < 0 then DefaultDifficulty else expected c (nat (sint height)))"
  using ExpectedDifficulty_height [OF _ assms(2-4)] assms(1) by (simp add: RetargetConfig_Validate_Ok)

theorem ExpectedDifficulty_by_height_witness: "ExpectedDifficulty sample_rules 4 = Ok 4"
proof -
  have "(4 :: i64) \<noteq> max_int" by (simp add: max_int_def)
  from ExpectedDifficulty_by_height [OF sample_rules_ok(1-3) this] show ?thesis by (simp add: sample_expected)
qed

text \<open>
  The difficulty of a height depends only on the blocks below it: adding blocks never
  changes what is expected of a block that is already in the chain, or of the next one.
\<close>

theorem expected_is_stable:
  assumes "RetargetConfig_Validate (Retarget c) = Ok ()" "n \<le> length (Blocks c)"
  shows "expected (c\<lparr>Blocks := Blocks c @ bs\<rparr>) n = expected c n"
  using assms by (intro expected_cong) (auto simp: RetargetConfig_Validate_Ok nth_append)

theorem expected_is_stable_witness:
  "expected (sample_rules\<lparr>Blocks := Blocks sample_rules @ [Some zero_block]\<rparr>) 4 = 4"
  using expected_is_stable [OF sample_rules_ok(1), of 4 "[Some zero_block]"] sample_expected
  by (simp add: sample_rules_def)



text \<open>
  C40. What a retarget does: at a due height without a manual rule whose window is complete,
  with times that do not go back and a target small enough not to overflow, the difficulty
  is that of the height before, one more if the window took less than half its target time,
  one less if it took more than twice that, and then brought into the policy's limits.
\<close>

theorem retarget_at_height:
  fixes n :: nat and e a :: int
  assumes "rules_ok (DifficultySchedule c)" "RetargetConfig_Validate (Retarget c) = Ok ()"
    and "length (Blocks c) < 2 ^ 63 - 1" "None \<notin> set (Blocks c)"
    and "retarget_due (Retarget c) n" "n \<le> length (Blocks c)" "\<forall>r\<in>set (DifficultySchedule c). sint (StartHeight r) \<noteq> int n"
    and "Blocks c ! (n - nat (sint (Interval (Retarget c)))) = Some f" "Blocks c ! (n - 1) = Some l"
    and "0 \<le> sint (Timestamp f)" "sint (Timestamp f) \<le> sint (Timestamp l)"
    and "e = (sint (Interval (Retarget c)) - 1) * sint (TargetBlockSeconds (Retarget c))" "2 * e < 2 ^ 63"
    and "a = sint (Timestamp l) - sint (Timestamp f)"
    and "ExpectedDifficulty c (word_of_nat (n - 1)) = (Ok d :: ('e, i64) res)"
  shows "\<exists>d'. ExpectedDifficulty c (word_of_nat n) = (Ok d' :: ('e, i64) res)
    \<and> sint d' = min (sint (MaxDifficulty (Retarget c))) (max (sint (MinDifficulty (Retarget c)))
        (sint d + (if a < e div 2 then 1 else if 2 * e < a then - 1 else 0)))"
proof -
  have cfg: "config_ok (Retarget c)" using assms(2) by (simp add: RetargetConfig_Validate_Ok)
  then have n: "0 < n" using assms(5) by (auto simp: retarget_due_def config_ok_def)
  then obtain m where m: "n = Suc m" by (cases n) simp_all
  have "ExpectedDifficulty c (word_of_nat k) = (Ok (expected c k) :: ('e, i64) res)" if "k \<le> n" for k
    using ExpectedDifficulty_expected [OF cfg _ assms(4), of k, where ?'e = 'e] assms(3,6) that by simp
  from this [of m] this [of n] assms(15) m have
    d: "d = expected c m" "ExpectedDifficulty c (word_of_nat n) = (Ok (expected c n) :: ('e, i64) res)" by simp_all
  have "rules_at c (Suc m) = []" using assms(7) m by (simp add: rules_at_def filter_empty_conv)
  then have "expected c n = adjust (Retarget c) f l d"
    using assms(5,6,8,9) d(1) m by (simp add: period_step_def)
  moreover have "0 \<le> sint d" "sint d \<le> 64" using expected_bounds [OF assms(1) cfg] d(1) by simp_all
  ultimately show ?thesis
    using adjust_exact [OF cfg assms(10,11) _ , of d] assms(12-14) d(2) by simp
qed

theorem retarget_at_height_witness: "ExpectedDifficulty sample_rules 4 = (Ok 4 :: (unit, i64) res)"
proof -
  have d: "ExpectedDifficulty sample_rules (word_of_nat (4 - 1)) = (Ok (expected sample_rules (4 - 1)) :: (unit, i64) res)"
    by (rule ExpectedDifficulty_expected [OF sample_rules_ok(6,2,3)]) simp
  have three: "expected sample_rules 3 = 3"
    by (simp add: eval_nat_numeral rules_at_def sample_rules_def period_step_def retarget_due_def
        first_difficulty_def sort_slice_def)
  have "retarget_due (Retarget sample_rules) 4" "length (Blocks sample_rules) < 2 ^ 63 - 1" "4 \<le> length (Blocks sample_rules)"
    "\<forall>r\<in>set (DifficultySchedule sample_rules). sint (StartHeight r) \<noteq> int 4"
    "Blocks sample_rules ! (4 - nat (sint (Interval (Retarget sample_rules)))) = Some (zero_block\<lparr>Timestamp := 0\<rparr>)"
    "Blocks sample_rules ! (4 - 1) = Some (zero_block\<lparr>Timestamp := 2\<rparr>)"
    by (simp_all add: retarget_due_def sample_rules_def)
  note R = retarget_at_height [OF sample_rules_ok(5,1) this(2) sample_rules_ok(3) this(1,3-6) _ _ refl _ refl d]
  have "sint (Interval (Retarget sample_rules)) = 3" "sint (TargetBlockSeconds (Retarget sample_rules)) = 10"
    "sint (MinDifficulty (Retarget sample_rules)) = 1" "sint (MaxDifficulty (Retarget sample_rules)) = 8"
    by (simp_all add: sample_rules_def)
  with R obtain d' where d': "ExpectedDifficulty sample_rules (word_of_nat 4) = (Ok d' :: (unit, i64) res)" "sint d' = 4"
    by (auto simp: three)
  then have "d' = 4" using sint_inject64 [of d' 4] by simp
  with d'(1) show ?thesis by simp
qed

text \<open>
  The retarget arithmetic can overflow under a policy that validation accepts: with a
  target of \<open>2^62\<close> seconds, two blocks one second apart lower the difficulty, although
  blocks that fast should raise it.
\<close>

theorem retarget_overflows:
  "\<exists>r f l. RetargetConfig_Validate r = Ok () \<and> 0 \<le> sint (Timestamp f) \<and> sint (Timestamp f) \<le> sint (Timestamp l)
     \<and> 2 * (sint (Timestamp l) - sint (Timestamp f)) < (sint (Interval r) - 1) * sint (TargetBlockSeconds r)
     \<and> adjust r f l 5 = 4"
proof (intro exI conjI)
  let ?r = "\<lparr>Enabled = True, Interval = 3, TargetBlockSeconds = 2 ^ 62, MinDifficulty = 1, MaxDifficulty = 8\<rparr>"
  let ?l = "zero_block\<lparr>Timestamp := 1\<rparr>"
  show "RetargetConfig_Validate ?r = Ok ()" by (simp add: RetargetConfig_Validate_def)
  show "0 \<le> sint (Timestamp zero_block)" "sint (Timestamp zero_block) \<le> sint (Timestamp ?l)"
    by (simp_all add: zero_block_def)
  show "2 * (sint (Timestamp ?l) - sint (Timestamp zero_block))
      < (sint (Interval ?r) - 1) * sint (TargetBlockSeconds ?r)" by (simp add: zero_block_def)
  show "adjust ?r zero_block ?l 5 = 4"
    by (simp add: adjust_def clamp_def Let_def sdiv64_def trunc_quot_def zero_block_def)
qed

end
