(* ===== verification/Chain.thy ===== *)
theory Chain
  imports DifficultyRules
begin

text \<open>
  The chain of \<open>src/chain/chain.go\<close>: creation, the pending pool, mining a block, manual and
  automatic difficulty settings and full validation. \<open>DifficultyRules\<close> has the data and
  the difficulty rules, \<open>ChainFile\<close> the file format, \<open>Fork\<close> the resolution of forks.
\<close>

datatype chain_error =
    InvalidRetargetConfig retarget_error
  | InitialBelowMinimum i64 i64
  | InitialAboveMaximum i64 i64
  | MiningGenesis mine_error
  | MiningFailed mine_error
  | DifficultyOutOfRange
  | RebuildingLedger ledger_error
  | InvalidPendingPool ledger_error
  | RejectedTransaction ledger_error
  | NoPendingTransactions
  | RetargetAfterMining

section \<open>Operations\<close>

text \<open>Mining may not have returned yet when the schedule ends, hence the options (see \<open>Mine\<close>).\<close>

definition NewWithRetarget ::
  "mine_env \<Rightarrow> i64 \<Rightarrow> i64 \<Rightarrow> mining_limits \<Rightarrow> retarget_config \<Rightarrow> (chain_error, chain) res option" where
  "NewWithRetarget env difficulty maxTxPerBlock limits retarget =
     (let d = (if sint difficulty < 0 then DefaultDifficulty else difficulty);
          m = (if sint maxTxPerBlock \<le> 0 then DefaultMaxTxPerBlock else maxTxPerBlock)
      in case RetargetConfig_Validate retarget of
           Panic p \<Rightarrow> Some (Panic p)
         | Err e \<Rightarrow> Some (Err (InvalidRetargetConfig e))
         | Ok _ \<Rightarrow>
             if sint d < sint (MinDifficulty retarget) then Some (Err (InitialBelowMinimum d (MinDifficulty retarget)))
             else if sint (MaxDifficulty retarget) < sint d then Some (Err (InitialAboveMaximum d (MaxDifficulty retarget)))
             else map_option
               (\<lambda>r. bind_res (map_err MiningGenesis r) (\<lambda>genesis.
                  Ok \<lparr>Blocks = [Some genesis], Pending = [],
                      DifficultySchedule = [\<lparr>StartHeight = 0, RuleDifficulty = d\<rparr>],
                      Retarget = retarget, MaxTxPerBlock = m\<rparr>))
               (NewGenesisBlock env d limits))"

definition New :: "mine_env \<Rightarrow> i64 \<Rightarrow> i64 \<Rightarrow> mining_limits \<Rightarrow> (chain_error, chain) res option" where
  "New env difficulty maxTxPerBlock limits =
     NewWithRetarget env difficulty maxTxPerBlock limits DefaultRetargetConfig"

definition Latest :: "chain \<Rightarrow> ('e, block option) res" where
  "Latest c = index_at (Blocks c) (len (Blocks c) - 1)"

definition Ledger :: "ed25519 \<Rightarrow> chain \<Rightarrow> (ledger_error, ledger) res" where
  "Ledger ed c = Rebuild ed (Blocks c)"

fun update_rule :: "i64 \<Rightarrow> i64 \<Rightarrow> difficulty_rule list \<Rightarrow> difficulty_rule list option" where
  "update_rule startHeight difficulty [] = None"
| "update_rule startHeight difficulty (r # rules) =
     (if StartHeight r = startHeight then Some (r\<lparr>RuleDifficulty := difficulty\<rparr> # rules)
      else map_option ((#) r) (update_rule startHeight difficulty rules))"

definition SetDifficulty :: "i64 \<Rightarrow> chain \<Rightarrow> (chain_error, chain) res" where
  "SetDifficulty difficulty c =
     (if sint difficulty < 0 \<or> 64 < sint difficulty then Err DifficultyOutOfRange
      else bind_res (bind_res (Latest c) deref) (\<lambda>latest.
        let startHeight = Height latest + 1
        in case update_rule startHeight difficulty (DifficultySchedule c) of
             Some rules \<Rightarrow> Ok (c\<lparr>DifficultySchedule := rules\<rparr>)
           | None \<Rightarrow> Ok (c\<lparr>DifficultySchedule := DifficultySchedule c
                @ [\<lparr>StartHeight = startHeight, RuleDifficulty = difficulty\<rparr>]\<rparr>)))"

definition AddTransaction :: "ed25519 \<Rightarrow> transaction \<Rightarrow> chain \<Rightarrow> (chain_error, chain) res" where
  "AddTransaction ed tx c =
     bind_res (map_err RebuildingLedger (Ledger ed c)) (\<lambda>l.
     bind_res (map_err InvalidPendingPool (fold_res (Apply ed) (Pending c) l)) (\<lambda>l'.
     bind_res (map_err RejectedTransaction (ValidateTransaction ed l' tx)) (\<lambda>_.
     Ok (c\<lparr>Pending := Pending c @ [tx]\<rparr>))))"

definition MineBlock ::
  "mine_env \<Rightarrow> mining_limits \<Rightarrow> chain \<Rightarrow> (chain_error, chain \<times> block \<times> mine_result) res option" where
  "MineBlock env limits c =
     (if Pending c = [] then Some (Err NoPendingTransactions)
      else
        (let transactionCount =
               (if sint (MaxTxPerBlock c) < sint (len (Pending c)) then MaxTxPerBlock c else len (Pending c))
         in if sint transactionCount < 0 then Some (Panic SliceOutOfRange)
            else
              (let n = nat (sint transactionCount); batch = take n (Pending c)
               in case bind_res (bind_res (Latest c) deref) (\<lambda>previous.
                         bind_res (ExpectedDifficulty c (Height previous + 1)) (\<lambda>expectedDifficulty.
                         Ok (NewBlock (Now env) (Height previous + 1) batch (Hash previous) expectedDifficulty))) of
                    Panic p \<Rightarrow> Some (Panic p)
                  | Err e \<Rightarrow> Some (Err e)
                  | Ok newBlock \<Rightarrow>
                      map_option
                        (\<lambda>r. bind_res (map_err MiningFailed r) (\<lambda>(mined, result).
                           Ok (c\<lparr>Blocks := Blocks c @ [Some mined], Pending := drop n (Pending c)\<rparr>, mined, result)))
                        (Mine env limits newBlock))))"

definition ConfigureRetarget :: "retarget_config \<Rightarrow> chain \<Rightarrow> (chain_error, chain) res" where
  "ConfigureRetarget config c =
     bind_res (if length (Blocks c) \<noteq> 1 then Ok True
               else bind_res (deref (Blocks c ! 0)) (\<lambda>b. Ok (Height b \<noteq> 0)))
       (\<lambda>late. if late then Err RetargetAfterMining
          else bind_res (map_err InvalidRetargetConfig (RetargetConfig_Validate config))
                 (\<lambda>_. Ok (c\<lparr>Retarget := config\<rparr>)))"

definition NextRetargetHeight :: "chain \<Rightarrow> ('e, i64) res" where
  "NextRetargetHeight c =
     (if \<not> Enabled (Retarget c) then Ok (- 1)
      else bind_res (bind_res (Latest c) deref) (\<lambda>latest.
        let interval = Interval (Retarget c);
            nextHeight = Height latest + 1;
            firstRetargetHeight = interval + 1
        in if sint nextHeight \<le> sint firstRetargetHeight then Ok firstRetargetHeight
           else bind_res (smod_res (nextHeight - firstRetargetHeight) interval) (\<lambda>offset.
             if offset = 0 then Ok nextHeight else Ok (nextHeight + (interval - offset)))))"

section \<open>Validation\<close>

datatype validation_reason =
    ChainEmpty
  | ScheduleEmpty
  | RetargetInvalid retarget_error
  | DifficultyMismatch i64 i64
  | MerkleRootMismatch
  | HashMismatch
  | HashNotDifficult
  | GenesisHeight
  | GenesisPrevious
  | HeightSequence
  | TimestampEarlier
  | PreviousHashMismatch
  | TransactionInvalid ledger_error

datatype validation_error = ValidationError i64 validation_reason

text \<open>The checks against the previous block, or against the fixed genesis values.\<close>

definition validate_link :: "chain \<Rightarrow> nat \<Rightarrow> block \<Rightarrow> (validation_error, unit) res" where
  "validate_link c index b =
     (if index = 0 then
        (if Height b \<noteq> 0 then Err (ValidationError (Height b) GenesisHeight)
         else if PrevHash b \<noteq> GenesisPrevHash then Err (ValidationError (Height b) GenesisPrevious)
         else Ok ())
      else bind_res (deref (Blocks c ! (index - 1))) (\<lambda>previous.
        if Height b \<noteq> Height previous + 1 then Err (ValidationError (Height b) HeightSequence)
        else if sint (Timestamp b) < sint (Timestamp previous) then Err (ValidationError (Height b) TimestampEarlier)
        else if PrevHash b \<noteq> Hash previous then Err (ValidationError (Height b) PreviousHashMismatch)
        else Ok ()))"

definition validate_block :: "ed25519 \<Rightarrow> chain \<Rightarrow> nat \<Rightarrow> ledger \<Rightarrow> (validation_error, ledger) res" where
  "validate_block ed c index l =
     bind_res (deref (Blocks c ! index)) (\<lambda>b.
     bind_res (ExpectedDifficulty c (Height b)) (\<lambda>d.
       if Difficulty b \<noteq> d then Err (ValidationError (Height b) (DifficultyMismatch (Difficulty b) d))
       else if MerkleRoot b \<noteq> CalculateMerkleRoot (Transactions b) then Err (ValidationError (Height b) MerkleRootMismatch)
       else if ComputeHash b \<noteq> Hash b then Err (ValidationError (Height b) HashMismatch)
       else if \<not> MeetsDifficulty (Hash b) d then Err (ValidationError (Height b) HashNotDifficult)
       else bind_res (validate_link c index b) (\<lambda>_.
         map_err (\<lambda>e. ValidationError (Height b) (TransactionInvalid e)) (ApplyBlock ed (Some b) l))))"

definition Validate :: "ed25519 \<Rightarrow> chain \<Rightarrow> (validation_error, unit) res" where
  "Validate ed c =
     (if Blocks c = [] then Err (ValidationError (- 1) ChainEmpty)
      else if DifficultySchedule c = [] then Err (ValidationError (- 1) ScheduleEmpty)
      else bind_res (map_err (\<lambda>e. ValidationError (- 1) (RetargetInvalid e)) (RetargetConfig_Validate (Retarget c)))
        (\<lambda>_. bind_res (fold_res (validate_block ed c) [0..<length (Blocks c)] ledger_New) (\<lambda>_. Ok ())))"


section \<open>What validation establishes\<close>

definition block_ok :: "chain \<Rightarrow> block list \<Rightarrow> nat \<Rightarrow> bool" where
  "block_ok c bs i \<longleftrightarrow>
     Height (bs ! i) = word_of_nat i \<and> Difficulty (bs ! i) = expected c i
     \<and> MerkleRoot (bs ! i) = CalculateMerkleRoot (Transactions (bs ! i))
     \<and> Hash (bs ! i) = ComputeHash (bs ! i)
     \<and> MeetsDifficulty (Hash (bs ! i)) (Difficulty (bs ! i))
     \<and> PrevHash (bs ! i) = (if i = 0 then GenesisPrevHash else Hash (bs ! (i - 1)))
     \<and> (0 < i \<longrightarrow> sint (Timestamp (bs ! (i - 1))) \<le> sint (Timestamp (bs ! i)))"

definition valid_chain :: "ed25519 \<Rightarrow> chain \<Rightarrow> block list \<Rightarrow> bool" where
  "valid_chain ed c bs \<longleftrightarrow>
     Blocks c = map Some bs \<and> bs \<noteq> [] \<and> DifficultySchedule c \<noteq> [] \<and> config_ok (Retarget c)
     \<and> (\<forall>i<length bs. block_ok c bs i) \<and> is_Ok (Rebuild ed (map Some bs))"

lemma validate_link_Ok:
  assumes "Blocks c = map Some bs" "i < length bs" "0 < i \<Longrightarrow> Height (bs ! (i - 1)) = word_of_nat (i - 1)"
  shows "validate_link c i b = Ok () \<longleftrightarrow>
    Height b = word_of_nat i \<and> PrevHash b = (if i = 0 then GenesisPrevHash else Hash (bs ! (i - 1)))
    \<and> (0 < i \<longrightarrow> sint (Timestamp (bs ! (i - 1))) \<le> sint (Timestamp b))"
proof (cases i)
  case 0
  then show ?thesis by (auto simp: validate_link_def)
next
  case (Suc j)
  with assms show ?thesis by (auto simp: validate_link_def add.commute)
qed

lemma validate_block_Ok:
  assumes "Blocks c = map Some bs" "config_ok (Retarget c)" "length bs < 2 ^ 63" "i < length bs"
    and "\<And>j. j < i \<Longrightarrow> block_ok c bs j"
  shows "validate_block ed c i l = Ok l' \<longleftrightarrow> block_ok c bs i \<and> ApplyBlock ed (Some (bs ! i)) l = Ok l'"
proof -
  let ?b = "bs ! i"
  have "0 < i \<Longrightarrow> Height (bs ! (i - 1)) = word_of_nat (i - 1)" using assms(5) [of "i - 1"] by (simp add: block_ok_def)
  note L = validate_link_Ok [OF assms(1,4) this, of ?b]
  have "ExpectedDifficulty c (word_of_nat i) = (Ok (expected c i) :: (validation_error, i64) res)"
    using assms by (intro ExpectedDifficulty_expected) auto
  then have E: "validate_link c i ?b = Ok () \<Longrightarrow>
      ExpectedDifficulty c (Height ?b) = (Ok (expected c i) :: (validation_error, i64) res)"
    using L by simp
  show ?thesis
  proof
    assume v: "validate_block ed c i l = Ok l'"
    then have link: "validate_link c i ?b = Ok ()"
      by (auto simp: validate_block_def assms(1,4) bind_res_eq_Ok split: if_splits)
    with v E L show "block_ok c bs i \<and> ApplyBlock ed (Some ?b) l = Ok l'"
      by (auto simp: validate_block_def assms(1,4) bind_res_eq_Ok block_ok_def split: if_splits)
  next
    assume b: "block_ok c bs i \<and> ApplyBlock ed (Some ?b) l = Ok l'"
    with L have "validate_link c i ?b = Ok ()" by (simp add: block_ok_def)
    moreover from b have "MeetsDifficulty (Hash ?b) (expected c i)" "ComputeHash ?b = Hash ?b"
      by (auto simp: block_ok_def)
    ultimately show "validate_block ed c i l = Ok l'"
      using b E by (simp add: validate_block_def assms(1,4) block_ok_def)
  qed
qed

lemma validate_loop_Ok:
  assumes "Blocks c = map Some bs" "config_ok (Retarget c)" "length bs < 2 ^ 63"
  shows "k \<le> length bs \<Longrightarrow>
    fold_res (validate_block ed c) [0..<k] ledger_New = Ok l
    \<longleftrightarrow> (\<forall>i<k. block_ok c bs i) \<and> Rebuild ed (map Some (take k bs)) = Ok l"
proof (induction k arbitrary: l)
  case 0
  then show ?case by (simp add: Rebuild_def)
next
  case (Suc k)
  then have k: "k < length bs" by simp
  have R: "Rebuild ed (map Some (take (Suc k) bs)) = Ok l
      \<longleftrightarrow> (\<exists>m. Rebuild ed (map Some (take k bs)) = Ok m \<and> ApplyBlock ed (Some (bs ! k)) m = Ok l)"
    using k by (simp add: Rebuild_def take_Suc_conv_app_nth fold_res_append bind_res_eq_Ok)
  have "fold_res (validate_block ed c) [0..<Suc k] ledger_New = Ok l
      \<longleftrightarrow> (\<exists>m. (\<forall>i<k. block_ok c bs i) \<and> Rebuild ed (map Some (take k bs)) = Ok m
              \<and> validate_block ed c k m = Ok l)"
    using Suc.IH k by (auto simp: fold_res_append bind_res_eq_Ok)
  also have "\<dots> \<longleftrightarrow> (\<forall>i<Suc k. block_ok c bs i) \<and> Rebuild ed (map Some (take (Suc k) bs)) = Ok l"
    unfolding R using validate_block_Ok [OF assms k] by (auto simp: less_Suc_eq)
  finally show ?case .
qed

lemma fold_res_each:
  "fold_res f xs s = Ok s' \<Longrightarrow> x \<in> set xs \<Longrightarrow> \<exists>t t'. f x t = Ok t'"
  by (induction xs arbitrary: s) (auto simp: bind_res_eq_Ok)

lemma Validate_no_nil:
  assumes "Validate ed c = Ok ()"
  shows "None \<notin> set (Blocks c)"
proof
  assume "None \<in> set (Blocks c)"
  then obtain i where i: "i \<in> set [0..<length (Blocks c)]" "Blocks c ! i = None"
    by (auto simp: in_set_conv_nth)
  from assms obtain l where "fold_res (validate_block ed c) [0..<length (Blocks c)] ledger_New = Ok l"
    by (auto simp: Validate_def bind_res_eq_Ok split: if_splits)
  from fold_res_each [OF this i(1)] i(2) show False by (auto simp: validate_block_def)
qed

lemma map_Some_the: "None \<notin> set xs \<Longrightarrow> xs = map Some (map the xs)"
proof (induction xs)
  case (Cons x xs)
  then show ?case by (cases x) auto
qed simp

lemma Validate_Ok:
  assumes "length (Blocks c) < 2 ^ 63"
  shows "Validate ed c = Ok () \<longleftrightarrow> (\<exists>bs. valid_chain ed c bs)"
proof
  assume v: "Validate ed c = Ok ()"
  let ?bs = "map the (Blocks c)"
  have bs: "Blocks c = map Some ?bs" using Validate_no_nil [OF v] by (rule map_Some_the)
  from v obtain l where *: "Blocks c \<noteq> []" "DifficultySchedule c \<noteq> []" "config_ok (Retarget c)"
    "fold_res (validate_block ed c) [0..<length ?bs] ledger_New = Ok l"
    by (auto simp: Validate_def bind_res_eq_Ok RetargetConfig_Validate_Ok split: if_splits)
  then have "(\<forall>i<length ?bs. block_ok c ?bs i) \<and> Rebuild ed (map Some ?bs) = Ok l"
    using validate_loop_Ok [OF bs *(3), of "length ?bs" ed l] assms by simp
  with * bs show "\<exists>bs. valid_chain ed c bs" by (auto simp: valid_chain_def intro: exI [of _ ?bs])
next
  assume "\<exists>bs. valid_chain ed c bs"
  then obtain bs l where bs: "Blocks c = map Some bs" "bs \<noteq> []" "DifficultySchedule c \<noteq> []"
    "config_ok (Retarget c)" "\<forall>i<length bs. block_ok c bs i" "Rebuild ed (map Some bs) = Ok l"
    by (auto simp: valid_chain_def is_Ok_iff)
  with validate_loop_Ok [of c bs "length bs" ed l] assms
  show "Validate ed c = Ok ()" by (simp add: Validate_def RetargetConfig_Validate_Ok [THEN iffD2])
qed


section \<open>The operations on a valid chain\<close>

definition pool_ok :: "ed25519 \<Rightarrow> chain \<Rightarrow> bool" where
  "pool_ok ed c \<longleftrightarrow> is_Ok (bind_res (Ledger ed c) (fold_res (Apply ed) (Pending c)))"

text \<open>What every operation keeps: validity, an applicable pool, and a well-formed schedule.\<close>

definition good_chain :: "ed25519 \<Rightarrow> chain \<Rightarrow> bool" where
  "good_chain ed c \<longleftrightarrow>
     (\<exists>bs. valid_chain ed c bs) \<and> pool_ok ed c \<and> rules_ok (DifficultySchedule c)
     \<and> distinct (map StartHeight (DifficultySchedule c)) \<and> length (Blocks c) < 2 ^ 63"

lemma Latest_valid:
  assumes "valid_chain ed c bs" "length (Blocks c) < 2 ^ 63"
  shows "Latest c = Ok (Some (last bs))" "Height (last bs) + 1 = word_of_nat (length bs)"
proof -
  from assms have bs: "Blocks c = map Some bs" "bs \<noteq> []" "length bs < 2 ^ 63"
    by (auto simp: valid_chain_def)
  then have i: "sint (len (map Some bs) - 1) = int (length bs) - 1"
    by (subst sint_minus64) (simp_all add: sint_len)
  have "nat (int (length bs) - 1) = length bs - 1" "0 < length bs" using bs(2) by simp_all
  then show "Latest c = Ok (Some (last bs))"
    using bs by (simp add: Latest_def index_at_def i last_conv_nth)
  have "block_ok c bs (length bs - 1)" using assms(1) bs(2) by (simp add: valid_chain_def)
  moreover obtain k where "length bs = Suc k" using bs(2) by (cases bs) auto
  ultimately show "Height (last bs) + 1 = word_of_nat (length bs)"
    using bs(2) by (simp add: block_ok_def last_conv_nth)
qed

lemma valid_chain_transfer:
  assumes "valid_chain ed c bs" "Blocks c' = Blocks c" "DifficultySchedule c' \<noteq> []" "config_ok (Retarget c')"
    and "\<And>i. i < length bs \<Longrightarrow> expected c' i = expected c i"
  shows "valid_chain ed c' bs"
proof -
  have "block_ok c' bs i \<longleftrightarrow> block_ok c bs i" if "i < length bs" for i
    unfolding block_ok_def assms(5) [OF that] ..
  with assms show ?thesis by (simp add: valid_chain_def)
qed

subsection \<open>Manual difficulty\<close>

lemma update_rule_Some:
  "update_rule h d rs = Some rs' \<Longrightarrow>
     \<exists>xs r ys. rs = xs @ r # ys \<and> StartHeight r = h \<and> (\<forall>x\<in>set xs. StartHeight x \<noteq> h)
       \<and> rs' = xs @ r\<lparr>RuleDifficulty := d\<rparr> # ys"
proof (induction rs arbitrary: rs')
  case (Cons r rs)
  show ?case
  proof (cases "StartHeight r = h")
    case True
    with Cons.prems show ?thesis
      by (intro exI [of _ "[]"] exI [of _ r] exI [of _ rs]) simp
  next
    case False
    with Cons obtain xs q ys rs1 where "rs = xs @ q # ys" "StartHeight q = h"
      "\<forall>x\<in>set xs. StartHeight x \<noteq> h" "rs' = r # rs1" "rs1 = xs @ q\<lparr>RuleDifficulty := d\<rparr> # ys" by fastforce
    with False show ?thesis by (intro exI [of _ "r # xs"] exI [of _ q] exI [of _ ys]) simp
  qed
qed simp

lemma update_rule_None: "update_rule h d rs = None \<longleftrightarrow> h \<notin> StartHeight ` set rs"
  by (induction rs) auto

lemma SetDifficulty_shape:
  assumes "SetDifficulty d c = Ok c'" "valid_chain ed c bs" "length (Blocks c) < 2 ^ 63"
    and "distinct (map StartHeight (DifficultySchedule c))"
  obtains xs ys where "DifficultySchedule c' = xs @ \<lparr>StartHeight = word_of_nat (length bs), RuleDifficulty = d\<rparr> # ys"
    "DifficultySchedule c = xs @ ys
     \<or> (\<exists>d0. DifficultySchedule c = xs @ \<lparr>StartHeight = word_of_nat (length bs), RuleDifficulty = d0\<rparr> # ys)"
    "word_of_nat (length bs) \<notin> StartHeight ` set (xs @ ys)"
    "c' = c\<lparr>DifficultySchedule := DifficultySchedule c'\<rparr>" "0 \<le> sint d" "sint d \<le> 64"
proof -
  let ?h = "word_of_nat (length bs) :: i64"
  note L = Latest_valid [OF assms(2,3)]
  from assms(1) have range: "0 \<le> sint d" "sint d \<le> 64" by (auto simp: SetDifficulty_def split: if_splits)
  show thesis
  proof (cases "update_rule ?h d (DifficultySchedule c)")
    case None
    with assms(1) range have c': "c' = c\<lparr>DifficultySchedule := DifficultySchedule c @ [\<lparr>StartHeight = ?h, RuleDifficulty = d\<rparr>]\<rparr>"
      by (simp add: SetDifficulty_def L Let_def)
    show thesis using None range
      by (intro that [of "DifficultySchedule c" "[]"]) (auto simp: c' update_rule_None)
  next
    case (Some rs)
    with assms(1) range have c': "c' = c\<lparr>DifficultySchedule := rs\<rparr>"
      by (simp add: SetDifficulty_def L Let_def)
    obtain xs r ys where u: "DifficultySchedule c = xs @ r # ys" "StartHeight r = ?h"
      "rs = xs @ r\<lparr>RuleDifficulty := d\<rparr> # ys"
      using update_rule_Some [OF Some] by blast
    have "\<exists>d0. r = \<lparr>StartHeight = ?h, RuleDifficulty = d0\<rparr>"
      using u(2) by (intro exI [of _ "RuleDifficulty r"]) simp
    moreover have "r\<lparr>RuleDifficulty := d\<rparr> = \<lparr>StartHeight = ?h, RuleDifficulty = d\<rparr>" using u(2) by simp
    moreover have "?h \<notin> StartHeight ` set (xs @ ys)" using assms(4) u(1,2) by auto
    ultimately show thesis using u range
      by (intro that [of xs ys]) (auto simp: c')
  qed
qed

lemma SetDifficulty_expected:
  assumes "SetDifficulty d c = Ok c'" "valid_chain ed c bs" "length (Blocks c) < 2 ^ 63"
    and "distinct (map StartHeight (DifficultySchedule c))"
  shows "i < length bs \<Longrightarrow> expected c' i = expected c i" "expected c' (length bs) = d"
    and "length bs \<le> n \<Longrightarrow>
      (\<forall>r\<in>set (DifficultySchedule c). \<not> (int (length bs) < sint (StartHeight r) \<and> sint (StartHeight r) \<le> int n)) \<Longrightarrow>
      expected c' n = d"
proof -
  let ?h = "word_of_nat (length bs) :: i64"
  obtain xs ys where S: "DifficultySchedule c' = xs @ \<lparr>StartHeight = ?h, RuleDifficulty = d\<rparr> # ys"
    "DifficultySchedule c = xs @ ys \<or> (\<exists>d0. DifficultySchedule c = xs @ \<lparr>StartHeight = ?h, RuleDifficulty = d0\<rparr> # ys)"
    "?h \<notin> StartHeight ` set (xs @ ys)" "c' = c\<lparr>DifficultySchedule := DifficultySchedule c'\<rparr>"
    using SetDifficulty_shape [OF assms] by metis
  from assms(2,3) have bs: "length bs < 2 ^ 63" "0 < length bs" "length (Blocks c) = length bs" by (auto simp: valid_chain_def)
  then have h: "sint ?h = int (length bs)" by (simp add: sint_of_nat64)
  have same: "Blocks c' = Blocks c" "Retarget c' = Retarget c" using S(4) by (metis chain.select_convs chain.surjective chain.update_convs(3))+
  have "distinct (map StartHeight (xs @ ys))" using S(2) assms(4) by (elim disjE exE) simp_all
  then have dist: "distinct (map StartHeight (DifficultySchedule c'))" using S(3) by (simp add: S(1) image_Un)
  note rules = rules_at_distinct [OF assms(4)] rules_at_distinct [OF dist]
  have at: "rules_at c' n = rules_at c n" if "n \<noteq> length bs" for n
    using S(1,2) h that by (auto simp: rules)
  have "filter (\<lambda>r. sint (StartHeight r) \<le> 0) (DifficultySchedule c')
      = filter (\<lambda>r. sint (StartHeight r) \<le> 0) (DifficultySchedule c)"
    using S(1,2) h bs(2) by auto
  then have first: "first_difficulty c' = first_difficulty c"
    by (simp add: first_difficulty_distinct [OF assms(4)] first_difficulty_distinct [OF dist])
  show early: "expected c' i = expected c i" if "i < length bs" for i
    using that
  proof (induction i)
    case (Suc i)
    have "period_step c' (Suc i) x = period_step c (Suc i) x" for x by (simp add: period_step_def same)
    with Suc show ?case by (simp add: at split: list.split)
  qed (simp add: first)
  have "rules_at c' (length bs) = [\<lparr>StartHeight = ?h, RuleDifficulty = d\<rparr>]"
  proof -
    have "\<forall>r\<in>set (xs @ ys). sint (StartHeight r) \<noteq> int (length bs)"
      using S(3) sint_eq_nat [OF bs(1)] by (metis imageI)
    then show ?thesis by (simp add: rules S(1) h filter_empty_conv)
  qed
  then show here: "expected c' (length bs) = d" using bs(2) by (cases "length bs") simp_all
  show "expected c' n = d"
    if "length bs \<le> n" "\<forall>r\<in>set (DifficultySchedule c). \<not> (int (length bs) < sint (StartHeight r) \<and> sint (StartHeight r) \<le> int n)"
    using that
  proof (induction n rule: dec_induct)
    case (step n)
    have "rules_at c (Suc n) = []" using step.hyps step.prems by (auto simp: rules filter_empty_conv)
    then have "rules_at c' (Suc n) = []" using at [of "Suc n"] step.hyps by simp
    moreover have "period_step c' (Suc n) d = d" using step.hyps by (simp add: period_step_def same bs(3))
    moreover have "expected c' n = d" using step.IH step.prems by force
    ultimately show ?case by simp
  qed (rule here)
qed


lemma SetDifficulty_good:
  assumes "SetDifficulty d c = Ok c'" "good_chain ed c"
  shows "good_chain ed c' \<and> Blocks c' = Blocks c"
proof -
  from assms(2) obtain bs where g: "valid_chain ed c bs" "pool_ok ed c" "rules_ok (DifficultySchedule c)"
    "distinct (map StartHeight (DifficultySchedule c))" "length (Blocks c) < 2 ^ 63"
    by (auto simp: good_chain_def)
  obtain xs ys where S: "DifficultySchedule c' = xs @ \<lparr>StartHeight = word_of_nat (length bs), RuleDifficulty = d\<rparr> # ys"
    "DifficultySchedule c = xs @ ys
     \<or> (\<exists>d0. DifficultySchedule c = xs @ \<lparr>StartHeight = word_of_nat (length bs), RuleDifficulty = d0\<rparr> # ys)"
    "word_of_nat (length bs) \<notin> StartHeight ` set (xs @ ys)"
    "c' = c\<lparr>DifficultySchedule := DifficultySchedule c'\<rparr>" "0 \<le> sint d" "sint d \<le> 64"
    using SetDifficulty_shape [OF assms(1) g(1,5,4)] by metis
  obtain rs where c': "c' = c\<lparr>DifficultySchedule := rs\<rparr>" using S(4) by blast
  have "valid_chain ed c' bs"
    using g(1) S(1) SetDifficulty_expected(1) [OF assms(1) g(1,5,4)]
    by (intro valid_chain_transfer [OF g(1)]) (simp_all add: c' valid_chain_def)
  moreover have "rules_ok (DifficultySchedule c')" using S(1,2,5,6) g(3) by (auto simp: rules_ok_def)
  moreover have "distinct (map StartHeight xs)" "distinct (map StartHeight ys)"
    "StartHeight ` set xs \<inter> StartHeight ` set ys = {}" using S(2) g(4) by (elim disjE exE; simp)+
  with S(3) have "distinct (map StartHeight (DifficultySchedule c'))" by (simp add: S(1) image_Un)
  ultimately show ?thesis using g(2,5) by (auto simp: good_chain_def c' pool_ok_def Ledger_def)
qed

subsection \<open>The pending pool\<close>

lemma AddTransaction_Ok:
  "AddTransaction ed tx c = Ok c' \<longleftrightarrow>
     (\<exists>l l'. Rebuild ed (Blocks c) = Ok l \<and> fold_res (Apply ed) (Pending c) l = Ok l'
        \<and> ValidateTransaction ed l' tx = Ok () \<and> c' = c\<lparr>Pending := Pending c @ [tx]\<rparr>)"
  by (auto simp: AddTransaction_def Ledger_def bind_res_eq_Ok)

lemma AddTransaction_good:
  assumes "AddTransaction ed tx c = Ok c'" "good_chain ed c"
  shows "good_chain ed c' \<and> Blocks c' = Blocks c"
proof -
  from assms(1) obtain l l' where a: "Rebuild ed (Blocks c) = Ok l" "fold_res (Apply ed) (Pending c) l = Ok l'"
    "ValidateTransaction ed l' tx = Ok ()" and c': "c' = c\<lparr>Pending := Pending c @ [tx]\<rparr>"
    by (auto simp: AddTransaction_Ok)
  have "pool_ok ed c'"
    using led.pool_snoc [OF a(2), of tx] a(1,3) by (simp add: pool_ok_def Ledger_def c')
  moreover have "expected c' i = expected c i" for i
    using assms(2) by (intro expected_cong) (auto simp: c' good_chain_def valid_chain_def)
  then have "valid_chain ed c' bs" if "valid_chain ed c bs" for bs
    using that valid_chain_transfer [OF that, of c'] by (simp add: c' valid_chain_def)
  ultimately show ?thesis using assms(2) by (auto simp: good_chain_def c')
qed

subsection \<open>Retarget policy\<close>

lemma ConfigureRetarget_good:
  assumes "ConfigureRetarget config c = Ok c'" "good_chain ed c"
  shows "good_chain ed c' \<and> Blocks c' = Blocks c"
proof -
  from assms(1) have c': "c' = c\<lparr>Retarget := config\<rparr>" "config_ok config" "length (Blocks c) = 1"
    by (auto simp: ConfigureRetarget_def bind_res_eq_Ok RetargetConfig_Validate_Ok split: if_splits)
  have "expected c' 0 = expected c 0" by (simp add: first_difficulty_def c')
  moreover have "valid_chain ed c' bs" if "valid_chain ed c bs" for bs
  proof (rule valid_chain_transfer [OF that])
    from that c'(3) have "length bs = 1" by (simp add: valid_chain_def)
    show "expected c' i = expected c i" if "i < length bs" for i
      using that \<open>length bs = 1\<close> \<open>expected c' 0 = expected c 0\<close> by simp
  qed (use that c'(2) in \<open>simp_all add: c'(1) valid_chain_def\<close>)
  ultimately show ?thesis using assms(2) by (auto simp: good_chain_def c' pool_ok_def Ledger_def)
qed

subsection \<open>Mining a block\<close>

lemma Rebuild_snoc: "Rebuild ed (bs @ [b]) = bind_res (Rebuild ed bs) (ApplyBlock ed b)"
proof -
  have "bind_res x Ok = x" for x :: "(ledger_error, ledger) res" by (cases x) simp_all
  moreover have "fold_res (ApplyBlock ed) [] = Ok" by (rule ext) simp
  ultimately have "fold_res (ApplyBlock ed) [b] = ApplyBlock ed b" by (intro ext) simp
  then show ?thesis by (simp only: Rebuild_def fold_res_append)
qed

text \<open>The number of transactions a block takes from the pool.\<close>

definition batch_size :: "chain \<Rightarrow> nat" where
  "batch_size c = min (nat (sint (MaxTxPerBlock c))) (length (Pending c))"

text \<open>The block that \<open>MineBlock\<close> asks \<open>Mine\<close> to seal.\<close>

definition next_block :: "mine_env \<Rightarrow> chain \<Rightarrow> block list \<Rightarrow> block" where
  "next_block env c bs =
     NewBlock (Now env) (word_of_nat (length bs)) (take (batch_size c) (Pending c)) (Hash (last bs))
       (expected c (length bs))"

lemma MineBlock_eq:
  assumes "valid_chain ed c bs" "length (Blocks c) < 2 ^ 63 - 1" "length (Pending c) < 2 ^ 63"
    and "Pending c \<noteq> []"
  shows "MineBlock env lim c =
    (if sint (MaxTxPerBlock c) < 0 then Some (Panic SliceOutOfRange)
     else map_option (\<lambda>r. bind_res (map_err MiningFailed r) (\<lambda>(mined, result).
            Ok (c\<lparr>Blocks := Blocks c @ [Some mined], Pending := drop (batch_size c) (Pending c)\<rparr>, mined, result)))
          (Mine env lim (next_block env c bs)))"
proof -
  have L: "Latest c = (Ok (Some (last bs)) :: (chain_error, block option) res)"
    "Height (last bs) + 1 = word_of_nat (length bs)"
    using Latest_valid [OF assms(1)] assms(2) by simp_all
  have "config_ok (Retarget c)" "None \<notin> set (Blocks c)" "length bs = length (Blocks c)"
    using assms(1) by (auto simp: valid_chain_def)
  then have E: "ExpectedDifficulty c (word_of_nat (length bs)) = (Ok (expected c (length bs)) :: (chain_error, i64) res)"
    using assms(2) by (intro ExpectedDifficulty_expected) simp_all
  let ?tc = "if sint (MaxTxPerBlock c) < sint (len (Pending c)) then MaxTxPerBlock c else len (Pending c)"
  have neg: "sint ?tc < 0 \<longleftrightarrow> sint (MaxTxPerBlock c) < 0"
    by (auto simp: sint_len [OF assms(3)])
  have size: "\<not> sint (MaxTxPerBlock c) < 0 \<Longrightarrow> nat (sint ?tc) = batch_size c"
    by (auto simp: batch_size_def sint_len [OF assms(3)])
  show ?thesis
    unfolding MineBlock_def Let_def neg using assms(4) size
    by (simp add: L E next_block_def)
qed

lemma MineBlock_shape:
  assumes "MineBlock env lim c = Some (Ok (c', b, r))" "valid_chain ed c bs"
    and "length (Blocks c) < 2 ^ 63 - 1" "length (Pending c) < 2 ^ 63"
  shows "Mine env lim (next_block env c bs) = Some (Ok (b, r))"
    "c' = c\<lparr>Blocks := Blocks c @ [Some b], Pending := drop (batch_size c) (Pending c)\<rparr>"
    "Pending c \<noteq> []" "0 \<le> sint (MaxTxPerBlock c)"
proof -
  from assms(1) show p: "Pending c \<noteq> []" by (auto simp: MineBlock_def)
  from assms(1) show "0 \<le> sint (MaxTxPerBlock c)" "Mine env lim (next_block env c bs) = Some (Ok (b, r))"
    "c' = c\<lparr>Blocks := Blocks c @ [Some b], Pending := drop (batch_size c) (Pending c)\<rparr>"
    by (auto simp: MineBlock_eq [OF assms(2-4) p] bind_res_eq_Ok split: if_splits)
qed

definition clock_ok :: "mine_env \<Rightarrow> chain \<Rightarrow> bool" where
  "clock_ok env c \<longleftrightarrow>
     (case last (Blocks c) of None \<Rightarrow> True | Some b \<Rightarrow> sint (Timestamp b) \<le> sint (Now env))"

lemma NewBlock_fields [simp]:
  "Height (NewBlock now h txs p d) = h" "Timestamp (NewBlock now h txs p d) = now"
  "Transactions (NewBlock now h txs p d) = txs" "MerkleRoot (NewBlock now h txs p d) = CalculateMerkleRoot txs"
  "PrevHash (NewBlock now h txs p d) = p" "Difficulty (NewBlock now h txs p d) = d"
  by (simp_all add: NewBlock_def)

lemma expected_append:
  assumes "valid_chain ed c bs" "i \<le> length bs" "Blocks c' = Blocks c @ bl"
    and "DifficultySchedule c' = DifficultySchedule c" "Retarget c' = Retarget c"
  shows "expected c' i = expected c i"
  using assms by (intro expected_cong) (auto simp: valid_chain_def nth_append)

lemma block_ok_prefix:
  assumes "valid_chain ed c bs" "Blocks c' = Blocks c @ [Some b]" "DifficultySchedule c' = DifficultySchedule c"
    and "Retarget c' = Retarget c" "i < length bs"
  shows "block_ok c' (bs @ [b]) i"
proof -
  have "block_ok c bs i" using assms(1,5) by (simp add: valid_chain_def)
  moreover have e: "expected c' i = expected c i"
    using expected_append [OF assms(1) _ assms(2-4)] assms(5) by simp
  moreover have n: "(bs @ [b]) ! i = bs ! i" "(bs @ [b]) ! (i - 1) = bs ! (i - 1)"
    using assms(5) by (simp_all add: nth_append)
  ultimately show ?thesis unfolding block_ok_def n e by blast
qed

lemma valid_chain_snoc:
  assumes "valid_chain ed c bs" "Blocks c' = Blocks c @ [Some b]" "DifficultySchedule c' = DifficultySchedule c"
    and "Retarget c' = Retarget c" "block_ok c' (bs @ [b]) (length bs)" "is_Ok (Rebuild ed (map Some (bs @ [b])))"
  shows "valid_chain ed c' (bs @ [b])"
  using assms block_ok_prefix [OF assms(1-4)] by (auto simp: valid_chain_def less_Suc_eq)

lemma MineBlock_good:
  assumes "MineBlock env lim c = Some (Ok (c', b, r))" "good_chain ed c" "clock_ok env c"
    and "length (Blocks c) < 2 ^ 63 - 1" "length (Pending c) < 2 ^ 63"
  shows "good_chain ed c' \<and> Blocks c' = Blocks c @ [Some b]"
proof -
  from assms(2) obtain bs where v: "valid_chain ed c bs" and pool: "pool_ok ed c"
    and rules: "rules_ok (DifficultySchedule c)" "distinct (map StartHeight (DifficultySchedule c))"
    by (auto simp: good_chain_def)
  from v have bs: "Blocks c = map Some bs" "bs \<noteq> []" by (auto simp: valid_chain_def)
  let ?n = "batch_size c" and ?L = "length bs"
  note S = MineBlock_shape [OF assms(1) v assms(4,5)]
  note fields = mn.sealed_fields [OF S(1), unfolded next_block_def NewBlock_fields] and hash = mn.sealed_hash [OF S(1)]
  from pool obtain l where l: "Rebuild ed (map Some bs) = Ok l" "is_Ok (fold_res (Apply ed) (Pending c) l)"
    by (auto simp: pool_ok_def Ledger_def bs is_Ok_iff bind_res_eq_Ok)
  obtain m where m: "fold_res (Apply ed) (take ?n (Pending c)) l = Ok m"
    "is_Ok (fold_res (Apply ed) (drop ?n (Pending c)) m)"
    using led.pool_split [OF l(2), of ?n] by blast
  have R: "Rebuild ed (map Some (bs @ [b])) = Ok m"
    using l(1) m(1) fields(3) by (simp add: Rebuild_snoc ApplyBlock_Ok)
  have ex: "expected c' ?L = expected c ?L"
    by (rule expected_append [OF v]) (simp_all add: S(2))
  have "sint (Timestamp (last bs)) \<le> sint (Now env)"
    using assms(3) bs by (simp add: clock_ok_def last_map)
  then have "block_ok c' (bs @ [b]) ?L"
    using fields hash ex bs(2) by (simp add: block_ok_def nth_append last_conv_nth)
  then have "valid_chain ed c' (bs @ [b])"
    using R by (intro valid_chain_snoc [OF v]) (simp_all add: S(2))
  moreover have "pool_ok ed c'"
    using R m(2) by (simp add: pool_ok_def Ledger_def S(2) bs)
  ultimately show ?thesis using rules assms(4) by (auto simp: good_chain_def S(2))
qed

subsection \<open>A new chain\<close>

lemma NewWithRetarget_Ok:
  assumes "NewWithRetarget env difficulty maxTx limits retarget = Some (Ok c)"
  obtains d g r where "Mine env (limits\<lparr>Workers := 1\<rparr>) (genesis_block d) = Some (Ok (g, r))"
    "c = \<lparr>Blocks = [Some g], Pending = [], DifficultySchedule = [\<lparr>StartHeight = 0, RuleDifficulty = d\<rparr>],
          Retarget = retarget, MaxTxPerBlock = MaxTxPerBlock c\<rparr>"
    "0 < sint (MaxTxPerBlock c)" "config_ok retarget"
    "sint (MinDifficulty retarget) \<le> sint d" "sint d \<le> sint (MaxDifficulty retarget)"
proof -
  let ?d = "if sint difficulty < 0 then DefaultDifficulty else difficulty"
  let ?m = "if sint maxTx \<le> 0 then DefaultMaxTxPerBlock else maxTx"
  have cfg: "RetargetConfig_Validate retarget = Ok ()"
    using assms by (auto simp: NewWithRetarget_def Let_def split: res.splits)
  with assms have b: "sint (MinDifficulty retarget) \<le> sint ?d" "sint ?d \<le> sint (MaxDifficulty retarget)"
    by (simp_all add: NewWithRetarget_def Let_def split: if_splits)
  with assms cfg obtain g r where "Mine env (limits\<lparr>Workers := 1\<rparr>) (genesis_block ?d) = Some (Ok (g, r))"
    "c = \<lparr>Blocks = [Some g], Pending = [], DifficultySchedule = [\<lparr>StartHeight = 0, RuleDifficulty = ?d\<rparr>],
          Retarget = retarget, MaxTxPerBlock = ?m\<rparr>"
    by (auto simp: NewWithRetarget_def Let_def NewGenesisBlock_def bind_res_eq_Ok linorder_not_less [symmetric])
  with b cfg show thesis
    by (intro that [of ?d g r]) (simp_all add: RetargetConfig_Validate_Ok DefaultMaxTxPerBlock_def)
qed

lemma NewWithRetarget_good:
  assumes "NewWithRetarget env difficulty maxTx limits retarget = Some (Ok c)"
  shows "good_chain ed c \<and> 0 < sint (MaxTxPerBlock c)"
proof -
  obtain d g r where g: "Mine env (limits\<lparr>Workers := 1\<rparr>) (genesis_block d) = Some (Ok (g, r))"
    and c: "c = \<lparr>Blocks = [Some g], Pending = [], DifficultySchedule = [\<lparr>StartHeight = 0, RuleDifficulty = d\<rparr>],
          Retarget = retarget, MaxTxPerBlock = MaxTxPerBlock c\<rparr>"
    and bounds: "0 < sint (MaxTxPerBlock c)" "config_ok retarget"
    "sint (MinDifficulty retarget) \<le> sint d" "sint d \<le> sint (MaxDifficulty retarget)"
    using NewWithRetarget_Ok [OF assms] by metis
  obtain m where c': "c = \<lparr>Blocks = [Some g], Pending = [], DifficultySchedule = [\<lparr>StartHeight = 0, RuleDifficulty = d\<rparr>],
          Retarget = retarget, MaxTxPerBlock = m\<rparr>" using c by blast
  note fields = mn.sealed_fields [OF g] and hash = mn.sealed_hash [OF g]
  have "expected c 0 = d" by (simp add: first_difficulty_def c' sort_slice_def)
  then have "block_ok c [g] 0"
    using fields hash by (simp add: block_ok_def genesis_block_def)
  moreover have "Rebuild ed (map Some [g]) = Ok ledger_New"
    unfolding Rebuild_Ok using fields(3) by (simp add: genesis_block_def)
  ultimately have "valid_chain ed c [g]" "pool_ok ed c"
    using bounds(2) by (simp_all add: valid_chain_def c' pool_ok_def Ledger_def)
  moreover have "0 \<le> sint d" "sint d \<le> 64" using bounds by (auto simp: config_ok_def)
  ultimately show ?thesis using bounds(1) by (auto simp: good_chain_def c' rules_ok_def)
qed


section \<open>Sessions\<close>

text \<open>
  The transitions of a chain: an operation that succeeds. An operation that fails leaves the
  chain as it was. A slice holds fewer than \<open>2^63\<close> elements, and the clock of a mining step
  is not behind the last block (without that premise the step is \<open>clock_going_back\<close> below).
\<close>

inductive chain_step :: "ed25519 \<Rightarrow> chain \<Rightarrow> chain \<Rightarrow> bool" for ed :: ed25519 where
  add_transaction: "AddTransaction ed tx c = Ok c' \<Longrightarrow> chain_step ed c c'"
| set_difficulty: "SetDifficulty d c = Ok c' \<Longrightarrow> chain_step ed c c'"
| configure_retarget: "ConfigureRetarget config c = Ok c' \<Longrightarrow> chain_step ed c c'"
| mine_block: "MineBlock env lim c = Some (Ok (c', b, r)) \<Longrightarrow> clock_ok env c \<Longrightarrow>
    length (Blocks c) < 2 ^ 63 - 1 \<Longrightarrow> length (Pending c) < 2 ^ 63 \<Longrightarrow> chain_step ed c c'"

text \<open>A state machine with an invariant whose log only grows.\<close>

locale append_only =
  fixes step :: "'s \<Rightarrow> 's \<Rightarrow> bool"
    and good :: "'s \<Rightarrow> bool"
    and log :: "'s \<Rightarrow> 'b list"
  assumes keeps: "step s s' \<Longrightarrow> good s \<Longrightarrow> good s'"
    and grows: "step s s' \<Longrightarrow> good s \<Longrightarrow> \<exists>xs. log s' = log s @ xs"
begin

lemma run_good: "step\<^sup>*\<^sup>* s s' \<Longrightarrow> good s \<Longrightarrow> good s'"
  by (induction rule: rtranclp_induct) (auto intro: keeps)

lemma run_grows: "step\<^sup>*\<^sup>* s s' \<Longrightarrow> good s \<Longrightarrow> \<exists>xs. log s' = log s @ xs"
proof (induction rule: rtranclp_induct)
  case (step t u)
  then obtain xs where "log t = log s @ xs" by blast
  moreover obtain ys where "log u = log t @ ys"
    using grows [OF step.hyps(2)] run_good [OF step.hyps(1) step.prems] by blast
  ultimately show ?case by simp
qed simp

end

interpretation chainlog: append_only "chain_step ed" "good_chain ed" Blocks for ed
proof unfold_locales
  show "good_chain ed c'" if "chain_step ed c c'" "good_chain ed c" for c c'
    using that by cases (auto dest: AddTransaction_good SetDifficulty_good ConfigureRetarget_good MineBlock_good)
  show "\<exists>xs. Blocks c' = Blocks c @ xs" if "chain_step ed c c'" "good_chain ed c" for c c'
    using that
  proof cases
    case (mine_block env lim b r)
    with MineBlock_good [OF mine_block(1) that(2)] show ?thesis by blast
  qed (auto dest: AddTransaction_good SetDifficulty_good ConfigureRetarget_good)
qed

lemma good_chain_Validate: "good_chain ed c \<Longrightarrow> Validate ed c = Ok ()"
  by (auto simp: good_chain_def Validate_Ok)

section \<open>Sample chain\<close>

definition demo_retarget :: retarget_config where
  "demo_retarget = \<lparr>Enabled = False, Interval = 5, TargetBlockSeconds = 5, MinDifficulty = 0, MaxDifficulty = 8\<rparr>"

definition demo_chain :: chain where
  "demo_chain =
     \<lparr>Blocks = [Some ((genesis_block 0)\<lparr>Hash := ComputeHash (genesis_block 0)\<rparr>)], Pending = [],
      DifficultySchedule = [\<lparr>StartHeight = 0, RuleDifficulty = 0\<rparr>], Retarget = demo_retarget,
      MaxTxPerBlock = 10\<rparr>"

definition demo_pooled :: chain where
  "demo_pooled = demo_chain\<lparr>Pending := [grant ''alice'' 5]\<rparr>"

lemma genesis_block_fields [simp]:
  "Difficulty (genesis_block d) = d" "BlockNonce (genesis_block d) = 0" "Height (genesis_block d) = 0"
  "Timestamp (genesis_block d) = 0" "Transactions (genesis_block d) = []"
  by (simp_all add: genesis_block_def)

lemma demo_chain_new: "NewWithRetarget quick_env 0 10 quick_limits demo_retarget = Some (Ok demo_chain)"
proof -
  have "quick_limits\<lparr>Workers := 1\<rparr> = quick_limits" by (simp add: quick_limits_def)
  moreover have "(genesis_block 0)\<lparr>BlockNonce := 0\<rparr> = genesis_block 0" by (simp add: genesis_block_def)
  ultimately show ?thesis
    by (simp add: NewWithRetarget_def NewGenesisBlock_def quick_mine RetargetConfig_Validate_def
        demo_retarget_def demo_chain_def Let_def) (simp add: genesis_block_def)
qed

lemma demo_chain_good: "good_chain ed demo_chain"
  using NewWithRetarget_good [OF demo_chain_new] by blast

lemma demo_add: "AddTransaction ed (grant ''alice'' 5) demo_chain = Ok demo_pooled"
proof -
  have "is_Ok (Apply ed (grant ''alice'' 5) ledger_New)"
    by (simp add: Apply_grant TrimSpace_alice FaucetAccount_def)
  then have "ValidateTransaction ed ledger_New (grant ''alice'' 5) = Ok ()"
    by (simp add: led.apply_iff unit_res)
  then show ?thesis
    by (simp add: AddTransaction_Ok demo_chain_def demo_pooled_def Rebuild_def ApplyBlock_def)
qed

lemma demo_pooled_good: "good_chain ed demo_pooled"
  using AddTransaction_good [OF demo_add demo_chain_good] by blast


lemma Mine_Now [simp]: "Mine (env\<lparr>Now := t\<rparr>) = Mine env"
  by (intro ext) (simp add: Mine_def worker_count_def)

lemma demo_pooled_valid:
  "valid_chain ed demo_pooled [(genesis_block 0)\<lparr>Hash := ComputeHash (genesis_block 0)\<rparr>]"
  using demo_pooled_good [of ed] by (auto simp: good_chain_def valid_chain_def demo_pooled_def demo_chain_def)

lemma demo_mine:
  "\<exists>c' b r. MineBlock (quick_env\<lparr>Now := t\<rparr>) quick_limits demo_pooled = Some (Ok (c', b, r))"
proof -
  have "expected demo_pooled (Suc 0) = 0"
    by (simp add: demo_pooled_def demo_chain_def rules_at_def period_step_def retarget_due_def
        demo_retarget_def first_difficulty_def sort_slice_def)
  then have "Difficulty (next_block (quick_env\<lparr>Now := t\<rparr>) demo_pooled
      [(genesis_block 0)\<lparr>Hash := ComputeHash (genesis_block 0)\<rparr>]) = 0"
    by (simp add: next_block_def)
  note Q = quick_mine [OF this]
  have "length (Blocks demo_pooled) < 2 ^ 63 - 1" "length (Pending demo_pooled) < 2 ^ 63"
    "Pending demo_pooled \<noteq> []" "\<not> sint (MaxTxPerBlock demo_pooled) < 0"
    by (simp_all add: demo_pooled_def demo_chain_def)
  then show ?thesis using MineBlock_eq [OF demo_pooled_valid] Q by simp
qed


section \<open>Validation of a chain whose clock went back\<close>

lemma clock_back_invalid:
  assumes "MineBlock env lim c = Some (Ok (c', b, r))" "good_chain ed c" "\<not> clock_ok env c"
    and "length (Blocks c) < 2 ^ 63 - 1" "length (Pending c) < 2 ^ 63"
  shows "Validate ed c' = Err (ValidationError (Height b) TimestampEarlier)"
proof -
  from assms(2) obtain bs where v: "valid_chain ed c bs" by (auto simp: good_chain_def)
  then have bs: "Blocks c = map Some bs" "bs \<noteq> []" "config_ok (Retarget c)" "DifficultySchedule c \<noteq> []"
    by (auto simp: valid_chain_def)
  let ?L = "length bs"
  note S = MineBlock_shape [OF assms(1) v assms(4,5)]
  note fields = mn.sealed_fields [OF S(1), unfolded next_block_def NewBlock_fields]
  note hash = mn.sealed_hash [OF S(1)]
  have B: "Blocks c' = map Some (bs @ [b])" by (simp add: S(2) bs)
  have ok: "\<forall>i<?L. block_ok c' (bs @ [b]) i"
    using block_ok_prefix [OF v, of c' b] by (simp add: S(2))
  obtain l where "Rebuild ed (map Some bs) = Ok l" using v by (auto simp: valid_chain_def is_Ok_iff)
  then have loop: "fold_res (validate_block ed c') [0..<?L] ledger_New = Ok l"
    using validate_loop_Ok [OF B, of ?L ed l] ok assms(4) bs by (simp add: S(2))
  have "expected c' ?L = expected c ?L" by (rule expected_append [OF v]) (simp_all add: S(2))
  moreover have "ExpectedDifficulty c' (word_of_nat ?L) = (Ok (expected c' ?L) :: (validation_error, i64) res)"
    using assms(4) bs B by (intro ExpectedDifficulty_expected) (simp_all add: S(2))
  ultimately have E: "ExpectedDifficulty c' (word_of_nat ?L) = (Ok (Difficulty b) :: (validation_error, i64) res)"
    using fields(6) by simp
  have "Height (last bs) + 1 = word_of_nat ?L" using Latest_valid(2) [OF v] assms(4) by simp
  moreover have "sint (Timestamp b) < sint (Timestamp (last bs))"
    using assms(3) bs fields(2) by (simp add: clock_ok_def last_map)
  ultimately have link: "validate_link c' ?L b = Err (ValidationError (Height b) TimestampEarlier)"
    using bs(2) fields(1) by (simp add: validate_link_def B nth_append last_conv_nth)
  have "validate_block ed c' ?L l = Err (ValidationError (Height b) TimestampEarlier)"
    using E fields hash link by (simp add: validate_block_def B nth_append)
  then have "fold_res (validate_block ed c') [0..<Suc ?L] ledger_New = Err (ValidationError (Height b) TimestampEarlier)"
    by (simp add: fold_res_append loop)
  then show ?thesis
    using bs by (simp add: Validate_def B RetargetConfig_Validate_Ok [THEN iffD2] S(2))
qed


section \<open>The block that commits to the chain\<close>

lemma valid_block_strings:
  assumes "valid_chain ed c bs" "i < length bs"
  shows "sanitize (MerkleRoot (bs ! i)) = MerkleRoot (bs ! i)" "sanitize (PrevHash (bs ! i)) = PrevHash (bs ! i)"
proof -
  have ok: "block_ok c bs i" using assms by (simp add: valid_chain_def)
  then show "sanitize (MerkleRoot (bs ! i)) = MerkleRoot (bs ! i)" by (simp add: block_ok_def)
  have "0 < i \<Longrightarrow> block_ok c bs (i - 1)" using assms by (simp add: valid_chain_def)
  then have "0 < i \<Longrightarrow> ascii (Hash (bs ! (i - 1)))" by (simp add: block_ok_def)
  with ok show "sanitize (PrevHash (bs ! i)) = PrevHash (bs ! i)" by (simp add: block_ok_def)
qed

definition same_header :: "block \<Rightarrow> block \<Rightarrow> bool" where
  "same_header a b \<longleftrightarrow>
     Height a = Height b \<and> Timestamp a = Timestamp b \<and> MerkleRoot a = MerkleRoot b
     \<and> PrevHash a = PrevHash b \<and> BlockNonce a = BlockNonce b \<and> Difficulty a = Difficulty b \<and> Hash a = Hash b"

lemma equal_hash_same_header:
  assumes "valid_chain ed c bs" "valid_chain ed' c' bs'" "i < length bs" "j < length bs'"
    and "length bs < 2 ^ 63" "length bs' < 2 ^ 63"
    and "inj_on sha256 (header_inputs (bs @ bs'))" "Hash (bs ! i) = Hash (bs' ! j)"
  shows "i = j \<and> same_header (bs ! i) (bs' ! j)"
proof -
  have ok: "block_ok c bs i" "block_ok c' bs' j" using assms(1-4) by (auto simp: valid_chain_def)
  have "Marshal (hash_json (bs ! i)) \<in> header_inputs (bs @ bs')"
    "Marshal (hash_json (bs' ! j)) \<in> header_inputs (bs @ bs')"
    using assms(3,4) by (auto simp: header_inputs_def)
  moreover have "ComputeHash (bs ! i) = ComputeHash (bs' ! j)"
    using ok assms(8) by (simp add: block_ok_def)
  ultimately have h: "same_header (bs ! i) (bs' ! j)"
    using ComputeHash_inject [OF assms(7), of "bs ! i" "bs' ! j"] valid_block_strings [OF assms(1,3)]
      valid_block_strings [OF assms(2,4)] assms(8) by (simp add: same_header_def)
  then have "(word_of_nat i :: i64) = word_of_nat j" using ok by (simp add: block_ok_def same_header_def)
  then have "sint (word_of_nat i :: i64) = sint (word_of_nat j :: i64)" by simp
  with h assms(3-6) show ?thesis by (simp add: sint_of_nat64)
qed

lemma equal_tip_same_headers:
  assumes "valid_chain ed c bs" "valid_chain ed' c' bs'" "length bs < 2 ^ 63" "length bs' < 2 ^ 63"
    and "inj_on sha256 (header_inputs (bs @ bs'))" "Hash (last bs) = Hash (last bs')"
  shows "length bs = length bs' \<and> (\<forall>i<length bs. same_header (bs ! i) (bs' ! i))"
proof -
  have ne: "bs \<noteq> []" "bs' \<noteq> []" using assms(1,2) by (auto simp: valid_chain_def)
  note E = equal_hash_same_header [OF assms(1,2) _ _ assms(3-5)]
  have tip: "Hash (bs ! (length bs - 1)) = Hash (bs' ! (length bs' - 1))"
    using assms(6) ne by (simp add: last_conv_nth)
  have "length bs - 1 = length bs' - 1" using E [OF _ _ tip] ne by simp
  then have len: "length bs = length bs'" using ne by (cases bs; cases bs') simp_all
  have "Hash (bs ! (length bs - Suc k)) = Hash (bs' ! (length bs - Suc k))" if "k < length bs" for k
    using that
  proof (induction k)
    case 0
    then show ?case using tip len by simp
  next
    case (Suc k)
    let ?i = "length bs - Suc k"
    have i: "0 < ?i" "?i - 1 = length bs - Suc (Suc k)" "?i < length bs" using Suc.prems by simp_all
    have "same_header (bs ! ?i) (bs' ! ?i)" using E [of ?i ?i] Suc i len by simp
    moreover have "block_ok c bs ?i" "block_ok c' bs' ?i" using assms(1,2) i len by (auto simp: valid_chain_def)
    ultimately show ?case using i by (simp add: same_header_def block_ok_def)
  qed
  note hashes = this
  have "same_header (bs ! i) (bs' ! i)" if "i < length bs" for i
  proof -
    have "length bs - Suc (length bs - Suc i) = i" "length bs - Suc i < length bs" using that by simp_all
    with hashes [of "length bs - Suc i"] have "Hash (bs ! i) = Hash (bs' ! i)" by simp
    with E [of i i] that len show ?thesis by simp
  qed
  with len show ?thesis by simp
qed

section \<open>The next retarget\<close>

lemma retarget_due_nat:
  assumes "sint (Interval r) = int I" "0 < n"
  shows "retarget_due r n \<longleftrightarrow> Enabled r \<and> I < n \<and> (n - 1) mod I = 0"
proof -
  have "(int n - 1) mod int I = int ((n - 1) mod I)"
    using assms(2) by (simp add: of_nat_mod of_nat_diff)
  then show ?thesis unfolding retarget_due_def assms(1) by simp
qed

lemma next_multiple:
  fixes L :: nat
  assumes "0 < I" "I + 1 < L"
  defines "off \<equiv> (L - (I + 1)) mod I"
  defines "h \<equiv> if off = 0 then L else L + (I - off)"
  shows "(h - 1) mod I = 0" "\<And>k. L \<le> k \<Longrightarrow> k < h \<Longrightarrow> (k - 1) mod I \<noteq> 0"
proof -
  have "L - 1 = (L - (I + 1)) + I" using assms(2) by simp
  then have off: "(L - 1) mod I = off" by (simp add: off_def)
  have lt: "off < I" using assms(1) by (simp add: off_def)
  have "(L - 1 + j) mod I = (off + j) mod I" for j
    using off by (metis mod_add_left_eq)
  note shift = this
  show "(h - 1) mod I = 0"
  proof (cases "off = 0")
    case False
    then have "h - 1 = L - 1 + (I - off)" using assms(2) by (simp add: h_def)
    with shift [of "I - off"] lt show ?thesis by simp
  qed (use off in \<open>simp add: h_def\<close>)
  show "(k - 1) mod I \<noteq> 0" if "L \<le> k" "k < h" for k
  proof -
    have o: "off \<noteq> 0" using that by (auto simp: h_def split: if_splits)
    have "k - 1 = L - 1 + (k - L)" using that(1) assms(2) by simp
    moreover have "off + (k - L) < I" using that o lt by (simp add: h_def)
    ultimately show ?thesis using shift [of "k - L"] o by simp
  qed
qed

section \<open>Properties\<close>

text \<open>
  C2. What \<open>Validate\<close> accepts: exactly the non-empty chains without nil blocks, with a
  schedule and a valid policy, in which every block has its index as height, the expected
  difficulty, the Merkle root of its transactions, its own hash, enough proof of work, the
  hash of its predecessor (64 zeros for genesis) and a time not before it, and whose
  transactions replay from the empty ledger. Where a schedule has several rules for one
  height, \<open>expected\<close> takes the one that sorting puts last, which Go does not specify.
\<close>

theorem Validate_accepts:
  assumes "length (Blocks c) < 2 ^ 63"
  shows "Validate ed c = Ok () \<longleftrightarrow>
    (\<exists>bs. Blocks c = map Some bs \<and> bs \<noteq> [] \<and> DifficultySchedule c \<noteq> []
       \<and> RetargetConfig_Validate (Retarget c) = Ok ()
       \<and> (\<forall>i<length bs.
            Height (bs ! i) = word_of_nat i \<and> Difficulty (bs ! i) = expected c i
            \<and> MerkleRoot (bs ! i) = CalculateMerkleRoot (Transactions (bs ! i))
            \<and> Hash (bs ! i) = ComputeHash (bs ! i)
            \<and> MeetsDifficulty (Hash (bs ! i)) (Difficulty (bs ! i))
            \<and> PrevHash (bs ! i) = (if i = 0 then GenesisPrevHash else Hash (bs ! (i - 1)))
            \<and> (0 < i \<longrightarrow> sint (Timestamp (bs ! (i - 1))) \<le> sint (Timestamp (bs ! i))))
       \<and> (\<exists>l. Rebuild ed (Blocks c) = Ok l))"
  unfolding Validate_Ok [OF assms] valid_chain_def block_ok_def RetargetConfig_Validate_Ok is_Ok_iff
  by (rule ex_cong1) auto

theorem Validate_accepts_witness:
  "Validate plain_ed25519 demo_chain = Ok () \<and> (\<exists>bs. Blocks demo_chain = map Some bs \<and> bs \<noteq> [])"
proof -
  have "length (Blocks demo_chain) < 2 ^ 63" by (simp add: demo_chain_def)
  from Validate_accepts [OF this] good_chain_Validate [OF demo_chain_good] show ?thesis by blast
qed

text \<open>
  C1. A session never leaves the valid chains: from a newly created chain, any sequence of
  successful operations - transactions, difficulty changes, retarget settings, mined blocks
  whose clock is not behind the chain - ends in a chain that validates, whose pending pool
  applies on top of it, and which extends the chain it started from.
\<close>

theorem sessions_stay_valid:
  assumes "NewWithRetarget env difficulty maxTx limits retarget = Some (Ok c0)" "(chain_step ed)\<^sup>*\<^sup>* c0 c"
  shows "Validate ed c = Ok ()
    \<and> (\<exists>l l'. Rebuild ed (Blocks c) = Ok l \<and> fold_res (Apply ed) (Pending c) l = Ok l')
    \<and> (\<exists>bl. Blocks c = Blocks c0 @ bl)"
proof -
  have g0: "good_chain ed c0" using NewWithRetarget_good [OF assms(1)] by blast
  then have "good_chain ed c" using assms(2) chainlog.run_good by blast
  then show ?thesis
    using good_chain_Validate [of ed c] chainlog.run_grows [OF assms(2) g0]
    by (auto simp: good_chain_def pool_ok_def Ledger_def is_Ok_iff bind_res_eq_Ok)
qed

theorem sessions_stay_valid_witness: "Validate plain_ed25519 demo_pooled = Ok ()"
proof -
  have "(chain_step plain_ed25519)\<^sup>*\<^sup>* demo_chain demo_pooled"
    using demo_add chain_step.add_transaction by blast
  with sessions_stay_valid [OF demo_chain_new] show ?thesis by blast
qed


text \<open>
  A new chain is usable at once: creating a chain can only succeed with one block, a
  positive block size, an initial difficulty inside the policy's limits, and a chain that
  validates.
\<close>

theorem new_chain_is_valid:
  assumes "NewWithRetarget env difficulty maxTx limits retarget = Some (Ok c)"
  shows "Validate ed c = Ok () \<and> length (Blocks c) = 1 \<and> Pending c = [] \<and> 0 < sint (MaxTxPerBlock c)
    \<and> sint (MinDifficulty retarget) \<le> sint (expected c 0)
    \<and> sint (expected c 0) \<le> sint (MaxDifficulty retarget) \<and> Retarget c = retarget"
proof -
  obtain d g m where c: "c = \<lparr>Blocks = [Some g], Pending = [], DifficultySchedule = [\<lparr>StartHeight = 0, RuleDifficulty = d\<rparr>],
      Retarget = retarget, MaxTxPerBlock = m\<rparr>"
    and "sint (MinDifficulty retarget) \<le> sint d" "sint d \<le> sint (MaxDifficulty retarget)"
    using NewWithRetarget_Ok [OF assms] by metis
  moreover have "expected c 0 = d" by (simp add: first_difficulty_def c sort_slice_def)
  moreover have "Validate ed c = Ok ()" "0 < sint (MaxTxPerBlock c)"
    using NewWithRetarget_good [OF assms] good_chain_Validate by blast+
  ultimately show ?thesis by simp
qed

theorem new_chain_is_valid_witness: "Validate plain_ed25519 demo_chain = Ok () \<and> length (Blocks demo_chain) = 1"
  using new_chain_is_valid [OF demo_chain_new] by blast

text \<open>
  C25. What \<open>MineBlock\<close> does to a good chain: it appends exactly one block, which continues
  the chain, holds the first transactions of the pool up to the block size, is sealed at the
  expected difficulty, and leaves the rest of the pool in order; with a clock that is not
  behind the chain the result validates and its pool still applies.
\<close>

theorem MineBlock_extends:
  assumes "MineBlock env lim c = Some (Ok (c', b, r))" "good_chain ed c"
    and "length (Blocks c) < 2 ^ 63 - 1" "length (Pending c) < 2 ^ 63"
  shows "Blocks c' = Blocks c @ [Some b] \<and> Transactions b @ Pending c' = Pending c
    \<and> length (Transactions b) = min (nat (sint (MaxTxPerBlock c))) (length (Pending c))
    \<and> Height b = word_of_nat (length (Blocks c)) \<and> Difficulty b = expected c (length (Blocks c))
    \<and> (\<exists>p. Latest c = (Ok (Some p) :: (chain_error, block option) res) \<and> PrevHash b = Hash p
           \<and> (sint (Timestamp p) \<le> sint (Now env) \<longrightarrow> good_chain ed c' \<and> Validate ed c' = Ok ()))"
proof -
  from assms(2) obtain bs where v: "valid_chain ed c bs" by (auto simp: good_chain_def)
  then have bs: "Blocks c = map Some bs" "bs \<noteq> []" by (auto simp: valid_chain_def)
  note S = MineBlock_shape [OF assms(1) v assms(3,4)]
  note fields = mn.sealed_fields [OF S(1), unfolded next_block_def NewBlock_fields]
  have L: "Latest c = (Ok (Some (last bs)) :: (chain_error, block option) res)"
    using Latest_valid(1) [OF v] assms(3) by simp
  have "sint (Timestamp (last bs)) \<le> sint (Now env) \<Longrightarrow> good_chain ed c'"
    using MineBlock_good [OF assms(1,2) _ assms(3,4)] bs by (simp add: clock_ok_def last_map)
  then show ?thesis
    using fields L good_chain_Validate [of ed c'] by (auto simp: S(2) bs batch_size_def min.commute)
qed

theorem MineBlock_extends_witness:
  "\<exists>c' b r. MineBlock quick_env quick_limits demo_pooled = Some (Ok (c', b, r))
     \<and> Transactions b = [grant ''alice'' 5] \<and> Pending c' = [] \<and> Height b = 1"
proof -
  have "quick_env\<lparr>Now := 100\<rparr> = quick_env" by (simp add: quick_env_def)
  with demo_mine [of 100] obtain c' b r where m: "MineBlock quick_env quick_limits demo_pooled = Some (Ok (c', b, r))"
    by metis
  have "length (Blocks demo_pooled) < 2 ^ 63 - 1" "length (Pending demo_pooled) < 2 ^ 63"
    by (simp_all add: demo_pooled_def demo_chain_def)
  from MineBlock_extends [OF m demo_pooled_good this, of plain_ed25519]
  have "Transactions b @ Pending c' = [grant ''alice'' 5]" "length (Transactions b) = 1" "Height b = 1"
    by (simp_all add: demo_pooled_def demo_chain_def)
  with m show ?thesis by (cases "Transactions b") auto
qed

text \<open>
  C36. A clock that goes back breaks the chain: \<open>MineBlock\<close> does not compare the clock with
  the last block. On a good chain with a later last block and a pool to mine from, it
  succeeds whenever the search for a nonce does, and the chain it leaves is rejected by
  validation at the new block.
\<close>

theorem clock_going_back:
  assumes "good_chain ed c" "last (Blocks c) = Some p" "sint (Now env) < sint (Timestamp p)"
    and "Pending c \<noteq> []" "0 \<le> sint (MaxTxPerBlock c)"
    and "length (Blocks c) < 2 ^ 63 - 1" "length (Pending c) < 2 ^ 63"
    and "Mine env lim (next_block env c (map the (Blocks c))) = Some (Ok (b, r))"
  shows "Validate ed c = Ok () \<and> (\<exists>c'. MineBlock env lim c = Some (Ok (c', b, r))
    \<and> Validate ed c' = Err (ValidationError (Height b) TimestampEarlier))"
proof -
  from assms(1) obtain bs where v: "valid_chain ed c bs" by (auto simp: good_chain_def)
  then have "map the (Blocks c) = bs" by (simp add: valid_chain_def o_def)
  with assms(8) have "Mine env lim (next_block env c bs) = Some (Ok (b, r))" by simp
  then obtain c' where c': "MineBlock env lim c = Some (Ok (c', b, r))"
    using MineBlock_eq [OF v assms(6,7,4)] assms(5) by simp
  have "\<not> clock_ok env c" using assms(2,3) by (simp add: clock_ok_def)
  from clock_back_invalid [OF c' assms(1) this assms(6,7)] c' good_chain_Validate [OF assms(1)] show ?thesis by blast
qed

theorem clock_going_back_witness:
  "\<exists>c' b r. MineBlock (quick_env\<lparr>Now := - 1\<rparr>) quick_limits demo_pooled = Some (Ok (c', b, r))
     \<and> Validate plain_ed25519 c' = Err (ValidationError (Height b) TimestampEarlier)"
proof -
  let ?e = "quick_env\<lparr>Now := - 1\<rparr>"
  have small: "length (Blocks demo_pooled) < 2 ^ 63 - 1" "length (Pending demo_pooled) < 2 ^ 63"
    by (simp_all add: demo_pooled_def demo_chain_def)
  obtain c' b r where m: "MineBlock ?e quick_limits demo_pooled = Some (Ok (c', b, r))" using demo_mine by metis
  have "map the (Blocks demo_pooled) = [(genesis_block 0)\<lparr>Hash := ComputeHash (genesis_block 0)\<rparr>]"
    by (simp add: demo_pooled_def demo_chain_def)
  with MineBlock_shape(1) [OF m demo_pooled_valid [of plain_ed25519] small]
  have "Mine ?e quick_limits (next_block ?e demo_pooled (map the (Blocks demo_pooled))) = Some (Ok (b, r))" by simp
  moreover have "last (Blocks demo_pooled) = Some ((genesis_block 0)\<lparr>Hash := ComputeHash (genesis_block 0)\<rparr>)"
    "sint (Now ?e) < sint (Timestamp ((genesis_block 0)\<lparr>Hash := ComputeHash (genesis_block 0)\<rparr>))"
    "Pending demo_pooled \<noteq> []" "0 \<le> sint (MaxTxPerBlock demo_pooled)"
    by (simp_all add: demo_pooled_def demo_chain_def)
  ultimately show ?thesis using clock_going_back [OF demo_pooled_good _ _ _ _ small] by blast
qed

text \<open>
  C32. \<open>SetDifficulty\<close> takes effect from the next block on, and not before: on a good chain it
  succeeds for every difficulty from 0 to 64, the next block is expected to have that
  difficulty, and so is every later height up to the next manual rule as long as no block
  is added (retargeting needs the blocks of its window), every block of the chain keeps
  the difficulty it had, and the chain still validates.
\<close>

theorem SetDifficulty_next_block:
  assumes "good_chain ed c" "0 \<le> sint d" "sint d \<le> 64" "length (Blocks c) < 2 ^ 63 - 1"
  shows "\<exists>c'. SetDifficulty d c = Ok c' \<and> Blocks c' = Blocks c
    \<and> ExpectedDifficulty c' (word_of_nat (length (Blocks c))) = (Ok d :: ('e, i64) res)
    \<and> (\<forall>n\<ge>length (Blocks c). n < 2 ^ 63 - 1 \<longrightarrow>
         (\<forall>r\<in>set (DifficultySchedule c). \<not> (int (length (Blocks c)) < sint (StartHeight r) \<and> sint (StartHeight r) \<le> int n)) \<longrightarrow>
         ExpectedDifficulty c' (word_of_nat n) = (Ok d :: ('e, i64) res))
    \<and> (\<forall>i<length (Blocks c). ExpectedDifficulty c' (word_of_nat i) = (ExpectedDifficulty c (word_of_nat i) :: ('e, i64) res))
    \<and> Validate ed c' = Ok ()"
proof -
  from assms(1) obtain bs where g: "valid_chain ed c bs" "length (Blocks c) < 2 ^ 63"
    "distinct (map StartHeight (DifficultySchedule c))" by (auto simp: good_chain_def)
  then have bs: "length (Blocks c) = length bs" by (simp add: valid_chain_def)
  have "is_Ok (SetDifficulty d c)"
    using assms(2,3) by (simp add: SetDifficulty_def Latest_valid [OF g(1,2)] Let_def split: option.split)
  then obtain c' where c': "SetDifficulty d c = Ok c'" by (auto simp: is_Ok_iff)
  from SetDifficulty_good [OF c' assms(1)] have good: "good_chain ed c'" "Blocks c' = Blocks c" by blast+
  then have E': "ExpectedDifficulty c' (word_of_nat n) = (Ok (expected c' n) :: ('e, i64) res)" if "n < 2 ^ 63 - 1" for n
    using that bs by (intro ExpectedDifficulty_expected) (auto simp: good_chain_def valid_chain_def)
  have E: "ExpectedDifficulty c (word_of_nat n) = (Ok (expected c n) :: ('e, i64) res)" if "n < 2 ^ 63 - 1" for n
    using that bs g by (intro ExpectedDifficulty_expected) (auto simp: valid_chain_def)
  note SE = SetDifficulty_expected [OF c' g(1,2,3)]
  have "ExpectedDifficulty c' (word_of_nat (length bs)) = (Ok d :: ('e, i64) res)"
    using E' [of "length bs"] SE(2) assms(4) bs by simp
  moreover have "ExpectedDifficulty c' (word_of_nat n) = (Ok d :: ('e, i64) res)"
    if "length bs \<le> n" "n < 2 ^ 63 - 1"
      "\<forall>r\<in>set (DifficultySchedule c). \<not> (int (length bs) < sint (StartHeight r) \<and> sint (StartHeight r) \<le> int n)" for n
    using E' [OF that(2)] SE(3) [OF that(1,3)] by simp
  moreover have "ExpectedDifficulty c' (word_of_nat i) = (ExpectedDifficulty c (word_of_nat i) :: ('e, i64) res)"
    if "i < length bs" for i
    using E [of i] E' [of i] SE(1) [OF that] that assms(4) bs by simp
  ultimately show ?thesis
    using c' good good_chain_Validate [OF good(1)] unfolding bs by blast
qed

theorem SetDifficulty_next_block_witness:
  "\<exists>c'. SetDifficulty 7 demo_chain = Ok c' \<and> ExpectedDifficulty c' 1 = (Ok 7 :: (chain_error, i64) res)
     \<and> ExpectedDifficulty c' 9 = (Ok 7 :: (chain_error, i64) res)"
proof -
  have "0 \<le> sint (7 :: i64)" "sint (7 :: i64) \<le> 64" "length (Blocks demo_chain) < 2 ^ 63 - 1"
    by (simp_all add: demo_chain_def)
  from SetDifficulty_next_block [OF demo_chain_good this, where ?'e = chain_error] obtain c' where
    c': "SetDifficulty 7 demo_chain = Ok c'"
      "ExpectedDifficulty c' (word_of_nat (length (Blocks demo_chain))) = (Ok 7 :: (chain_error, i64) res)"
    and later: "\<And>n. length (Blocks demo_chain) \<le> n \<Longrightarrow> n < 2 ^ 63 - 1 \<Longrightarrow>
      (\<forall>r\<in>set (DifficultySchedule demo_chain). \<not> (int (length (Blocks demo_chain)) < sint (StartHeight r) \<and> sint (StartHeight r) \<le> int n)) \<Longrightarrow>
      ExpectedDifficulty c' (word_of_nat n) = (Ok 7 :: (chain_error, i64) res)" by blast
  have "ExpectedDifficulty c' (word_of_nat 9) = (Ok 7 :: (chain_error, i64) res)"
    by (rule later) (simp_all add: demo_chain_def)
  moreover have "length (Blocks demo_chain) = 1" by (simp add: demo_chain_def)
  ultimately show ?thesis using c' by auto
qed

text \<open>
  C3. The hash of the last block commits to the whole chain: two valid chains with the same
  tip hash have the same number of blocks and the same headers, and wherever two blocks
  list equally many transactions these are equal up to the bytes that are not UTF-8, and
  the very same if they are UTF-8, unless SHA-256 collides on byte strings that the two
  chains hash.
\<close>

theorem tip_hash_commits_to_history:
  assumes "Validate ed c = Ok ()" "Validate ed' c' = Ok ()"
    and "Blocks c = map Some bs" "Blocks c' = map Some bs'" "length bs < 2 ^ 63" "length bs' < 2 ^ 63"
    and "inj_on sha256 (header_inputs (bs @ bs'))" "Hash (last bs) = Hash (last bs')"
  shows "length bs = length bs'
    \<and> (\<forall>i<length bs. same_header (bs ! i) (bs' ! i)
         \<and> (inj_on sha256 (root_inputs (Transactions (bs ! i)) \<union> root_inputs (Transactions (bs' ! i)))
             \<longrightarrow> length (Transactions (bs ! i)) = length (Transactions (bs' ! i))
             \<longrightarrow> map san_tx (Transactions (bs ! i)) = map san_tx (Transactions (bs' ! i))
                 \<and> (list_all utf8_tx (Transactions (bs ! i) @ Transactions (bs' ! i))
                    \<longrightarrow> Transactions (bs ! i) = Transactions (bs' ! i))))"
proof -
  have v: "valid_chain ed c bs" "valid_chain ed' c' bs'"
    using assms(1-6) by (auto simp: Validate_Ok valid_chain_def inj_map_eq_map)
  note H = equal_tip_same_headers [OF v assms(5-8)]
  have san: "map san_tx (Transactions (bs ! i)) = map san_tx (Transactions (bs' ! i))"
    if "i < length bs" "inj_on sha256 (root_inputs (Transactions (bs ! i)) \<union> root_inputs (Transactions (bs' ! i)))"
      "length (Transactions (bs ! i)) = length (Transactions (bs' ! i))" for i
  proof (rule merkle_root_inject [OF that(2,3)])
    have "block_ok c bs i" "block_ok c' bs' i" "same_header (bs ! i) (bs' ! i)"
      using that(1) H v by (auto simp: valid_chain_def)
    then show "CalculateMerkleRoot (Transactions (bs ! i)) = CalculateMerkleRoot (Transactions (bs' ! i))"
      by (simp add: block_ok_def same_header_def)
  qed
  show ?thesis
  proof (intro conjI allI impI)
    show "length bs = length bs'" using H by blast
    fix i assume i: "i < length bs"
    then show "same_header (bs ! i) (bs' ! i)" using H by blast
    assume inj: "inj_on sha256 (root_inputs (Transactions (bs ! i)) \<union> root_inputs (Transactions (bs' ! i)))"
      and len: "length (Transactions (bs ! i)) = length (Transactions (bs' ! i))"
    then show same: "map san_tx (Transactions (bs ! i)) = map san_tx (Transactions (bs' ! i))" using san i by blast
    assume "list_all utf8_tx (Transactions (bs ! i) @ Transactions (bs' ! i))"
    then have "map san_tx (Transactions (bs ! i)) = Transactions (bs ! i)" "map san_tx (Transactions (bs' ! i)) = Transactions (bs' ! i)"
      by (simp_all add: map_san_utf8)
    with same show "Transactions (bs ! i) = Transactions (bs' ! i)" by simp
  qed
qed

text \<open>Two genesis blocks whose transactions differ in a byte that is not UTF-8.\<close>

definition twin_grant :: "char \<Rightarrow> transaction" where
  "twin_grant x = grant [CHR ''a'', x, CHR ''b''] 5"

definition twin :: "char \<Rightarrow> block" where
  "twin x =
     (let b = (genesis_block 0)\<lparr>Transactions := [twin_grant x], MerkleRoot := CalculateMerkleRoot [twin_grant x]\<rparr>
      in b\<lparr>Hash := ComputeHash b\<rparr>)"

definition twin_chain :: "char \<Rightarrow> chain" where
  "twin_chain x = demo_chain\<lparr>Blocks := [Some (twin x)]\<rparr>"

lemma twin_fields [simp]:
  "Height (twin x) = 0" "Timestamp (twin x) = 0" "Transactions (twin x) = [twin_grant x]" "Difficulty (twin x) = 0"
  "MerkleRoot (twin x) = CalculateMerkleRoot [twin_grant x]" "PrevHash (twin x) = GenesisPrevHash" "BlockNonce (twin x) = 0"
  by (simp_all add: twin_def Let_def genesis_block_def)

lemma twin_hash: "Hash (twin x) = ComputeHash (twin x)"
proof -
  let ?b = "(genesis_block 0)\<lparr>Transactions := [twin_grant x], MerkleRoot := CalculateMerkleRoot [twin_grant x]\<rparr>"
  have "ComputeHash (?b\<lparr>Hash := ComputeHash ?b\<rparr>) = ComputeHash ?b" by (rule ComputeHash_cong) simp_all
  then show ?thesis by (simp add: twin_def Let_def)
qed

lemma twin_valid: "Validate ed (twin_chain x) = Ok ()"
proof -
  have t: "TrimSpace [CHR ''a'', x, CHR ''b''] = [CHR ''a'', x, CHR ''b'']"
    by (rule TrimSpace_printable) (simp_all add: byte_def)
  have "expected (twin_chain x) 0 = 0"
    by (simp add: first_difficulty_def twin_chain_def demo_chain_def sort_slice_def)
  then have "block_ok (twin_chain x) [twin x] 0" by (simp add: block_ok_def twin_hash [symmetric])
  moreover have "\<exists>l. Rebuild ed (map Some [twin x]) = Ok l"
    unfolding Rebuild_Ok by (simp add: twin_grant_def Apply_grant t FaucetAccount_def)
  moreover have "config_ok demo_retarget" by (simp add: config_ok_def demo_retarget_def)
  ultimately have "valid_chain ed (twin_chain x) [twin x]"
    by (simp add: valid_chain_def twin_chain_def demo_chain_def is_Ok_iff)
  then show ?thesis by (auto simp: Validate_Ok twin_chain_def)
qed

lemma twin_same: "Marshal (tx_json (twin_grant (CHR 0xFE))) = Marshal (tx_json (twin_grant (CHR 0xFF)))"
proof -
  have "runes [CHR ''a'', CHR 0xFE, CHR ''b''] = runes [CHR ''a'', CHR 0xFF, CHR ''b'']"
    by (simp add: runes.simps(2) rune_width_def byte_def cont_def in_range_def)
  then show ?thesis
    by (simp add: twin_grant_def grant_def tx_json_def payload_members_def Marshal_def omitempty_def quote_def)
qed

lemma twin_same_hash:
  "hash_json (twin (CHR 0xFE)) = hash_json (twin (CHR 0xFF))" "Hash (twin (CHR 0xFE)) = Hash (twin (CHR 0xFF))"
  "root_inputs [twin_grant (CHR 0xFE)] \<union> root_inputs [twin_grant (CHR 0xFF)] = {Marshal (tx_json (twin_grant (CHR 0xFF)))}"
proof -
  have "CalculateMerkleRoot [twin_grant (CHR 0xFE)] = CalculateMerkleRoot [twin_grant (CHR 0xFF)]"
    by (simp add: CalculateMerkleRoot_def leaf_hash_def twin_same)
  then show "hash_json (twin (CHR 0xFE)) = hash_json (twin (CHR 0xFF))" by (simp add: hash_json_def)
  then show "Hash (twin (CHR 0xFE)) = Hash (twin (CHR 0xFF))" by (simp add: twin_hash ComputeHash_def)
  show "root_inputs [twin_grant (CHR 0xFE)] \<union> root_inputs [twin_grant (CHR 0xFF)] = {Marshal (tx_json (twin_grant (CHR 0xFF)))}"
    by (simp add: root_inputs_def merkle_inputs_done twin_same)
qed

theorem tip_hash_commits_to_history_witness:
  "\<exists>c c' b b'. Validate plain_ed25519 c = Ok () \<and> Validate plain_ed25519 c' = Ok ()
     \<and> last (Blocks c) = Some b \<and> last (Blocks c') = Some b' \<and> b \<noteq> b' \<and> Hash b = Hash b'
     \<and> same_header b b' \<and> map san_tx (Transactions b) = map san_tx (Transactions b')"
proof -
  let ?b = "twin (CHR 0xFE)" and ?b' = "twin (CHR 0xFF)"
  have "inj_on sha256 (header_inputs ([?b] @ [?b']))" by (simp add: header_inputs_def twin_same_hash(1))
  from tip_hash_commits_to_history [OF twin_valid [of plain_ed25519 "CHR 0xFE"] twin_valid [of plain_ed25519 "CHR 0xFF"] _ _ _ _ this]
  have "same_header ?b ?b' \<and> map san_tx (Transactions ?b) = map san_tx (Transactions ?b')"
    by (simp add: twin_chain_def twin_same_hash)
  moreover have "?b \<noteq> ?b'"
  proof
    assume "?b = ?b'"
    then have "Transactions ?b = Transactions ?b'" by (rule arg_cong)
    then show False by (simp add: twin_grant_def grant_def)
  qed
  moreover have "last (Blocks (twin_chain x)) = Some (twin x)" for x by (simp add: twin_chain_def)
  ultimately show ?thesis using twin_valid twin_same_hash(2) by blast
qed

text \<open>
  C33. \<open>NextRetargetHeight\<close> names the next retarget: on a valid chain with the policy enabled
  (and heights far from overflow) it returns the least height, from the next block on, that
  starts a retarget period; with the policy disabled it returns -1.
\<close>

theorem NextRetargetHeight_is_next:
  assumes "Validate ed c = Ok ()" "int (length (Blocks c)) + 2 * sint (Interval (Retarget c)) < 2 ^ 63"
  shows "if Enabled (Retarget c)
    then \<exists>h. NextRetargetHeight c = (Ok (word_of_nat h) :: ('e, i64) res) \<and> length (Blocks c) \<le> h
           \<and> retarget_due (Retarget c) h
           \<and> (\<forall>k. length (Blocks c) \<le> k \<longrightarrow> k < h \<longrightarrow> \<not> retarget_due (Retarget c) k)
    else NextRetargetHeight c = (Ok (- 1) :: ('e, i64) res)"
proof (cases "Enabled (Retarget c)")
  case True
  let ?r = "Retarget c"
  define I where "I = nat (sint (Interval ?r))"
  define L where "L = length (Blocks c)"
  have cfg: "config_ok ?r"
    using assms(1) by (auto simp: Validate_def bind_res_eq_Ok RetargetConfig_Validate_Ok split: if_splits)
  then have I: "sint (Interval ?r) = int I" "0 < I" by (auto simp: I_def config_ok_def)
  have small: "L + 2 * I < 2 ^ 63" using assms(2) I by (simp add: L_def)
  obtain bs where v: "valid_chain ed c bs" using assms(1) small by (auto simp: Validate_Ok L_def)
  then have L: "length bs = L" "0 < L" by (auto simp: valid_chain_def L_def)
  have Iw: "Interval ?r = word_of_nat I" using I small by (simp add: sint_inject64 [symmetric] sint_of_nat64)
  have latest: "Latest c = (Ok (Some (last bs)) :: ('e, block option) res)" "Height (last bs) + 1 = word_of_nat L"
    using Latest_valid [OF v] small L(1) by (simp_all add: L_def)
  have first: "sint (Interval ?r + 1) = int I + 1"
    using small I by (subst sint_plus64) simp_all
  have nxt: "sint (word_of_nat L :: i64) = int L" using small by (simp add: sint_of_nat64)
  note due = retarget_due_nat [OF I(1)]
  show ?thesis
  proof (cases "L \<le> I + 1")
    case le: True
    then have "NextRetargetHeight c = (Ok (Interval ?r + 1) :: ('e, i64) res)"
      using True by (simp add: NextRetargetHeight_def latest Let_def first nxt)
    moreover have "Interval ?r + 1 = word_of_nat (I + 1)" by (simp add: Iw)
    ultimately have "NextRetargetHeight c = (Ok (word_of_nat (I + 1)) :: ('e, i64) res)" by simp
    moreover have "retarget_due ?r (I + 1)" "k < I + 1 \<Longrightarrow> 0 < k \<Longrightarrow> \<not> retarget_due ?r k" for k
      using True by (simp_all add: due)
    moreover have "0 < L" by (rule L(2))
    ultimately have "\<exists>h. NextRetargetHeight c = (Ok (word_of_nat h) :: ('e, i64) res) \<and> L \<le> h
        \<and> retarget_due ?r h \<and> (\<forall>k. L \<le> k \<longrightarrow> k < h \<longrightarrow> \<not> retarget_due ?r k)"
      using le by (intro exI [of _ "I + 1"]) simp
    with True show ?thesis by (simp add: L_def)
  next
    case gt: False
    define off where "off = (L - (I + 1)) mod I"
    have lt: "off < I" using I(2) by (simp add: off_def)
    let ?h = "if off = 0 then L else L + (I - off)"
    have d: "sint (word_of_nat L - (Interval ?r + 1)) = int (L - (I + 1))"
      using gt small by (subst sint_minus64) (simp_all add: first nxt)
    have "0 \<le> sint (word_of_nat L - (Interval ?r + 1))" "0 < sint (Interval ?r)" using d I by simp_all
    note M = smod_nonneg [OF this]
    have rem: "smod64 (word_of_nat L - (Interval ?r + 1)) (Interval ?r) = word_of_nat off"
      using small lt by (simp add: sint_inject64 [symmetric] M d I(1) off_def zmod_int sint_of_nat64)
    have zero: "(word_of_nat off :: i64) = 0 \<longleftrightarrow> off = 0"
      using small lt by (simp add: sint_zero_iff sint_of_nat64)
    have "NextRetargetHeight c
        = (Ok (if off = 0 then word_of_nat L else word_of_nat L + (Interval ?r - word_of_nat off)) :: ('e, i64) res)"
      using True gt by (simp add: NextRetargetHeight_def latest Let_def first nxt M(1) rem zero)
    moreover have "word_of_nat ?h = (if off = 0 then word_of_nat L else word_of_nat L + (Interval ?r - word_of_nat off))"
      using lt by (simp add: Iw of_nat_diff less_imp_le)
    ultimately have "NextRetargetHeight c = (Ok (word_of_nat ?h) :: ('e, i64) res)" by simp
    moreover have "retarget_due ?r ?h" using next_multiple(1) [OF I(2), of L, folded off_def] gt True by (simp add: due)
    moreover have "\<not> retarget_due ?r k" if "L \<le> k" "k < ?h" for k
      using next_multiple(2) [OF I(2), of L, folded off_def, OF _ that] gt that by (simp add: due)
    moreover have "L \<le> ?h" by simp
    ultimately have "\<exists>h. NextRetargetHeight c = (Ok (word_of_nat h) :: ('e, i64) res) \<and> L \<le> h
        \<and> retarget_due ?r h \<and> (\<forall>k. L \<le> k \<longrightarrow> k < h \<longrightarrow> \<not> retarget_due ?r k)" by blast
    with True show ?thesis by (simp add: L_def)
  qed
qed (simp add: NextRetargetHeight_def)


theorem NextRetargetHeight_is_next_witness:
  "NextRetargetHeight demo_chain = (Ok (- 1) :: (chain_error, i64) res)
   \<and> (\<exists>h. NextRetargetHeight (demo_chain\<lparr>Retarget := demo_retarget\<lparr>Enabled := True\<rparr>\<rparr>)
            = (Ok (word_of_nat h) :: (chain_error, i64) res)
        \<and> retarget_due (demo_retarget\<lparr>Enabled := True\<rparr>) h)"
proof -
  let ?c = "demo_chain\<lparr>Retarget := demo_retarget\<lparr>Enabled := True\<rparr>\<rparr>"
  have "ConfigureRetarget (demo_retarget\<lparr>Enabled := True\<rparr>) demo_chain = Ok ?c"
    by (simp add: ConfigureRetarget_def demo_chain_def demo_retarget_def RetargetConfig_Validate_def)
  then have "Validate plain_ed25519 ?c = Ok ()"
    using ConfigureRetarget_good [OF _ demo_chain_good] good_chain_Validate by blast
  moreover have "int (length (Blocks ?c)) + 2 * sint (Interval (Retarget ?c)) < 2 ^ 63"
    "int (length (Blocks demo_chain)) + 2 * sint (Interval (Retarget demo_chain)) < 2 ^ 63"
    by (simp_all add: demo_chain_def demo_retarget_def)
  ultimately show ?thesis
    using NextRetargetHeight_is_next [of plain_ed25519 ?c, where ?'e = chain_error]
      NextRetargetHeight_is_next [of plain_ed25519 demo_chain, where ?'e = chain_error]
      good_chain_Validate [OF demo_chain_good [of plain_ed25519]]
    by (auto simp: demo_chain_def demo_retarget_def)
qed

text \<open>
  C39. Validation of a chain file need not end: if the first block claims the largest height,
  the loop over the heights never finishes, because its counter wraps, and so neither does
  \<open>Validate\<close>, which computes the expected difficulty before it checks the height.
\<close>

theorem validation_can_hang:
  assumes "Blocks c = Some b # ps" "None \<notin> set ps" "length (Blocks c) < 2 ^ 63" "DifficultySchedule c \<noteq> []"
    and "RetargetConfig_Validate (Retarget c) = Ok ()" "Height b = max_int"
  shows "(\<forall>h rules d. height_loop c max_int h rules d = (None :: (validation_error, i64) res option))
    \<and> Validate ed c = Panic EndlessLoop"
proof -
  have cfg: "config_ok (Retarget c)" using assms(5) by (simp add: RetargetConfig_Validate_Ok)
  have nil: "None \<notin> set (Blocks c)" using assms(1,2) by simp
  have "validate_block ed c 0 ledger_New = Panic EndlessLoop"
    using ExpectedDifficulty_endless [OF cfg assms(3) nil, where ?'e = validation_error]
    by (simp add: validate_block_def assms(1,6))
  moreover have "[0..<length (Blocks c)] = 0 # [1..<length (Blocks c)]" using assms(1) by (simp add: upt_rec)
  ultimately have "Validate ed c = Panic EndlessLoop"
    using assms(1,4,5) by (simp add: Validate_def)
  then show ?thesis using height_loop_endless [OF cfg assms(3) nil] by blast
qed

theorem validation_can_hang_witness:
  "Validate plain_ed25519 (demo_chain\<lparr>Blocks := [Some (zero_block\<lparr>Height := max_int\<rparr>)]\<rparr>) = Panic EndlessLoop"
  using validation_can_hang [of "demo_chain\<lparr>Blocks := [Some (zero_block\<lparr>Height := max_int\<rparr>)]\<rparr>"
      "zero_block\<lparr>Height := max_int\<rparr>" "[]" plain_ed25519]
  by (simp add: demo_chain_def demo_retarget_def RetargetConfig_Validate_def)

end
