(* ===== verification/ChainFile.thy ===== *)
theory ChainFile
  imports Chain
begin

text \<open>
  Persistence of a chain (\<open>Save\<close> and \<open>Load\<close> of \<open>src/chain/chain.go\<close>): the JSON form of the
  structs, and a disk on which the system calls of \<open>Save\<close> act one after the other. The disk
  maps paths to file contents; directories and permissions only decide whether a call
  fails, and which calls fail is an input (\<open>save_faults\<close>), so theorems quantify over every
  failure. A crash is the disk after any prefix of the operations. A nil slice is written
  as \<open>null\<close> and an empty one as \<open>[]\<close>; both are the empty list here and both read back as it.
\<close>

section \<open>JSON form\<close>

definition rule_json :: "difficulty_rule \<Rightarrow> json" where
  "rule_json r = JObj [(''start_height'', json_i64 (StartHeight r)), (''difficulty'', json_i64 (RuleDifficulty r))]"

definition retarget_json :: "retarget_config \<Rightarrow> json" where
  "retarget_json r =
     JObj [(''enabled'', JBool (Enabled r)), (''interval'', json_i64 (Interval r)),
           (''target_block_seconds'', json_i64 (TargetBlockSeconds r)),
           (''min_difficulty'', json_i64 (MinDifficulty r)), (''max_difficulty'', json_i64 (MaxDifficulty r))]"

definition pointer_json :: "block option \<Rightarrow> json" where
  "pointer_json p = (case p of None \<Rightarrow> JNull | Some b \<Rightarrow> block_json b)"

definition chain_json :: "chain \<Rightarrow> json" where
  "chain_json c =
     JObj [(''blocks'', JArr (map pointer_json (Blocks c))), (''pending'', JArr (map tx_json (Pending c))),
           (''difficulty_schedule'', JArr (map rule_json (DifficultySchedule c))),
           (''retarget'', retarget_json (Retarget c)), (''max_tx_per_block'', json_i64 (MaxTxPerBlock c))]"

definition zero_rule :: difficulty_rule where
  "zero_rule = \<lparr>StartHeight = 0, RuleDifficulty = 0\<rparr>"

definition zero_retarget :: retarget_config where
  "zero_retarget =
     \<lparr>Enabled = False, Interval = 0, TargetBlockSeconds = 0, MinDifficulty = 0, MaxDifficulty = 0\<rparr>"

definition zero_chain :: chain where
  "zero_chain =
     \<lparr>Blocks = [], Pending = [], DifficultySchedule = [], Retarget = zero_retarget, MaxTxPerBlock = 0\<rparr>"

definition rule_fields :: "string list" where
  "rule_fields = [''start_height'', ''difficulty'']"

definition set_rule_field :: "string \<Rightarrow> json \<Rightarrow> difficulty_rule \<Rightarrow> difficulty_rule option" where
  "set_rule_field n v r =
     (if n = ''start_height'' then map_option (\<lambda>x. r\<lparr>StartHeight := x\<rparr>) (un_i64 v (StartHeight r))
      else map_option (\<lambda>x. r\<lparr>RuleDifficulty := x\<rparr>) (un_i64 v (RuleDifficulty r)))"

definition un_rule :: "json \<Rightarrow> difficulty_rule \<Rightarrow> difficulty_rule option" where
  "un_rule j r = un_struct rule_fields set_rule_field j r"

definition retarget_fields :: "string list" where
  "retarget_fields = [''enabled'', ''interval'', ''target_block_seconds'', ''min_difficulty'', ''max_difficulty'']"

definition set_retarget_field :: "string \<Rightarrow> json \<Rightarrow> retarget_config \<Rightarrow> retarget_config option" where
  "set_retarget_field n v r =
     (if n = ''enabled'' then map_option (\<lambda>x. r\<lparr>Enabled := x\<rparr>) (un_bool v (Enabled r))
      else if n = ''interval'' then map_option (\<lambda>x. r\<lparr>Interval := x\<rparr>) (un_i64 v (Interval r))
      else if n = ''target_block_seconds'' then
        map_option (\<lambda>x. r\<lparr>TargetBlockSeconds := x\<rparr>) (un_i64 v (TargetBlockSeconds r))
      else if n = ''min_difficulty'' then map_option (\<lambda>x. r\<lparr>MinDifficulty := x\<rparr>) (un_i64 v (MinDifficulty r))
      else map_option (\<lambda>x. r\<lparr>MaxDifficulty := x\<rparr>) (un_i64 v (MaxDifficulty r)))"

definition un_retarget :: "json \<Rightarrow> retarget_config \<Rightarrow> retarget_config option" where
  "un_retarget j r = un_struct retarget_fields set_retarget_field j r"

definition chain_fields :: "string list" where
  "chain_fields = [''blocks'', ''pending'', ''difficulty_schedule'', ''retarget'', ''max_tx_per_block'']"

text \<open>
  The elements of \<open>blocks\<close> are pointers, which are nil in a new element; an element the
  slice already has keeps its pointer.
\<close>

definition un_block_pointer :: "json \<Rightarrow> block option \<Rightarrow> block option option" where
  "un_block_pointer j p = un_pointer un_block zero_block j p"

definition set_chain_field :: "string \<Rightarrow> json \<Rightarrow> chain \<Rightarrow> chain option" where
  "set_chain_field n v c =
     (if n = ''blocks'' then
        map_option (\<lambda>x. c\<lparr>Blocks := x\<rparr>) (un_slice un_block_pointer None v (Blocks c))
      else if n = ''pending'' then
        map_option (\<lambda>x. c\<lparr>Pending := x\<rparr>) (un_slice un_tx zero_tx v (Pending c))
      else if n = ''difficulty_schedule'' then
        map_option (\<lambda>x. c\<lparr>DifficultySchedule := x\<rparr>) (un_slice un_rule zero_rule v (DifficultySchedule c))
      else if n = ''retarget'' then map_option (\<lambda>x. c\<lparr>Retarget := x\<rparr>) (un_retarget v (Retarget c))
      else map_option (\<lambda>x. c\<lparr>MaxTxPerBlock := x\<rparr>) (un_i64 v (MaxTxPerBlock c)))"

definition un_chain :: "json \<Rightarrow> chain \<Rightarrow> chain option" where
  "un_chain j c = un_struct chain_fields set_chain_field j c"

definition san_chain :: "chain \<Rightarrow> chain" where
  "san_chain c = c\<lparr>Blocks := map (map_option san_block) (Blocks c), Pending := map san_tx (Pending c)\<rparr>"

definition utf8_chain :: "chain \<Rightarrow> bool" where
  "utf8_chain c \<longleftrightarrow> (\<forall>b. Some b \<in> set (Blocks c) \<longrightarrow> utf8_block b) \<and> list_all utf8_tx (Pending c)"

section \<open>Lemmas on the JSON form\<close>

lemma nums_ok_chain [simp]: "nums_ok (rule_json r)" "nums_ok (retarget_json q)" "nums_ok (pointer_json p)" "nums_ok (chain_json c)"
  by (auto simp: rule_json_def retarget_json_def pointer_json_def chain_json_def list_all_iff split: option.split)

lemma sanitize_chain_fields [simp]:
  "list_all (\<lambda>k. sanitize k = k) rule_fields" "list_all (\<lambda>k. sanitize k = k) retarget_fields"
  "list_all (\<lambda>k. sanitize k = k) chain_fields"
  by (simp_all add: rule_fields_def retarget_fields_def chain_fields_def ascii_def byte_def)

lemma san_rule_json [simp]: "san_json (rule_json r) = rule_json r"
  using sanitize_chain_fields by (simp add: rule_json_def rule_fields_def)

lemma san_retarget_json [simp]: "san_json (retarget_json r) = retarget_json r"
  using sanitize_chain_fields by (simp add: retarget_json_def retarget_fields_def)

lemma san_pointer_json: "san_json (pointer_json p) = pointer_json (map_option san_block p)"
  by (simp add: pointer_json_def san_block_json split: option.split)

lemma san_chain_json: "san_json (chain_json c) = chain_json (san_chain c)"
  using sanitize_chain_fields
  by (simp add: chain_json_def san_chain_def chain_fields_def san_pointer_json san_tx_json)

lemma un_rule_json [simp]: "un_rule (rule_json r) zero_rule = Some r"
  by (simp add: un_rule_def un_struct_def rule_json_def set_rule_field_def rule_fields_def zero_rule_def)

lemma un_retarget_json [simp]: "un_retarget (retarget_json r) zero_retarget = Some r"
  by (simp add: un_retarget_def un_struct_def retarget_json_def set_retarget_field_def retarget_fields_def
      zero_retarget_def)

lemma block_json_not_null: "block_json b \<noteq> JNull"
  by (simp add: block_json_def)

lemma un_pointer_json [simp]: "un_block_pointer (pointer_json p) None = Some p"
proof (cases p)
  case (Some b)
  then show ?thesis
    using block_json_not_null [of b] un_block_json [of b]
    by (cases "block_json b") (simp_all add: un_block_pointer_def un_pointer_def pointer_json_def)
qed (simp add: un_block_pointer_def un_pointer_def pointer_json_def)

lemma un_slice_json:
  "(\<And>x. un (to x) zero = Some x) \<Longrightarrow> un_slice un zero (JArr (map to xs)) [] = Some xs"
  using un_slice_map [of xs un to zero id] by simp

lemma un_chain_json [simp]: "un_chain (chain_json c) zero_chain = Some c"
  by (simp add: un_chain_def un_struct_def chain_json_def set_chain_field_def chain_fields_def
      zero_chain_def un_slice_json)

lemma san_chain_utf8: "utf8_chain c \<Longrightarrow> san_chain c = c"
proof -
  assume u: "utf8_chain c"
  then have "map_option san_block p = p" if "p \<in> set (Blocks c)" for p
    using that by (cases p) (auto simp: utf8_chain_def)
  then have "map (map_option san_block) (Blocks c) = Blocks c" by (simp add: map_idI)
  moreover have "map san_tx (Pending c) = Pending c"
    using u by (auto simp: utf8_chain_def list_all_iff intro: map_idI)
  ultimately show ?thesis by (simp add: san_chain_def)
qed

lemma parse_chain: "parse_json (MarshalIndent (chain_json c)) = Some (chain_json (san_chain c))"
  by (simp add: MarshalIndent_def parse_render san_chain_json)

lemma parse_chain_compact: "parse_json (Marshal (chain_json c)) = Some (chain_json (san_chain c))"
  by (simp add: Marshal_def parse_render san_chain_json)


section \<open>The disk\<close>

type_synonym disk = "string \<rightharpoonup> string"

text \<open>
  The system calls that change a file. A write is a sequence of one-byte appends, so that
  the disk after any part of it is the disk after a prefix of the sequence. Creating
  directories, syncing and closing do not change the contents of files.
\<close>

datatype fs_op =
    MkdirAll
  | OpenTruncate string
  | AppendByte string char
  | SyncFile
  | CloseFile
  | RenameFile string string
  | RemoveFile string

fun fs_apply :: "fs_op \<Rightarrow> disk \<Rightarrow> disk" where
  "fs_apply MkdirAll d = d"
| "fs_apply (OpenTruncate p) d = d(p \<mapsto> [])"
| "fs_apply (AppendByte p c) d = (case d p of None \<Rightarrow> d | Some s \<Rightarrow> d(p \<mapsto> s @ [c]))"
| "fs_apply SyncFile d = d"
| "fs_apply CloseFile d = d"
| "fs_apply (RenameFile p q) d = (case d p of None \<Rightarrow> d | Some s \<Rightarrow> (d(q \<mapsto> s))(p := None))"
| "fs_apply (RemoveFile p) d = d(p := None)"

definition temporary :: "string \<Rightarrow> string" where
  "temporary path = path @ ''.tmp''"

text \<open>Which calls of one \<open>Save\<close> fail; \<open>WriteStops n\<close> is a write that fails after \<open>n\<close> bytes.\<close>

record save_faults =
  MkdirFails :: bool
  OpenFails :: bool
  WriteStops :: "nat option"
  SyncFails :: bool
  CloseFails :: bool
  RenameFails :: bool
  RemoveFails :: bool

datatype save_error =
    CreatingDirectory
  | CreatingTemporary
  | WritingTemporary
  | SyncingTemporary
  | ClosingTemporary
  | ReplacingFile

text \<open>The deferred function closes the file and, unless the save completed, removes it.\<close>

definition save_cleanup :: "save_faults \<Rightarrow> string \<Rightarrow> fs_op list" where
  "save_cleanup f path = CloseFile # (if RemoveFails f then [] else [RemoveFile (temporary path)])"

text \<open>
  The operations that \<open>Save\<close> performs on the disk, in order, and its result. The encoder
  cannot fail on these types, so the first error branch of the code does not occur.
\<close>

definition save_ops :: "save_faults \<Rightarrow> string \<Rightarrow> string \<Rightarrow> fs_op list \<times> (save_error, unit) res" where
  "save_ops f path data =
     (let tmp = temporary path; written = map (AppendByte tmp) data in
      if MkdirFails f then ([], Err CreatingDirectory)
      else if OpenFails f then ([MkdirAll], Err CreatingTemporary)
      else
        (case WriteStops f of
           Some n \<Rightarrow> ([MkdirAll, OpenTruncate tmp] @ take n written @ save_cleanup f path, Err WritingTemporary)
         | None \<Rightarrow>
             (let ops = [MkdirAll, OpenTruncate tmp] @ written in
              if SyncFails f then (ops @ save_cleanup f path, Err SyncingTemporary)
              else if CloseFails f then (ops @ SyncFile # save_cleanup f path, Err ClosingTemporary)
              else if RenameFails f then (ops @ SyncFile # CloseFile # save_cleanup f path, Err ReplacingFile)
              else (ops @ [SyncFile, CloseFile, RenameFile tmp path], Ok ()))))"

definition chain_bytes :: "chain \<Rightarrow> string" where
  "chain_bytes c = MarshalIndent (chain_json c)"

definition Save :: "save_faults \<Rightarrow> string \<Rightarrow> chain \<Rightarrow> disk \<Rightarrow> disk \<times> (save_error, unit) res" where
  "Save f path c d =
     (case save_ops f path (chain_bytes c) of (ops, r) \<Rightarrow> (fold fs_apply ops d, r))"

datatype load_error =
    FileNotExist
  | ReadingFailed
  | ParsingChain
  | LoadedInvalid validation_error

text \<open>
  \<open>os.ReadFile\<close>; \<open>fails\<close> says whether reading fails for another reason than that there is no
  such file.
\<close>

definition Load :: "ed25519 \<Rightarrow> bool \<Rightarrow> string \<Rightarrow> disk \<Rightarrow> (load_error, chain) res" where
  "Load ed fails path d =
     (if fails then Err ReadingFailed
      else
        (case d path of
           None \<Rightarrow> Err FileNotExist
         | Some data \<Rightarrow>
             (case parse_json data of
                None \<Rightarrow> Err ParsingChain
              | Some j \<Rightarrow>
                  (case un_chain j zero_chain of
                     None \<Rightarrow> Err ParsingChain
                   | Some c \<Rightarrow> bind_res (map_err LoadedInvalid (Validate ed c)) (\<lambda>_. Ok c)))))"

section \<open>Lemmas on saving\<close>

lemma temporary_not_path [simp]: "temporary path \<noteq> path" "path \<noteq> temporary path"
  by (simp_all add: temporary_def)

lemma fold_append_bytes:
  "d p = Some s \<Longrightarrow> fold fs_apply (map (AppendByte p) data) d = d(p \<mapsto> s @ data)"
  by (induction data arbitrary: d s) auto

text \<open>Operations that do not touch the chain file itself.\<close>

definition spares :: "string \<Rightarrow> fs_op \<Rightarrow> bool" where
  "spares path op = (case op of
      OpenTruncate p \<Rightarrow> p \<noteq> path
    | AppendByte p c \<Rightarrow> p \<noteq> path
    | RenameFile p q \<Rightarrow> p \<noteq> path \<and> q \<noteq> path
    | RemoveFile p \<Rightarrow> p \<noteq> path
    | _ \<Rightarrow> True)"

lemma fs_apply_spares: "spares path op \<Longrightarrow> fs_apply op d path = d path"
  by (cases op) (auto simp: spares_def split: option.split)

lemma fold_spares: "list_all (spares path) ops \<Longrightarrow> fold fs_apply ops d path = d path"
  by (induction ops arbitrary: d) (auto simp: fs_apply_spares)

lemma list_all_take: "list_all P xs \<Longrightarrow> list_all P (take n xs)"
  by (auto simp: list_all_iff dest: in_set_takeD)

lemma spares_written [simp]:
  "q \<noteq> p \<Longrightarrow> list_all (spares p) (map (AppendByte q) data)"
  "q \<noteq> p \<Longrightarrow> list_all (spares p) (take n (map (AppendByte q) data))"
  by (auto simp: list_all_iff spares_def dest!: in_set_takeD)

lemma spares_cleanup [simp]: "p \<noteq> temporary path \<Longrightarrow> list_all (spares p) (save_cleanup f path)"
  by (auto simp: save_cleanup_def spares_def)

text \<open>Only the last operation of a successful save touches the chain file.\<close>

lemma save_ops_shape:
  assumes "save_ops f path data = (ops, r)" "p \<noteq> temporary path"
  shows "(list_all (spares p) ops \<and> (\<exists>e. r = Err e))
    \<or> (r = Ok () \<and> (\<exists>ops'. ops = ops' @ [RenameFile (temporary path) path] \<and> list_all (spares p) ops'
         \<and> (\<forall>d. fold fs_apply ops' d = d(temporary path \<mapsto> data))))"
proof (cases "r = Ok ()")
  case True
  let ?ops = "[MkdirAll, OpenTruncate (temporary path)] @ map (AppendByte (temporary path)) data @ [SyncFile, CloseFile]"
  have "ops = ?ops @ [RenameFile (temporary path) path]"
    using assms(1) True by (auto simp: save_ops_def Let_def split: if_splits option.splits)
  moreover have "list_all (spares p) ?ops" using assms(2) by (simp add: spares_def)
  moreover have "fold fs_apply ?ops d = d(temporary path \<mapsto> data)" for d
    using fold_append_bytes [of "d(temporary path \<mapsto> [])" "temporary path" "[]" data] by simp
  ultimately show ?thesis using True by blast
next
  case False
  have "spares p MkdirAll" "spares p SyncFile" "spares p CloseFile" "spares p (OpenTruncate (temporary path))"
    using assms(2) by (simp_all add: spares_def)
  with assms False show ?thesis
    by (auto simp: save_ops_def Let_def split: if_splits option.splits)
qed

lemma Save_Ok:
  assumes "Save f path c d = (d', Ok ())"
  shows "d' = (d(path \<mapsto> chain_bytes c))(temporary path := None)"
proof -
  obtain ops where ops: "save_ops f path (chain_bytes c) = (ops, Ok ())" "d' = fold fs_apply ops d"
    using assms by (auto simp: Save_def split: prod.splits)
  from save_ops_shape [OF ops(1), of path] obtain ops' where
    "ops = ops' @ [RenameFile (temporary path) path]" "fold fs_apply ops' d = d(temporary path \<mapsto> chain_bytes c)"
    by auto
  with ops(2) show ?thesis by (auto simp: fun_eq_iff)
qed

lemma Load_saved:
  assumes "d path = Some (chain_bytes c)"
  shows "Load ed False path d
    = bind_res (map_err LoadedInvalid (Validate ed (san_chain c))) (\<lambda>_. Ok (san_chain c))"
  using assms by (simp add: Load_def chain_bytes_def parse_chain)


lemma crash_states:
  assumes "save_ops f path data = (ops, r)"
  shows "fold fs_apply (take k ops) d path = d path
    \<or> (r = Ok () \<and> fold fs_apply (take k ops) d path = Some data)"
proof -
  consider "list_all (spares path) ops"
    | ops' where "r = Ok ()" "ops = ops' @ [RenameFile (temporary path) path]" "list_all (spares path) ops'"
        "\<forall>d. fold fs_apply ops' d = d(temporary path \<mapsto> data)"
    using save_ops_shape [OF assms, of path] by auto
  then show ?thesis
  proof cases
    case 1
    then show ?thesis by (simp add: fold_spares list_all_take)
  next
    case 2
    show ?thesis
    proof (cases "k \<le> length ops'")
      case True
      with 2 show ?thesis by (simp add: fold_spares list_all_take)
    next
      case False
      with 2(2) have "take k ops = ops" by simp
      with 2 show ?thesis by simp
    qed
  qed
qed

lemma Save_cases:
  assumes "Save f path k d = (d', r)"
  shows "(d' path = d path \<and> r \<noteq> Ok ()) \<or> (d' path = Some (chain_bytes k) \<and> r = Ok ())"
proof (cases "r = Ok ()")
  case True
  then show ?thesis using Save_Ok [of f path k d d'] assms by simp
next
  case False
  obtain ops where ops: "save_ops f path (chain_bytes k) = (ops, r)" "d' = fold fs_apply ops d"
    using assms by (auto simp: Save_def split: prod.splits)
  from crash_states [OF ops(1), of "length ops" d] ops(2) False show ?thesis by simp
qed

lemma Save_result: "Save f path k d = (d', r) \<Longrightarrow> r = Ok () \<or> (\<exists>e. r = Err e)"
  by (auto simp: Save_def save_ops_def Let_def split: if_splits option.splits prod.splits)

lemma save_other_files:
  assumes "save_ops f path data = (ops, r)" "p \<noteq> path" "p \<noteq> temporary path"
  shows "fold fs_apply (take k ops) d p = d p"
proof -
  have "list_all (spares p) ops"
    using save_ops_shape [OF assms(1,3)] assms(2,3) by (auto simp: spares_def)
  then show ?thesis by (simp add: fold_spares list_all_take)
qed

lemma Load_cong: "d path = d' path \<Longrightarrow> Load ed fails path d = Load ed fails path d'"
  by (simp add: Load_def)

definition no_faults :: save_faults where
  "no_faults = \<lparr>MkdirFails = False, OpenFails = False, WriteStops = None, SyncFails = False, CloseFails = False,
     RenameFails = False, RemoveFails = False\<rparr>"

lemma Save_no_faults: "snd (Save no_faults path c d) = Ok ()"
  by (simp add: Save_def save_ops_def no_faults_def Let_def)

lemma utf8_genesis [simp]: "utf8_block ((genesis_block d)\<lparr>Hash := ComputeHash (genesis_block d)\<rparr>)"
  by (simp add: utf8_block_def genesis_block_def)

lemma demo_pooled_utf8: "utf8_chain demo_pooled"
  by (simp add: utf8_chain_def demo_pooled_def demo_chain_def grant_def utf8_tx_def ascii_def byte_def
      FaucetAccount_def)

section \<open>Properties\<close>

text \<open>
  C14. Save and load round trip: a chain whose strings are UTF-8, validates and was saved
  successfully is loaded back exactly, and the save leaves no temporary file and changes no
  other file.
\<close>

theorem load_after_save:
  assumes "Save f path c d = (d', Ok ())" "utf8_chain c" "Validate ed c = Ok ()"
  shows "Load ed False path d' = Ok c \<and> d' (temporary path) = None
    \<and> (\<forall>p. p \<noteq> path \<longrightarrow> p \<noteq> temporary path \<longrightarrow> d' p = d p)"
  using Load_saved [of d' path c ed] assms(2,3)
  by (simp add: Save_Ok [OF assms(1)] san_chain_utf8)

theorem load_after_save_witness:
  "Load plain_ed25519 False ''chain.json'' (fst (Save no_faults ''chain.json'' demo_pooled Map.empty)) = Ok demo_pooled"
proof -
  have "Save no_faults ''chain.json'' demo_pooled Map.empty
      = (fst (Save no_faults ''chain.json'' demo_pooled Map.empty), Ok ())"
    using Save_no_faults [of "''chain.json''" demo_pooled Map.empty] by (simp add: prod_eq_iff)
  from load_after_save [OF this demo_pooled_utf8 good_chain_Validate [OF demo_pooled_good]] show ?thesis by blast
qed

text \<open>
  What a saved chain is read back as, UTF-8 or not: bytes that are not UTF-8 come back as
  U+FFFD, and the chain with these replacements is validated again; it is loaded exactly
  when that chain validates.
\<close>

theorem load_replaces_invalid_bytes:
  assumes "Save f path c d = (d', Ok ())"
  shows "Load ed False path d'
    = bind_res (map_err LoadedInvalid (Validate ed (san_chain c))) (\<lambda>_. Ok (san_chain c))"
  using Load_saved [of d' path c ed] by (simp add: Save_Ok [OF assms])

theorem load_replaces_invalid_bytes_witness:
  "Load plain_ed25519 False ''c'' (fst (Save no_faults ''c'' zero_chain Map.empty))
     = Err (LoadedInvalid (ValidationError (- 1) ChainEmpty))"
proof -
  have "Save no_faults ''c'' zero_chain Map.empty = (fst (Save no_faults ''c'' zero_chain Map.empty), Ok ())"
    using Save_no_faults [of "''c''" zero_chain Map.empty] by (simp add: prod_eq_iff)
  from load_replaces_invalid_bytes [OF this, of plain_ed25519]
  show ?thesis by (simp add: san_chain_def zero_chain_def Validate_def)
qed

text \<open>
  C15. Saving is atomic: whatever calls fail and wherever the process stops, the chain file holds
  either what it held or the complete new chain, a save that reports an error has left it
  as it was, and no file other than it and its temporary file is touched.
\<close>

theorem save_is_atomic:
  assumes "save_ops f path (chain_bytes c) = (ops, r)"
  shows "(Load ed fails path (fold fs_apply (take k ops) d) = Load ed fails path d
          \<or> (r = Ok () \<and> fold fs_apply (take k ops) d path = Some (chain_bytes c)))
    \<and> (\<forall>p. p \<noteq> path \<longrightarrow> p \<noteq> temporary path \<longrightarrow> fold fs_apply (take k ops) d p = d p)
    \<and> (r \<noteq> Ok () \<longrightarrow> fst (Save f path c d) path = d path)"
proof -
  have "r \<noteq> Ok () \<Longrightarrow> fst (Save f path c d) path = d path"
    using crash_states [OF assms, of "length ops" d] assms by (simp add: Save_def)
  then show ?thesis
    using crash_states [OF assms, of k d] save_other_files [OF assms]
      Load_cong [of "fold fs_apply (take k ops) d" path d] by blast
qed

theorem save_is_atomic_witness:
  "\<exists>ops. save_ops (no_faults\<lparr>WriteStops := Some 3\<rparr>) ''c'' (chain_bytes demo_chain) = (ops, Err WritingTemporary)
     \<and> fst (Save (no_faults\<lparr>WriteStops := Some 3\<rparr>) ''c'' demo_chain [''c'' \<mapsto> ''old'']) ''c'' = Some ''old''"
proof -
  obtain ops where ops: "save_ops (no_faults\<lparr>WriteStops := Some 3\<rparr>) ''c'' (chain_bytes demo_chain) = (ops, Err WritingTemporary)"
    by (simp add: save_ops_def no_faults_def Let_def)
  from save_is_atomic [OF this] have
    "fst (Save (no_faults\<lparr>WriteStops := Some 3\<rparr>) ''c'' demo_chain [''c'' \<mapsto> ''old'']) ''c'' = Some ''old''" by simp
  with ops show ?thesis by blast
qed

end
