(* ===== verification/Fork.thy ===== *)
theory Fork
  imports ChainFile "HOL-Library.Sublist"
begin

text \<open>
  Fork resolution (\<open>src/chain/fork.go\<close>): accumulated work, the common ancestor, the checks
  under which a candidate chain replaces the local one, and the merging of the two pending
  pools. \<open>math/big\<close> integers are HOL integers; chain pointers that may be nil are options.
\<close>

section \<open>Operations\<close>

record fork_result =
  OldHeight :: i64
  NewHeight :: i64
  AncestorHeight :: i64
  OldWork :: string
  NewWork :: string
  PendingKept :: i64
  PendingDropped :: i64

datatype fork_error =
    CurrentNil
  | CandidateNil
  | CurrentInvalid validation_error
  | CandidateInvalid validation_error
  | ErrDifferentGenesis
  | ErrIncompatibleConsensus
  | ErrCandidateNotStronger
  | CopyingCandidate

definition block_work :: "block option \<Rightarrow> int" where
  "block_work p =
     (case p of None \<Rightarrow> 0
      | Some b \<Rightarrow> if sint (Difficulty b) < 0 then 0 else 16 ^ nat (sint (Difficulty b)))"

definition TotalWork :: "chain \<Rightarrow> int" where
  "TotalWork c = sum_list (map block_work (Blocks c))"

text \<open>The loop of \<open>CommonAncestorHeight\<close> over the blocks that both chains have.\<close>

fun ancestor_loop :: "block option list \<Rightarrow> block option list \<Rightarrow> i64 \<Rightarrow> i64" where
  "ancestor_loop (Some l # ls) (Some r # rs) ancestor =
     (if Hash l \<noteq> Hash r then ancestor else ancestor_loop ls rs (Height l))"
| "ancestor_loop _ _ ancestor = ancestor"

definition CommonAncestorHeight :: "chain option \<Rightarrow> chain option \<Rightarrow> i64" where
  "CommonAncestorHeight c candidate =
     (case (c, candidate) of
        (Some x, Some y) \<Rightarrow> ancestor_loop (Blocks x) (Blocks y) (- 1)
      | _ \<Rightarrow> - 1)"

definition sameDifficultySchedule :: "difficulty_rule list \<Rightarrow> difficulty_rule list \<Rightarrow> bool" where
  "sameDifficultySchedule l r \<longleftrightarrow> sort_slice StartHeight l = sort_slice StartHeight r"

definition cloneChain :: "chain \<Rightarrow> (fork_error, chain) res" where
  "cloneChain source =
     (case parse_json (Marshal (chain_json source)) of
        None \<Rightarrow> Err CopyingCandidate
      | Some j \<Rightarrow> (case un_chain j zero_chain of None \<Rightarrow> Err CopyingCandidate | Some c \<Rightarrow> Ok c))"

definition transactionIdentifier :: "transaction \<Rightarrow> string" where
  "transactionIdentifier t = hex_encode (sha256 (Marshal (tx_json t)))"

fun revalidate_loop :: "ed25519 \<Rightarrow> transaction list \<Rightarrow> string set \<Rightarrow> i64 \<Rightarrow> i64 \<Rightarrow> chain \<Rightarrow>
    (fork_error, chain \<times> i64 \<times> i64) res" where
  "revalidate_loop ed [] seen kept dropped target = Ok (target, kept, dropped)"
| "revalidate_loop ed (t # ts) seen kept dropped target =
     (if transactionIdentifier t \<in> seen then revalidate_loop ed ts seen kept (dropped + 1) target
      else
        (case AddTransaction ed t target of
           Panic p \<Rightarrow> Panic p
         | Err e \<Rightarrow> revalidate_loop ed ts (insert (transactionIdentifier t) seen) kept (dropped + 1) target
         | Ok target' \<Rightarrow> revalidate_loop ed ts (insert (transactionIdentifier t) seen) (kept + 1) dropped target'))"

definition revalidatePending :: "ed25519 \<Rightarrow> chain \<Rightarrow> transaction list \<Rightarrow> (fork_error, chain \<times> i64 \<times> i64) res" where
  "revalidatePending ed target transactions = revalidate_loop ed transactions {} 0 0 target"

definition genesis_hash :: "chain \<Rightarrow> (fork_error, string) res" where
  "genesis_hash c = bind_res (index_at (Blocks c) 0) (\<lambda>p. bind_res (deref p) (\<lambda>b. Ok (Hash b)))"

definition latest_height :: "chain \<Rightarrow> (fork_error, i64) res" where
  "latest_height c = bind_res (bind_res (Latest c) deref) (\<lambda>b. Ok (Height b))"

text \<open>The checks, in the order of the code.\<close>

definition fork_checks :: "ed25519 \<Rightarrow> chain \<Rightarrow> chain \<Rightarrow> (fork_error, unit) res" where
  "fork_checks ed c k =
     bind_res (map_err CurrentInvalid (Validate ed c)) (\<lambda>_.
     bind_res (map_err CandidateInvalid (Validate ed k)) (\<lambda>_.
     bind_res
       (if Blocks c = [] \<or> Blocks k = [] then Ok True
        else bind_res (genesis_hash c) (\<lambda>g. bind_res (genesis_hash k) (\<lambda>h. Ok (g \<noteq> h))))
       (\<lambda>different.
         if different then Err ErrDifferentGenesis
         else if Retarget c \<noteq> Retarget k \<or> MaxTxPerBlock c \<noteq> MaxTxPerBlock k
              \<or> \<not> sameDifficultySchedule (DifficultySchedule c) (DifficultySchedule k)
         then Err ErrIncompatibleConsensus
         else if TotalWork k \<le> TotalWork c then Err ErrCandidateNotStronger
         else Ok ())))"

text \<open>
  \<open>ResolveFork\<close> returns the chain that the local one becomes; every field is replaced by
  the candidate copy's, so it is that copy after its pool was rebuilt.
\<close>

definition ResolveFork ::
  "ed25519 \<Rightarrow> chain option \<Rightarrow> chain option \<Rightarrow> (fork_error, chain \<times> fork_result) res" where
  "ResolveFork ed current candidate =
     (case current of None \<Rightarrow> Err CurrentNil
      | Some c \<Rightarrow>
        (case candidate of None \<Rightarrow> Err CandidateNil
         | Some k \<Rightarrow>
           bind_res (fork_checks ed c k) (\<lambda>_.
           bind_res (latest_height c) (\<lambda>oldHeight.
           bind_res (cloneChain k) (\<lambda>copy.
           bind_res (revalidatePending ed (copy\<lparr>Pending := []\<rparr>) (Pending copy @ Pending c)) (\<lambda>(adopted, kept, dropped).
           bind_res (latest_height adopted) (\<lambda>newHeight.
           Ok (adopted,
               \<lparr>OldHeight = oldHeight, NewHeight = newHeight,
                AncestorHeight = CommonAncestorHeight (Some c) (Some k),
                OldWork = dec_int (TotalWork c), NewWork = dec_int (TotalWork k),
                PendingKept = kept, PendingDropped = dropped\<rparr>))))))))"

section \<open>Lemmas\<close>

lemma cloneChain_Ok [simp]: "cloneChain k = Ok (san_chain k)"
  by (simp add: cloneChain_def parse_chain_compact)

lemma san_block_fields [simp]:
  "Difficulty (san_block b) = Difficulty b" "Height (san_block b) = Height b" "Timestamp (san_block b) = Timestamp b"
  by (simp_all add: san_block_def)

lemma san_chain_fields [simp]:
  "DifficultySchedule (san_chain c) = DifficultySchedule c" "Retarget (san_chain c) = Retarget c"
  "MaxTxPerBlock (san_chain c) = MaxTxPerBlock c" "Pending (san_chain c) = map san_tx (Pending c)"
  "Blocks (san_chain c) = map (map_option san_block) (Blocks c)"
  by (simp_all add: san_chain_def)

lemma TotalWork_san [simp]: "TotalWork (san_chain c) = TotalWork c"
proof -
  have "block_work (map_option san_block p) = block_work p" for p
    by (cases p) (simp_all add: block_work_def)
  then show ?thesis by (simp add: TotalWork_def comp_def)
qed

lemma TotalWork_Blocks: "Blocks c = Blocks d \<Longrightarrow> TotalWork c = TotalWork d"
  by (simp add: TotalWork_def)

lemma AddTransaction_frame:
  "AddTransaction ed t c = Ok c' \<Longrightarrow> c' = c\<lparr>Pending := Pending c @ [t]\<rparr>"
  by (auto simp: AddTransaction_Ok)

text \<open>
  What the loop does: it appends a subsequence of the given transactions, without two of the
  same identifier, counts every transaction once, and keeps the chain's invariant.
\<close>

lemma revalidate_loop_Ok:
  assumes "revalidate_loop ed ts seen kept dropped c = Ok (c', kept', dropped')"
  shows "\<exists>xs. c' = c\<lparr>Pending := Pending c @ xs\<rparr> \<and> subseq xs ts
    \<and> distinct (map transactionIdentifier xs) \<and> set (map transactionIdentifier xs) \<inter> seen = {}
    \<and> kept' = kept + word_of_nat (length xs) \<and> kept' + dropped' = kept + dropped + word_of_nat (length ts)
    \<and> (good_chain ed c \<longrightarrow> good_chain ed c')"
  using assms
proof (induction ed ts seen kept dropped c rule: revalidate_loop.induct)
  case (1 ed seen kept dropped target)
  then show ?case by (intro exI [of _ "[]"]) simp
next
  case (2 ed t ts seen kept dropped target)
  let ?id = "transactionIdentifier t"
  consider (dup) "?id \<in> seen" | (rejected) e where "?id \<notin> seen" "AddTransaction ed t target = Err e"
    | (accepted) target' where "?id \<notin> seen" "AddTransaction ed t target = Ok target'"
    using "2.prems" by (auto split: res.splits if_splits)
  then show ?case
  proof cases
    case dup
    with "2.prems" have "revalidate_loop ed ts seen kept (dropped + 1) target = Ok (c', kept', dropped')" by simp
    from "2.IH"(1) [OF dup this] show ?thesis by (elim exE, intro exI) (auto simp: algebra_simps)
  next
    case rejected
    with "2.prems" have
      "revalidate_loop ed ts (insert ?id seen) kept (dropped + 1) target = Ok (c', kept', dropped')" by simp
    from "2.IH"(3) [OF rejected this] show ?thesis by (elim exE, intro exI) (auto simp: algebra_simps)
  next
    case accepted
    with "2.prems" have
      "revalidate_loop ed ts (insert ?id seen) (kept + 1) dropped target' = Ok (c', kept', dropped')" by simp
    from "2.IH"(2) [OF accepted this] obtain xs where
      xs: "c' = target'\<lparr>Pending := Pending target' @ xs\<rparr>" "subseq xs ts" "distinct (map transactionIdentifier xs)"
        "set (map transactionIdentifier xs) \<inter> insert ?id seen = {}"
        "kept' = kept + 1 + word_of_nat (length xs)"
        "kept' + dropped' = kept + 1 + dropped + word_of_nat (length ts)"
        "good_chain ed target' \<longrightarrow> good_chain ed c'"
      by auto
    from accepted(2) have t': "target' = target\<lparr>Pending := Pending target @ [t]\<rparr>" by (rule AddTransaction_frame)
    show ?thesis
    proof (intro exI [of _ "t # xs"] conjI)
      show "good_chain ed target \<longrightarrow> good_chain ed c'"
        using xs(7) AddTransaction_good [OF accepted(2)] by blast
    qed (use xs accepted in \<open>auto simp: t' algebra_simps\<close>)
  qed
qed


lemma revalidate_loop_no_panic:
  assumes "Rebuild ed (Blocks c) = Ok l" "fold_res (Apply ed) (Pending c) l = Ok l'"
  shows "is_Ok (revalidate_loop ed ts seen kept dropped c)"
  using assms
proof (induction ed ts seen kept dropped c arbitrary: l' rule: revalidate_loop.induct)
  case (2 ed t ts seen kept dropped target)
  have step: "AddTransaction ed t target = map_err RejectedTransaction
      (bind_res (ValidateTransaction ed l' t) (\<lambda>_. Ok (target\<lparr>Pending := Pending target @ [t]\<rparr>)))"
    using "2.prems" by (cases "ValidateTransaction ed l' t") (simp_all add: AddTransaction_def Ledger_def)
  show ?case
  proof (cases "ValidateTransaction ed l' t")
    case (Ok u)
    then have a: "AddTransaction ed t target = Ok (target\<lparr>Pending := Pending target @ [t]\<rparr>)" by (simp add: step)
    have "Apply ed t l' = Ok (credit t (debit t l'))" using Ok by (simp add: Apply_def)
    then have "fold_res (Apply ed) (Pending target @ [t]) l = Ok (credit t (debit t l'))"
      using "2.prems"(2) by (simp add: fold_res_append)
    then show ?thesis using "2.IH"(1) [OF _ "2.prems"] "2.IH"(2) [OF _ a, of "credit t (debit t l')"] "2.prems"(1) a
      by simp
  next
    case (Err e)
    then have a: "AddTransaction ed t target = Err (RejectedTransaction e)" by (simp add: step)
    show ?thesis using "2.IH"(1) [OF _ "2.prems"] "2.IH"(3) [OF _ a "2.prems"] a by simp
  next
    case (Panic p)
    then show ?thesis using no_panic_ValidateTransaction [of ed l' t] by simp
  qed
qed simp

subsection \<open>The checks\<close>

text \<open>The condition on two chains without their work: an equivalence of chains.\<close>

definition same_network :: "chain \<Rightarrow> chain \<Rightarrow> bool" where
  "same_network c k \<longleftrightarrow>
     map_option Hash (hd (Blocks c)) = map_option Hash (hd (Blocks k))
     \<and> Retarget c = Retarget k \<and> MaxTxPerBlock c = MaxTxPerBlock k
     \<and> sort_slice StartHeight (DifficultySchedule c) = sort_slice StartHeight (DifficultySchedule k)"

lemma same_network_refl [simp]: "same_network c c"
  and same_network_sym: "same_network c k \<Longrightarrow> same_network k c"
  and same_network_trans: "same_network c k \<Longrightarrow> same_network k d \<Longrightarrow> same_network c d"
  by (simp_all add: same_network_def)

lemma same_network_pool: "same_network (k\<lparr>Pending := xs\<rparr>) d \<longleftrightarrow> same_network k d"
  by (simp add: same_network_def)

lemma genesis_hash_valid: "Blocks c = map Some bs \<Longrightarrow> bs \<noteq> [] \<Longrightarrow> genesis_hash c = Ok (Hash (hd bs))"
  by (cases bs) (simp_all add: genesis_hash_def index_at_def)

lemma fork_checks_valid:
  assumes "valid_chain ed c bs" "valid_chain ed k ds" "length (Blocks c) < 2 ^ 63" "length (Blocks k) < 2 ^ 63"
  shows "fork_checks ed c k =
    (if Hash (hd bs) \<noteq> Hash (hd ds) then Err ErrDifferentGenesis
     else if \<not> same_network c k then Err ErrIncompatibleConsensus
     else if TotalWork k \<le> TotalWork c then Err ErrCandidateNotStronger
     else Ok ())"
proof -
  from assms have v: "Validate ed c = Ok ()" "Validate ed k = Ok ()" by (auto simp: Validate_Ok)
  from assms have b: "Blocks c = map Some bs" "bs \<noteq> []" "Blocks k = map Some ds" "ds \<noteq> []"
    by (simp_all add: valid_chain_def)
  then have "hd (Blocks c) = Some (hd bs)" "hd (Blocks k) = Some (hd ds)" by (simp_all add: hd_map)
  then show ?thesis
    using b by (auto simp: fork_checks_def v genesis_hash_valid same_network_def sameDifficultySchedule_def)
qed

lemma fork_checks_Ok:
  assumes "length (Blocks c) < 2 ^ 63" "length (Blocks k) < 2 ^ 63"
  shows "fork_checks ed c k = Ok () \<longleftrightarrow>
     Validate ed c = Ok () \<and> Validate ed k = Ok () \<and> same_network c k \<and> TotalWork c < TotalWork k"
  (is "?l \<longleftrightarrow> ?r")
proof (cases "Validate ed c = Ok () \<and> Validate ed k = Ok ()")
  case True
  then obtain bs ds where v: "valid_chain ed c bs" "valid_chain ed k ds"
    using assms by (auto simp: Validate_Ok)
  then have "hd (Blocks c) = Some (hd bs)" "hd (Blocks k) = Some (hd ds)" by (auto simp: valid_chain_def hd_map)
  then have "same_network c k \<Longrightarrow> Hash (hd bs) = Hash (hd ds)" by (simp add: same_network_def)
  with True show ?thesis by (auto simp: fork_checks_valid [OF v assms])
next
  case False
  then have "\<not> ?l" by (auto simp: fork_checks_def bind_res_eq_Ok)
  with False show ?thesis by blast
qed


lemma map_err_Ok [simp]: "map_err g m = Ok x \<longleftrightarrow> m = Ok x"
  by (cases m) simp_all

lemma latest_height_valid:
  assumes "valid_chain ed c bs" "length (Blocks c) < 2 ^ 63"
  shows "latest_height c = Ok (word_of_nat (length bs) - 1)"
  using Latest_valid(2) [OF assms] by (simp add: latest_height_def Latest_valid(1) [OF assms] eq_diff_eq)

text \<open>Everything a successful resolution establishes.\<close>

lemma ResolveFork_Ok:
  assumes "ResolveFork ed (Some c) (Some k) = Ok (c', r)" "length (Blocks c) < 2 ^ 63" "length (Blocks k) < 2 ^ 63"
  shows "Validate ed c = Ok () \<and> Validate ed k = Ok () \<and> same_network c k \<and> TotalWork c < TotalWork k
    \<and> OldHeight r = word_of_nat (length (Blocks c)) - 1
    \<and> AncestorHeight r = CommonAncestorHeight (Some c) (Some k)
    \<and> OldWork r = dec_int (TotalWork c) \<and> NewWork r = dec_int (TotalWork k)
    \<and> latest_height c' = Ok (NewHeight r)
    \<and> (\<exists>xs. c' = (san_chain k)\<lparr>Pending := xs\<rparr> \<and> subseq xs (map san_tx (Pending k) @ Pending c)
         \<and> distinct (map transactionIdentifier xs) \<and> PendingKept r = word_of_nat (length xs)
         \<and> PendingKept r + PendingDropped r = word_of_nat (length (Pending k) + length (Pending c)))
    \<and> (good_chain ed ((san_chain k)\<lparr>Pending := []\<rparr>) \<longrightarrow> good_chain ed c')"
proof -
  have checks: "fork_checks ed c k = Ok ()" using assms(1) by (auto simp: ResolveFork_def bind_res_eq_Ok)
  note C = checks [unfolded fork_checks_Ok [OF assms(2,3)]]
  from C obtain bs where v: "valid_chain ed c bs" using assms(2) by (auto simp: Validate_Ok)
  then have len: "length bs = length (Blocks c)" by (simp add: valid_chain_def)
  from assms(1) obtain kept dropped new where R:
    "revalidate_loop ed (map san_tx (Pending k) @ Pending c) {} 0 0 ((san_chain k)\<lparr>Pending := []\<rparr>) = Ok (c', kept, dropped)"
    "latest_height c' = Ok new" "NewHeight r = new" "PendingKept r = kept" "PendingDropped r = dropped"
    "AncestorHeight r = CommonAncestorHeight (Some c) (Some k)" "OldWork r = dec_int (TotalWork c)"
    "NewWork r = dec_int (TotalWork k)" "OldHeight r = word_of_nat (length (Blocks c)) - 1"
    by (auto simp: ResolveFork_def bind_res_eq_Ok latest_height_valid [OF v assms(2)] revalidatePending_def len)
  from revalidate_loop_Ok [OF R(1)] C R(2-) show ?thesis by (simp, blast)
qed


subsection \<open>The adopted chain\<close>

lemma same_network_rules:
  assumes "same_network c k" "rules_ok (DifficultySchedule c)" "distinct (map StartHeight (DifficultySchedule c))"
  shows "rules_ok (DifficultySchedule k) \<and> distinct (map StartHeight (DifficultySchedule k))"
proof -
  have "mset (sort_slice StartHeight (DifficultySchedule c)) = mset (sort_slice StartHeight (DifficultySchedule k))"
    using assms(1) by (simp add: same_network_def)
  then have m: "mset (DifficultySchedule c) = mset (DifficultySchedule k)" by simp
  have "set (DifficultySchedule k) = set (DifficultySchedule c)" using mset_eq_setD [OF m] by simp
  moreover have "mset (map StartHeight (DifficultySchedule c)) = mset (map StartHeight (DifficultySchedule k))"
    using m by simp
  then have "distinct (map StartHeight (DifficultySchedule k))" using assms(3) mset_eq_imp_distinct_iff by blast
  ultimately show ?thesis using assms(2) by (simp add: rules_ok_def)
qed

lemma emptied_pool_good:
  assumes "valid_chain ed k ds" "rules_ok (DifficultySchedule k)" "distinct (map StartHeight (DifficultySchedule k))"
    and "length (Blocks k) < 2 ^ 63"
  shows "good_chain ed (k\<lparr>Pending := []\<rparr>)"
proof -
  have "valid_chain ed (k\<lparr>Pending := []\<rparr>) ds"
    using assms(1) by (intro valid_chain_transfer [OF assms(1)] expected_cong) (auto simp: valid_chain_def)
  moreover have "pool_ok ed (k\<lparr>Pending := []\<rparr>)"
    using assms(1) by (auto simp: pool_ok_def Ledger_def valid_chain_def is_Ok_iff)
  ultimately show ?thesis using assms by (auto simp: good_chain_def)
qed

text \<open>A candidate the checks let through is adopted, with a good result.\<close>

lemma ResolveFork_succeeds:
  assumes "good_chain ed c" "Validate ed k = Ok ()" "same_network c k" "TotalWork c < TotalWork k"
    and "utf8_chain k" "length (Blocks k) < 2 ^ 63"
  shows "\<exists>c' r xs. ResolveFork ed (Some c) (Some k) = Ok (c', r) \<and> good_chain ed c' \<and> c' = k\<lparr>Pending := xs\<rparr>"
proof -
  let ?e = "k\<lparr>Pending := []\<rparr>"
  have len: "length (Blocks c) < 2 ^ 63" using assms(1) by (simp add: good_chain_def)
  obtain bs where v: "valid_chain ed c bs" using assms(1) by (auto simp: good_chain_def)
  obtain ds where w: "valid_chain ed k ds" using assms(2,6) by (auto simp: Validate_Ok)
  have good: "good_chain ed ?e"
    using emptied_pool_good [OF w _ _ assms(6)] same_network_rules [OF assms(3)] assms(1) by (simp add: good_chain_def)
  have checks: "fork_checks ed c k = Ok ()"
    using fork_checks_Ok [OF len assms(6)] assms(2-4) good_chain_Validate [OF assms(1)] by simp
  have "is_Ok (Rebuild ed (Blocks ?e))" using w by (simp add: valid_chain_def)
  then obtain l where "Rebuild ed (Blocks ?e) = Ok l" by (auto simp: is_Ok_iff)
  then have "is_Ok (revalidate_loop ed (Pending k @ Pending c) {} 0 0 ?e)"
    by (intro revalidate_loop_no_panic) simp_all
  then obtain c' kept dropped where loop: "revalidate_loop ed (Pending k @ Pending c) {} 0 0 ?e = Ok (c', kept, dropped)"
    by (auto simp: is_Ok_iff)
  from revalidate_loop_Ok [OF loop] good obtain xs where c': "c' = k\<lparr>Pending := xs\<rparr>" "good_chain ed c'" by auto
  then have "valid_chain ed c' ds" using w by (auto simp: good_chain_def valid_chain_def)
  then have "\<exists>h. latest_height c' = Ok h" using assms(6) c' by (auto simp: latest_height_valid)
  then have "\<exists>r. ResolveFork ed (Some c) (Some k) = Ok (c', r)"
    using loop by (auto simp: ResolveFork_def checks latest_height_valid [OF v len] san_chain_utf8 [OF assms(5)]
        revalidatePending_def)
  with c' show ?thesis by blast
qed

text \<open>Resolving against a chain, leaving the own one when that fails.\<close>

definition adopt :: "ed25519 \<Rightarrow> chain \<Rightarrow> chain \<Rightarrow> chain" where
  "adopt ed k c = (case ResolveFork ed (Some c) (Some k) of Ok (c', r) \<Rightarrow> c' | _ \<Rightarrow> c)"

definition acceptable :: "ed25519 \<Rightarrow> chain \<Rightarrow> chain \<Rightarrow> bool" where
  "acceptable ed c k \<longleftrightarrow> Validate ed k = Ok () \<and> same_network c k"

text \<open>
  The abstract protocol: a node that holds a value of some weight and takes over a proposed one
  exactly when it is acceptable and heavier.
\<close>

locale heaviest =
  fixes good :: "'s \<Rightarrow> bool" and proposal :: "'s \<Rightarrow> bool" and fits :: "'s \<Rightarrow> 's \<Rightarrow> bool"
    and weight :: "'s \<Rightarrow> int" and take_over :: "'s \<Rightarrow> 's \<Rightarrow> 's"
  assumes refuses: "good c \<Longrightarrow> proposal k \<Longrightarrow> \<not> (fits c k \<and> weight c < weight k) \<Longrightarrow> take_over k c = c"
    and accepts: "good c \<Longrightarrow> proposal k \<Longrightarrow> fits c k \<Longrightarrow> weight c < weight k \<Longrightarrow>
      good (take_over k c) \<and> weight (take_over k c) = weight k"
    and fits_same: "good c \<Longrightarrow> proposal k \<Longrightarrow> fits c k \<Longrightarrow> weight c < weight k \<Longrightarrow> fits (take_over k c) d = fits c d"
begin

lemma step: "good c \<Longrightarrow> proposal k \<Longrightarrow>
    good (take_over k c) \<and> weight (take_over k c) = (if fits c k then max (weight c) (weight k) else weight c)
    \<and> fits (take_over k c) = fits c"
  using refuses [of c k] accepts [of c k] fits_same [of c k]
  by (cases "fits c k \<and> weight c < weight k") (auto simp: fun_eq_iff)

lemma session:
  "good c \<Longrightarrow> list_all proposal ks \<Longrightarrow>
    good (fold take_over ks c)
    \<and> weight (fold take_over ks c) = fold max (map weight (filter (fits c) ks)) (weight c)"
proof (induction ks arbitrary: c)
  case (Cons k ks)
  have "good (take_over k c) \<and> fits (take_over k c) = fits c
      \<and> weight (take_over k c) = (if fits c k then max (weight c) (weight k) else weight c)"
    using step [of c k] Cons.prems by simp
  then show ?case using Cons.IH [of "take_over k c"] Cons.prems by (auto simp: max.commute)
qed simp

lemma order_irrelevant:
  assumes "good c" "list_all proposal ks" "mset ks = mset ls"
  shows "weight (fold take_over ks c) = weight (fold take_over ls c)"
proof -
  have "list_all proposal ls" using assms(2) mset_eq_setD [OF assms(3)] by (simp add: list_all_iff)
  moreover have "mset (map weight (filter (fits c) ks)) = mset (map weight (filter (fits c) ls))"
    using assms(3) by simp
  then have "fold max (map weight (filter (fits c) ks)) (weight c) = fold max (map weight (filter (fits c) ls)) (weight c)"
    by (intro fold_permuted_eq [where P = "\<lambda>_. True"]) (auto simp: max.left_commute)
  ultimately show ?thesis using session [OF assms(1)] assms(2) by simp
qed

end

interpretation forks: heaviest "good_chain ed" "\<lambda>k. utf8_chain k \<and> length (Blocks k) < 2 ^ 63"
    "acceptable ed" TotalWork "adopt ed" for ed
proof unfold_locales
  fix c k d
  assume c: "good_chain ed c" and k: "utf8_chain k \<and> length (Blocks k) < 2 ^ 63"
  have len: "length (Blocks c) < 2 ^ 63" using c by (simp add: good_chain_def)
  show "adopt ed k c = c" if "\<not> (acceptable ed c k \<and> TotalWork c < TotalWork k)"
  proof -
    have "\<not> is_Ok (ResolveFork ed (Some c) (Some k))"
      using that ResolveFork_Ok [of ed c k] len k by (auto simp: is_Ok_iff acceptable_def)
    then show ?thesis by (cases "ResolveFork ed (Some c) (Some k)") (simp_all add: adopt_def)
  qed
  assume "acceptable ed c k" and "TotalWork c < TotalWork k"
  then obtain c' r xs where R: "ResolveFork ed (Some c) (Some k) = Ok (c', r)" "good_chain ed c'" "c' = k\<lparr>Pending := xs\<rparr>"
    using ResolveFork_succeeds [OF c] k unfolding acceptable_def by metis
  have "TotalWork c' = TotalWork k" by (rule TotalWork_Blocks) (simp add: R)
  with R show "good_chain ed (adopt ed k c) \<and> TotalWork (adopt ed k c) = TotalWork k" by (simp add: adopt_def)
  have "same_network c k" using \<open>acceptable ed c k\<close> by (simp add: acceptable_def)
  then have "same_network c' e = same_network c e" for e
    using R(3) same_network_trans same_network_sym same_network_pool by blast
  with R(1) show "acceptable ed (adopt ed k c) d = acceptable ed c d" by (simp add: adopt_def acceptable_def)
qed


subsection \<open>Sample chains\<close>

lemma valid_chain_utf8:
  assumes "valid_chain ed c bs" "list_all (\<lambda>b. list_all utf8_tx (Transactions b)) bs" "list_all utf8_tx (Pending c)"
  shows "utf8_chain c"
proof -
  have "utf8_block (bs ! i)" if i: "i < length bs" for i
  proof -
    have ok: "block_ok c bs i" using assms(1) i by (simp add: valid_chain_def)
    have "0 < i \<Longrightarrow> block_ok c bs (i - 1)" using assms(1) i by (simp add: valid_chain_def)
    then have "0 < i \<Longrightarrow> ascii (Hash (bs ! (i - 1)))" by (simp add: block_ok_def)
    with ok have "valid_utf8 (PrevHash (bs ! i))" by (simp add: block_ok_def)
    moreover have "list_all utf8_tx (Transactions (bs ! i))" using assms(2) i by (simp add: list_all_length)
    ultimately show ?thesis using ok by (simp add: utf8_block_def block_ok_def)
  qed
  then have "utf8_block b" if "b \<in> set bs" for b using that by (auto simp: in_set_conv_nth)
  with assms(1,3) show ?thesis by (auto simp: utf8_chain_def valid_chain_def)
qed

text \<open>The sample chain after its pool was mined.\<close>

definition demo_mined :: chain where
  "demo_mined = fst (ok_val (the (MineBlock (quick_env\<lparr>Now := 100\<rparr>) quick_limits demo_pooled)))"

lemma demo_mined:
  "good_chain ed demo_mined" "utf8_chain demo_mined" "length (Blocks demo_mined) = 2" "Pending demo_mined = []"
  "same_network demo_chain demo_mined" "TotalWork demo_mined = 2"
  "\<exists>b. Some b \<in> set (Blocks demo_mined) \<and> Transactions b = [grant ''alice'' 5]"
proof -
  let ?env = "quick_env\<lparr>Now := 100\<rparr>" and ?g = "(genesis_block 0)\<lparr>Hash := ComputeHash (genesis_block 0)\<rparr>"
  obtain c' b r where m: "MineBlock ?env quick_limits demo_pooled = Some (Ok (c', b, r))" using demo_mine by metis
  then have c': "demo_mined = c'" by (simp add: demo_mined_def)
  have small: "length (Blocks demo_pooled) < 2 ^ 63 - 1" "length (Pending demo_pooled) < 2 ^ 63"
    and clock: "clock_ok ?env demo_pooled"
    by (simp_all add: demo_pooled_def demo_chain_def clock_ok_def)
  have good: "good_chain ed c'" "Blocks c' = Blocks demo_pooled @ [Some b]" for ed
    using MineBlock_good [OF m demo_pooled_good clock small] by blast+
  note S = MineBlock_shape [OF m demo_pooled_valid small]
  have "Pending c' = []"
    by (simp add: S(2) batch_size_def demo_pooled_def demo_chain_def)
  have txs: "Transactions b = [grant ''alice'' 5]"
    using mn.sealed_fields [OF S(1), unfolded next_block_def NewBlock_fields]
    by (simp add: batch_size_def demo_pooled_def demo_chain_def)
  have "expected demo_pooled (Suc 0) = 0"
    by (simp add: demo_pooled_def demo_chain_def rules_at_def period_step_def retarget_due_def
        demo_retarget_def first_difficulty_def sort_slice_def)
  then have d: "Difficulty b = 0"
    using mn.sealed_fields [OF S(1), unfolded next_block_def NewBlock_fields] by simp
  have B: "Blocks c' = [Some ?g, Some b]" using good(2) by (simp add: demo_pooled_def demo_chain_def)
  obtain bs where v: "valid_chain plain_ed25519 c' bs" using good(1) by (auto simp: good_chain_def)
  then have bs: "bs = [?g, b]" using B by (auto simp: valid_chain_def)
  have "utf8_tx (grant ''alice'' 5)"
    by (simp add: grant_def utf8_tx_def ascii_def byte_def FaucetAccount_def)
  then have "utf8_chain c'" using \<open>Pending c' = []\<close> txs by (intro valid_chain_utf8 [OF v]) (simp_all add: bs)
  moreover have "TotalWork c' = 2" by (simp add: TotalWork_def B block_work_def d)
  moreover have "same_network demo_chain c'"
    using B by (simp add: same_network_def S(2) demo_pooled_def demo_chain_def)
  ultimately show "good_chain ed demo_mined" "utf8_chain demo_mined" "length (Blocks demo_mined) = 2"
    "Pending demo_mined = []" "same_network demo_chain demo_mined" "TotalWork demo_mined = 2"
    "\<exists>b. Some b \<in> set (Blocks demo_mined) \<and> Transactions b = [grant ''alice'' 5]"
    using good(1) txs B \<open>Pending c' = []\<close> by (auto simp: c')
qed

lemma demo_fork:
  "length (Blocks demo_chain) < 2 ^ 63" "length (Blocks demo_mined) < 2 ^ 63" "TotalWork demo_chain = 1"
  "\<exists>c' r xs. ResolveFork ed (Some demo_chain) (Some demo_mined) = Ok (c', r) \<and> good_chain ed c'
     \<and> c' = demo_mined\<lparr>Pending := xs\<rparr>"
proof -
  show s: "length (Blocks demo_chain) < 2 ^ 63" "length (Blocks demo_mined) < 2 ^ 63" "TotalWork demo_chain = 1"
    by (simp_all add: demo_chain_def demo_mined(3) TotalWork_def block_work_def)
  show "\<exists>c' r xs. ResolveFork ed (Some demo_chain) (Some demo_mined) = Ok (c', r) \<and> good_chain ed c'
     \<and> c' = demo_mined\<lparr>Pending := xs\<rparr>"
    using s by (intro ResolveFork_succeeds) (simp_all add: demo_chain_good demo_mined good_chain_Validate)
qed


subsection \<open>The common ancestor\<close>

lemma ancestor_loop_lcp:
  assumes "\<And>i. i < length bs \<Longrightarrow> Height (bs ! i) = a + 1 + word_of_nat i"
  shows "ancestor_loop (map Some bs) (map Some ds) a
    = a + word_of_nat (length (longest_common_prefix (map Hash bs) (map Hash ds)))"
  using assms
proof (induction bs arbitrary: ds a)
  case (Cons b bs)
  show ?case
  proof (cases ds)
    case (Cons d ds')
    have "Height b = a + 1" using Cons.prems [of 0] by simp
    moreover have "Height (bs ! i) = (a + 1) + 1 + word_of_nat i" if "i < length bs" for i
      using Cons.prems [of "Suc i"] that by simp
    ultimately show ?thesis using Cons.IH [of "a + 1" ds'] Cons by simp
  qed simp
qed simp

lemma shared_hash_below:
  assumes "valid_chain ed c bs" "valid_chain ed' k ds" "length bs < 2 ^ 63" "length ds < 2 ^ 63"
    and "inj_on sha256 (header_inputs (bs @ ds))" "n < length bs" "n < length ds" "Hash (bs ! n) = Hash (ds ! n)"
  shows "i \<le> n \<Longrightarrow> Hash (bs ! i) = Hash (ds ! i)"
proof (induction "n - i" arbitrary: i)
  case 0
  then show ?case using assms(8) by simp
next
  case (Suc d)
  then have IH: "Hash (bs ! Suc i) = Hash (ds ! Suc i)" and i: "Suc i < length bs" "Suc i < length ds"
    using assms(6,7) by simp_all
  have "same_header (bs ! Suc i) (ds ! Suc i)"
    using equal_hash_same_header [OF assms(1,2) i assms(3-5) IH] by blast
  moreover have "block_ok c bs (Suc i)" "block_ok k ds (Suc i)" using assms(1,2) i by (auto simp: valid_chain_def)
  ultimately show ?case by (simp add: same_header_def block_ok_def)
qed

lemma longest_common_prefix_nth:
  "i < length (longest_common_prefix xs ys) \<Longrightarrow> i < length xs \<and> i < length ys \<and> xs ! i = ys ! i"
proof (induction xs ys arbitrary: i rule: longest_common_prefix.induct)
  case (1 x xs y ys)
  then show ?case by (cases i) (auto split: if_splits)
qed simp_all

lemma longest_common_prefix_ge:
  "n \<le> length xs \<Longrightarrow> n \<le> length ys \<Longrightarrow> (\<forall>i<n. xs ! i = ys ! i) \<Longrightarrow> n \<le> length (longest_common_prefix xs ys)"
proof (induction xs ys arbitrary: n rule: longest_common_prefix.induct)
  case (1 x xs y ys)
  show ?case
  proof (cases n)
    case (Suc m)
    with "1.prems"(3) have "x = y" "\<forall>i<m. xs ! i = ys ! i" by (auto simp: less_Suc_eq_0_disj)
    with Suc "1.prems" "1.IH" [of m] show ?thesis by simp
  qed simp
qed simp_all

subsection \<open>Grants in the pool\<close>

lemma AddTransaction_grant:
  assumes "Rebuild ed (Blocks c) = Ok l" "fold_res (Apply ed) (Pending c) l = Ok l'"
    and "Transaction_Validate ed t = Ok ()" "Sender t = FaucetAccount"
  shows "AddTransaction ed t c = Ok (c\<lparr>Pending := Pending c @ [t]\<rparr>)"
  using assms by (simp add: AddTransaction_Ok ValidateTransaction_def)

lemma good_chain_pool:
  assumes "good_chain ed c"
  shows "\<exists>l l'. Rebuild ed (Blocks c) = Ok l \<and> fold_res (Apply ed) (Pending c) l = Ok l'"
  using assms by (auto simp: good_chain_def pool_ok_def Ledger_def is_Ok_iff bind_res_eq_Ok)

lemma good_chain_pool_valid:
  assumes "good_chain ed c" "t \<in> set (Pending c)"
  shows "Transaction_Validate ed t = Ok ()"
proof -
  obtain l l' where "fold_res (Apply ed) (Pending c) l = Ok l'" using good_chain_pool [OF assms(1)] by blast
  from fold_res_each [OF this assms(2)] show ?thesis by (auto simp: Apply_Ok ValidateTransaction_Ok)
qed

lemma revalidate_loop_keeps_grants:
  assumes "revalidate_loop ed ts seen kept dropped c = Ok (c', kept', dropped')" "good_chain ed c"
    and "t \<in> set ts" "Transaction_Validate ed t = Ok ()" "Sender t = FaucetAccount"
    and "inj_on transactionIdentifier (set ts)" "transactionIdentifier t \<notin> seen"
  shows "t \<in> set (Pending c')"
  using assms
proof (induction ed ts seen kept dropped c rule: revalidate_loop.induct)
  case (2 ed u ts seen kept dropped target)
  let ?id = transactionIdentifier
  obtain l l' where L: "Rebuild ed (Blocks target) = Ok l" "fold_res (Apply ed) (Pending target) l = Ok l'"
    using good_chain_pool [OF "2.prems"(2)] by blast
  note grant = AddTransaction_grant [OF L "2.prems"(4,5)]
  from "2.prems"(6) have inj: "inj_on ?id (set ts)" by simp
  have new: "t \<noteq> u \<Longrightarrow> t \<in> set ts \<and> ?id t \<notin> insert (?id u) seen"
    using "2.prems"(3,6,7) inj_onD [OF "2.prems"(6), of t u] by auto
  consider (dup) "?id u \<in> seen" | (rejected) e where "?id u \<notin> seen" "AddTransaction ed u target = Err e"
    | (accepted) target' where "?id u \<notin> seen" "AddTransaction ed u target = Ok target'"
    using "2.prems"(1) by (auto split: res.splits if_splits)
  then show ?case
  proof cases
    case dup
    with "2.prems" have loop: "revalidate_loop ed ts seen kept (dropped + 1) target = Ok (c', kept', dropped')" by simp
    from dup "2.prems"(7) have "t \<noteq> u" by blast
    then show ?thesis using "2.IH"(1) [OF dup loop "2.prems"(2) _ "2.prems"(4,5) inj] new by blast
  next
    case rejected
    then have "t \<noteq> u" using grant by auto
    moreover from rejected "2.prems" have
      loop: "revalidate_loop ed ts (insert (?id u) seen) kept (dropped + 1) target = Ok (c', kept', dropped')" by simp
    ultimately show ?thesis using "2.IH"(3) [OF rejected loop "2.prems"(2) _ "2.prems"(4,5) inj] new by blast
  next
    case accepted
    from accepted "2.prems" have
      loop: "revalidate_loop ed ts (insert (?id u) seen) (kept + 1) dropped target' = Ok (c', kept', dropped')" by simp
    have good: "good_chain ed target'" using AddTransaction_good [OF accepted(2) "2.prems"(2)] by blast
    show ?thesis
    proof (cases "t = u")
      case True
      then have "t \<in> set (Pending target')" using accepted(2) AddTransaction_frame by fastforce
      then show ?thesis using revalidate_loop_Ok [OF loop] by auto
    next
      case False
      then show ?thesis using "2.IH"(2) [OF accepted loop good _ "2.prems"(4,5) inj] new by blast
    qed
  qed
qed simp

section \<open>Properties\<close>

text \<open>
  C21. Fork resolution takes over nothing but a stronger chain of the same network: when it succeeds, both
  chains validate, they share the genesis block and the consensus settings, and the
  candidate has strictly more work. The local chain becomes the candidate with a pool
  picked, in order and without repeated identifiers, from the two pools, and the reported
  heights, works and counts are those of the two chains and of that pool.
\<close>

theorem fork_adopts_stronger:
  assumes "ResolveFork ed (Some c) (Some k) = Ok (c', r)" "length (Blocks c) < 2 ^ 63" "length (Blocks k) < 2 ^ 63"
  shows "Validate ed c = Ok () \<and> Validate ed k = Ok () \<and> same_network c k \<and> TotalWork c < TotalWork k
    \<and> (\<exists>xs. c' = (san_chain k)\<lparr>Pending := xs\<rparr> \<and> subseq xs (map san_tx (Pending k) @ Pending c)
         \<and> distinct (map transactionIdentifier xs) \<and> PendingKept r = word_of_nat (length xs)
         \<and> PendingKept r + PendingDropped r = word_of_nat (length (Pending k) + length (Pending c)))
    \<and> OldHeight r = word_of_nat (length (Blocks c)) - 1 \<and> latest_height c' = Ok (NewHeight r)
    \<and> OldWork r = dec_int (TotalWork c) \<and> NewWork r = dec_int (TotalWork k)"
  using ResolveFork_Ok [OF assms] by blast

theorem fork_adopts_stronger_witness:
  "\<exists>c' r. ResolveFork plain_ed25519 (Some demo_chain) (Some demo_mined) = Ok (c', r) \<and> OldHeight r = 0"
proof -
  obtain c' r where R: "ResolveFork plain_ed25519 (Some demo_chain) (Some demo_mined) = Ok (c', r)"
    using demo_fork(4) by blast
  from fork_adopts_stronger [OF this demo_fork(1,2)] R show ?thesis by (auto simp: demo_chain_def)
qed

text \<open>
  C20. An adopted chain keeps the invariant of sessions (it validates, its pool applies, its
  schedule is well formed), and adoption settles the fork: neither does the other node
  adopt the old chain, nor is the candidate adopted again.
\<close>

theorem adopted_chain_is_good:
  assumes "ResolveFork ed (Some c) (Some k) = Ok (c', r)" "good_chain ed c" "utf8_chain k" "length (Blocks k) < 2 ^ 63"
  shows "good_chain ed c' \<and> Blocks c' = Blocks k
    \<and> ResolveFork ed (Some k) (Some c) = Err ErrCandidateNotStronger
    \<and> ResolveFork ed (Some c') (Some k) = Err ErrCandidateNotStronger"
proof -
  have len: "length (Blocks c) < 2 ^ 63" using assms(2) by (simp add: good_chain_def)
  note R = ResolveFork_Ok [OF assms(1) len assms(4)]
  obtain xs where c': "c' = k\<lparr>Pending := xs\<rparr>" "good_chain ed c'"
    using ResolveFork_succeeds [OF assms(2) _ _ _ assms(3,4)] R assms(1) by force
  have settled: "ResolveFork ed (Some a) (Some b) = Err ErrCandidateNotStronger"
    if "Validate ed a = Ok ()" "Validate ed b = Ok ()" "same_network a b" "TotalWork b \<le> TotalWork a"
      "length (Blocks a) < 2 ^ 63" "length (Blocks b) < 2 ^ 63" for a b
  proof -
    from that(1,2,5,6) have "\<exists>as bs. valid_chain ed a as \<and> valid_chain ed b bs" by (simp add: Validate_Ok)
    then obtain as bs where v: "valid_chain ed a as" "valid_chain ed b bs" by blast
    then have "hd (Blocks a) = Some (hd as)" "hd (Blocks b) = Some (hd bs)" by (auto simp: valid_chain_def hd_map)
    then have "Hash (hd as) = Hash (hd bs)" using that(3) by (simp add: same_network_def)
    then show ?thesis using that fork_checks_valid [OF v that(5,6)] by (simp add: ResolveFork_def)
  qed
  have "TotalWork c' = TotalWork k" by (rule TotalWork_Blocks) (simp add: c')
  moreover have "same_network c' k" by (simp add: c' same_network_pool)
  ultimately show ?thesis
    using settled [of k c] settled [of c' k] R c' len assms(4) good_chain_Validate [OF c'(2)]
    by (simp add: same_network_sym)
qed

theorem adopted_chain_is_good_witness:
  "ResolveFork plain_ed25519 (Some demo_mined) (Some demo_chain) = Err ErrCandidateNotStronger"
proof -
  obtain c' r where R: "ResolveFork plain_ed25519 (Some demo_chain) (Some demo_mined) = Ok (c', r)"
    using demo_fork(4) by blast
  from adopted_chain_is_good [OF this demo_chain_good demo_mined(2) demo_fork(2)] show ?thesis by blast
qed

text \<open>
  C19. Refinement of the heaviest-chain protocol: a node that resolves against any list of candidate
  chains, in any order, and ignores the refusals, ends with a good chain whose work is the
  maximum of its own and of the acceptable candidates', so nodes that saw the same
  candidates end with equal work.
\<close>

theorem forks_reach_heaviest:
  assumes "good_chain ed c" "list_all (\<lambda>k. utf8_chain k \<and> length (Blocks k) < 2 ^ 63) ks"
  shows "good_chain ed (fold (adopt ed) ks c)
    \<and> TotalWork (fold (adopt ed) ks c) = fold max (map TotalWork (filter (acceptable ed c) ks)) (TotalWork c)
    \<and> (\<forall>ls. mset ls = mset ks \<longrightarrow> TotalWork (fold (adopt ed) ls c) = TotalWork (fold (adopt ed) ks c))"
  using forks.session [OF assms] forks.order_irrelevant [OF assms] by metis

theorem forks_reach_heaviest_witness:
  "TotalWork (fold (adopt plain_ed25519) [demo_chain, demo_mined] demo_chain) = 2"
proof -
  have "utf8_chain demo_chain" using demo_pooled_utf8 by (simp add: utf8_chain_def demo_pooled_def demo_chain_def)
  then have "list_all (\<lambda>k. utf8_chain k \<and> length (Blocks k) < 2 ^ 63) [demo_chain, demo_mined]"
    using demo_fork demo_mined by simp
  from forks_reach_heaviest [OF demo_chain_good [of plain_ed25519] this] show ?thesis
    using demo_fork(3) demo_mined good_chain_Validate [OF demo_mined(1)] good_chain_Validate [OF demo_chain_good]
    by (simp add: acceptable_def)
qed

text \<open>
  C34. \<open>CommonAncestorHeight\<close> of two valid chains is one less than the length of the longest common
  prefix of their hashes (so -1 when the genesis blocks differ), and unless SHA-256
  collides on the headers the chains agree at a height exactly up to there.
\<close>

theorem CommonAncestorHeight_is_last_shared:
  assumes "Validate ed c = Ok ()" "Validate ed k = Ok ()" "Blocks c = map Some bs" "Blocks k = map Some ds"
    and "length bs < 2 ^ 63" "length ds < 2 ^ 63" "inj_on sha256 (header_inputs (bs @ ds))"
  shows "\<exists>n. CommonAncestorHeight (Some c) (Some k) = word_of_nat n - 1
    \<and> n = length (longest_common_prefix (map Hash bs) (map Hash ds))
    \<and> (\<forall>i. i < length bs \<and> i < length ds \<longrightarrow> (Hash (bs ! i) = Hash (ds ! i) \<longleftrightarrow> i < n))"
proof -
  let ?n = "length (longest_common_prefix (map Hash bs) (map Hash ds))"
  have v: "valid_chain ed c bs" "valid_chain ed k ds"
    using assms(1-6) by (auto simp: Validate_Ok valid_chain_def inj_map_eq_map)
  then have "Height (bs ! i) = - 1 + 1 + word_of_nat i" if "i < length bs" for i
    using that by (simp add: valid_chain_def block_ok_def)
  then have h: "CommonAncestorHeight (Some c) (Some k) = word_of_nat ?n - 1"
    using ancestor_loop_lcp [of bs "- 1" ds] assms(3,4) by (simp add: CommonAncestorHeight_def)
  have "i < ?n" if i: "i < length bs" "i < length ds" "Hash (bs ! i) = Hash (ds ! i)" for i
  proof -
    have "map Hash bs ! j = map Hash ds ! j" if "j < Suc i" for j
      using that i shared_hash_below [OF v assms(5-7) i] by simp
    then show ?thesis using longest_common_prefix_ge [of "Suc i" "map Hash bs" "map Hash ds"] i by simp
  qed
  moreover have "Hash (bs ! i) = Hash (ds ! i)" if "i < ?n" for i
    using longest_common_prefix_nth [OF that] by auto
  ultimately show ?thesis using h by blast
qed

theorem CommonAncestorHeight_is_last_shared_witness:
  "CommonAncestorHeight (Some demo_chain) (Some demo_pooled) = 0"
proof -
  let ?g = "(genesis_block 0)\<lparr>Hash := ComputeHash (genesis_block 0)\<rparr>"
  have "inj_on sha256 (header_inputs ([?g] @ [?g]))" by (simp add: header_inputs_def)
  from CommonAncestorHeight_is_last_shared [OF good_chain_Validate [OF demo_chain_good [of plain_ed25519]]
      good_chain_Validate [OF demo_pooled_good [of plain_ed25519]] _ _ _ _ this]
  show ?thesis by (simp add: demo_chain_def demo_pooled_def)
qed

text \<open>
  C38. Faucet grants survive a fork unconditionally: they carry no usable nonce, so a grant that waits
  in the local pool waits in the adopted one too, even when the adopted chain has already
  confirmed it; it is then paid a second time. (Identifiers are assumed not to collide.)
\<close>

theorem pending_grant_survives_fork:
  assumes "ResolveFork ed (Some c) (Some k) = Ok (c', r)" "good_chain ed c" "utf8_chain k" "length (Blocks k) < 2 ^ 63"
    and "inj_on transactionIdentifier (set (Pending k) \<union> set (Pending c))"
    and "t \<in> set (Pending c)" "Sender t = FaucetAccount"
  shows "t \<in> set (Pending c')"
proof -
  have len: "length (Blocks c) < 2 ^ 63" using assms(2) by (simp add: good_chain_def)
  note R = ResolveFork_Ok [OF assms(1) len assms(4)]
  obtain ds where v: "valid_chain ed k ds" using R assms(4) by (auto simp: Validate_Ok)
  have good: "good_chain ed (k\<lparr>Pending := []\<rparr>)"
    using emptied_pool_good [OF v _ _ assms(4)] same_network_rules [of c k] assms(2) R by (simp add: good_chain_def)
  from assms(1) obtain kept dropped where
    "revalidate_loop ed (Pending k @ Pending c) {} 0 0 (k\<lparr>Pending := []\<rparr>) = Ok (c', kept, dropped)"
    by (auto simp: ResolveFork_def bind_res_eq_Ok revalidatePending_def san_chain_utf8 [OF assms(3)])
  from revalidate_loop_keeps_grants [OF this good _ good_chain_pool_valid [OF assms(2,6)] assms(7)]
  show ?thesis using assms(5,6) by simp
qed

theorem pending_grant_survives_fork_witness:
  "\<exists>c' r. ResolveFork plain_ed25519 (Some demo_pooled) (Some demo_mined) = Ok (c', r)
     \<and> grant ''alice'' 5 \<in> set (Pending c')
     \<and> (\<exists>b. Some b \<in> set (Blocks c') \<and> Transactions b = [grant ''alice'' 5])"
proof -
  have "same_network demo_pooled demo_mined" "TotalWork demo_pooled = 1"
    using demo_mined(5) demo_fork(3) by (simp_all add: demo_pooled_def same_network_pool TotalWork_def)
  then obtain c' r xs where R: "ResolveFork plain_ed25519 (Some demo_pooled) (Some demo_mined) = Ok (c', r)"
      "c' = demo_mined\<lparr>Pending := xs\<rparr>"
    using ResolveFork_succeeds [OF demo_pooled_good [of plain_ed25519] good_chain_Validate [OF demo_mined(1)]]
      demo_fork(2) demo_mined(2,6) by auto
  have "Pending demo_pooled = [grant ''alice'' 5]" by (simp add: demo_pooled_def)
  with pending_grant_survives_fork [OF R(1) demo_pooled_good demo_mined(2) demo_fork(2), of "grant ''alice'' 5"] R
  show ?thesis using demo_mined(7) by (simp add: demo_mined(4))
qed

end
