(* ===== verification/Decoding.thy ===== *)
theory Decoding
  imports ChainFile
begin

text \<open>
  What \<open>json.Unmarshal\<close> returns: every string it stores is valid UTF-8, because the reader
  replaces invalid bytes and lone surrogates and encodes escapes. Hence every chain that
  \<open>Load\<close> returns, and every wallet store, has UTF-8 strings only, which is the hypothesis
  under which saving and fork resolution keep strings as they are.
\<close>

section \<open>Decoded strings\<close>

lemma rune_width_valid: "valid_rune u \<Longrightarrow> rune_width u = length u"
  by (cases u rule: valid_rune.cases) (auto simp: rune_width_def in_range_def cont_def)

lemma valid_utf8_rune:
  assumes "valid_rune u" "valid_utf8 s"
  shows "valid_utf8 (u @ s)"
proof -
  have w: "rune_width u = length u" "u \<noteq> []"
    using rune_width_valid [OF assms(1)] valid_rune_length [OF assms(1)] by auto
  then have ws: "rune_width (u @ s) = length u" using rune_width_extend [of u s] by simp
  obtain c v where u: "u = c # v" using w(2) by (cases u) auto
  have "runes (u @ s) = Some u # runes s"
    using ws by (simp add: u runes.simps(2))
  with assms(2) show ?thesis by (simp add: valid_utf8_def)
qed

lemma unhex_range: "unhex c = Some n \<Longrightarrow> 0 \<le> n \<and> n < 16"
  by (auto simp: unhex_def Let_def split: if_splits)

lemma unhex4_range: "unhex4 s = Some r \<Longrightarrow> 0 \<le> r \<and> r < 65536"
proof (induction s rule: unhex4.induct)
  case (1 a b c d s)
  then obtain w x y z where "unhex a = Some w" "unhex b = Some x" "unhex c = Some y" "unhex d = Some z"
    "r = ((w * 16 + x) * 16 + y) * 16 + z" by (auto split: option.splits)
  then show ?case using unhex_range [of a w] unhex_range [of b x] unhex_range [of c y] unhex_range [of d z] by auto
qed simp_all

lemma utf16_pair_range: "utf16_pair r q = Some p \<Longrightarrow> 0x10000 \<le> p \<and> p < 0x110000"
  by (auto simp: utf16_pair_def split: option.splits if_splits)

lemma valid_rune_encode:
  assumes "0 \<le> r" "r < 0x110000" "\<not> surrogate r"
  shows "valid_rune (utf8_encode r)"
proof -
  have m: "(0x80 + x mod 64) mod 256 = 0x80 + x mod 64" "0 \<le> x mod 64" "x mod 64 < 64" for x :: int by simp_all
  consider "r < 0x80" | "0x80 \<le> r" "r < 0x800" | "0x800 \<le> r" "r < 0x10000" | "0x10000 \<le> r" by linarith
  then show ?thesis
  proof cases
    case 1
    with assms(1) show ?thesis by (simp add: utf8_encode_def)
  next
    case 2
    then have d: "2 \<le> r div 64" "r div 64 < 32" by simp_all
    with 2 m [of r] show ?thesis by (simp add: utf8_encode_def in_range_def cont_def)
  next
    case 3
    define a where "a = r div 4096"
    define b where "b = r div 64 mod 64"
    have r: "r div 64 = a * 64 + b" unfolding a_def b_def by (simp add: zdiv_zmult2_eq [of 64 r 64, simplified])
    have a: "0 \<le> a" "a < 16" using 3 by (simp_all add: a_def)
    have b: "0 \<le> b" "b < 64" by (simp_all add: b_def)
    have "a \<noteq> 0 \<or> 32 \<le> b" using 3 r by linarith
    moreover have "a \<noteq> 13 \<or> b < 32"
    proof (rule ccontr)
      assume "\<not> (a \<noteq> 13 \<or> b < 32)"
      then have "a = 13" "\<not> b < 32" by simp_all
      then have "864 \<le> r div 64" "r div 64 < 896" using r b by linarith+
      then have "0xD800 \<le> r" "r < 0xE000" by linarith+
      with assms(3) show False by (simp add: surrogate_def)
    qed
    ultimately show ?thesis using 3 a b m [of r] m [of "r div 64"]
      by (simp add: utf8_encode_def in_range_def cont_def flip: a_def b_def) linarith
  next
    case 4
    define a where "a = r div 262144"
    define b where "b = r div 4096 mod 64"
    have r: "r div 4096 = a * 64 + b" unfolding a_def b_def by (simp add: zdiv_zmult2_eq [of 64 r 4096, simplified])
    have a: "0 \<le> a" "a < 5" using 4 assms(2) by (simp_all add: a_def)
    have b: "0 \<le> b" "b < 64" by (simp_all add: b_def)
    have "16 \<le> r div 4096" "r div 4096 < 272" using 4 assms(2) by linarith+
    then have "a \<noteq> 0 \<or> 16 \<le> b" "a \<noteq> 4 \<or> b < 16" using r by linarith+
    then show ?thesis using 4 a b m [of r] m [of "r div 64"] m [of "r div 4096"]
      by (simp add: utf8_encode_def in_range_def cont_def flip: a_def b_def) linarith
  qed
qed

lemma valid_replacement [simp]: "valid_rune replacement"
  by (simp add: replacement_def in_range_def cont_def byte_def)

lemma push_Some: "push u r = Some (x, rest) \<longleftrightarrow> (\<exists>y. r = Some (y, rest) \<and> x = u @ y)"
  by (auto simp: push_def)

lemma unquote_valid: "unquote s = Some (x, rest) \<Longrightarrow> valid_utf8 x"
proof (induction s arbitrary: x rest rule: length_induct)
  case (1 s)
  have IH: "valid_utf8 (u @ y)" if "unquote t = Some (y, rest)" "length t < length s" "valid_rune u" for t u y
    using 1(1) that valid_utf8_rune by blast
  have simple: "valid_rune [e]" if "simple_escape d = Some e" for d e
    using that by (auto simp: simple_escape_def byte_def split: if_splits)
  show ?case
  proof (cases s)
    case Nil
    with 1(2) show ?thesis by simp
  next
    case (Cons c r)
    let ?w = "rune_width s"
    consider (quoted) "c = CHR 0x22" | (escape) "c = CHR 0x5C" | (bad) "c \<noteq> CHR 0x22" "c \<noteq> CHR 0x5C" "?w = 0"
      | (raw) "c \<noteq> CHR 0x22" "c \<noteq> CHR 0x5C" "?w \<noteq> 0" by blast
    then show ?thesis
    proof cases
      case quoted
      with 1(2) Cons show ?thesis by (simp add: unquote.simps(2))
    next
      case bad
      with 1(2) Cons obtain y where "unquote r = Some (y, rest)" "x = replacement @ y"
        by (auto simp: unquote.simps(2) push_Some split: if_splits)
      then show ?thesis using IH [of r y replacement] Cons by simp
    next
      case raw
      then have v: "valid_rune (take ?w s)" "0 < ?w" using rune_width_cases [of s] by auto
      from raw 1(2) Cons obtain y where "unquote (drop ?w s) = Some (y, rest)" "x = take ?w s @ y"
        by (auto simp: unquote.simps(2) push_Some split: if_splits)
      then show ?thesis using IH [of "drop ?w s" y] v Cons by simp
    next
      case escape
      from escape 1(2) Cons obtain d t where r: "r = d # t" by (cases r) (auto simp: unquote.simps(2))
      show ?thesis
      proof (cases "d = CHR ''u''")
        case False
        with escape 1(2) Cons r obtain e y where "simple_escape d = Some e" "unquote t = Some (y, rest)" "x = [e] @ y"
          by (auto simp: unquote.simps(2) push_Some split: option.splits)
        then show ?thesis using IH [of t y "[e]"] simple [of d e] Cons r by simp
      next
        case True
        with escape 1(2) Cons r obtain n where n: "unhex4 t = Some n" by (auto simp: unquote.simps(2) split: option.splits)
        note range = unhex4_range [OF n]
        consider (pair) p where "surrogate n" "utf16_pair n (getu4 (drop 4 t)) = Some p"
          | (lone) "surrogate n" "utf16_pair n (getu4 (drop 4 t)) = None" | (plain) "\<not> surrogate n" by fastforce
        then show ?thesis
        proof cases
          case pair
          with True escape 1(2) Cons r n obtain y where
            y: "unquote (drop 10 t) = Some (y, rest)" "x = utf8_encode p @ y"
            by (auto simp: unquote.simps(2) push_Some)
          have "valid_rune (utf8_encode p)"
            using utf16_pair_range [OF pair(2)] by (intro valid_rune_encode) (auto simp: surrogate_def)
          with IH [OF y(1)] y(2) Cons r show ?thesis by simp
        next
          case lone
          with True escape 1(2) Cons r n obtain y where
            y: "unquote (drop 4 t) = Some (y, rest)" "x = replacement @ y"
            by (auto simp: unquote.simps(2) push_Some)
          with IH [OF y(1)] Cons r show ?thesis by simp
        next
          case plain
          with True escape 1(2) Cons r n obtain y where
            y: "unquote (drop 4 t) = Some (y, rest)" "x = utf8_encode n @ y"
            by (auto simp: unquote.simps(2) push_Some)
          have "valid_rune (utf8_encode n)" using range plain by (intro valid_rune_encode) auto
          with IH [OF y(1)] y(2) Cons r show ?thesis by simp
        qed
      qed
    qed
  qed
qed

section \<open>Decoded values\<close>

primrec utf8_json :: "json \<Rightarrow> bool" where
  "utf8_json JNull = True"
| "utf8_json (JBool b) = True"
| "utf8_json (JNum n) = True"
| "utf8_json (JStr s) = valid_utf8 s"
| "utf8_json (JArr xs) = list_all id (map utf8_json xs)"
| "utf8_json (JObj ms) = list_all (\<lambda>(k, ok). valid_utf8 k \<and> ok) (map (map_prod id utf8_json) ms)"

lemma utf8_members: "utf8_json (JObj ms) \<longleftrightarrow> (\<forall>(k, v)\<in>set ms. valid_utf8 k \<and> utf8_json v)"
  and utf8_elems: "utf8_json (JArr xs) \<longleftrightarrow> (\<forall>x\<in>set xs. utf8_json x)"
  by (auto simp: list_all_iff)

lemma cons_fst_Some: "cons_fst x r = Some (ys, rest) \<longleftrightarrow> (\<exists>xs. r = Some (xs, rest) \<and> ys = x # xs)"
  by (auto simp: cons_fst_def)

definition decodes_utf8 :: "nat \<Rightarrow> bool" where
  "decodes_utf8 n \<longleftrightarrow>
     (\<forall>s j r. parse_value n s = Some (j, r) \<longrightarrow> utf8_json j)
     \<and> (\<forall>s js r. parse_elems n s = Some (js, r) \<longrightarrow> (\<forall>x\<in>set js. utf8_json x))
     \<and> (\<forall>s ms r. parse_members n s = Some (ms, r) \<longrightarrow> (\<forall>(k, v)\<in>set ms. valid_utf8 k \<and> utf8_json v))"

lemma decodes_utf8D:
  assumes "decodes_utf8 n"
  shows "parse_value n s = Some (j, r) \<Longrightarrow> utf8_json j"
    "parse_elems n s = Some (js, r) \<Longrightarrow> utf8_json (JArr js)"
    "parse_members n s = Some (ms, r) \<Longrightarrow> utf8_json (JObj ms)"
  using assms unfolding decodes_utf8_def utf8_members utf8_elems by blast+

lemma parse_value_utf8:
  assumes "decodes_utf8 n" "parse_value (Suc n) s = Some (j, r)"
  shows "utf8_json j"
proof -
  from assms(2) obtain c t where c: "skip_ws s = c # t" by (auto split: list.splits)
  consider "\<exists>x r'. unquote t = Some (x, r') \<and> j = JStr x" | "j = JNull \<or> j = JBool True \<or> j = JBool False" | l where "j = JNum l"
    | "\<exists>js r'. parse_elems n t = Some (js, r') \<and> j = JArr js"
    | "\<exists>ms r'. parse_members n t = Some (ms, r') \<and> j = JObj ms" | "j = JArr [] \<or> j = JObj []"
    using assms(2) by (auto simp: c Let_def split: if_splits list.splits)
  then show ?thesis
  proof cases
    case 4
    then show ?thesis using decodes_utf8D(2) [OF assms(1)] by blast
  next
    case 5
    then show ?thesis using decodes_utf8D(3) [OF assms(1)] by blast
  qed (auto dest: unquote_valid)
qed

lemma parse_elems_utf8:
  assumes "decodes_utf8 n" "parse_elems (Suc n) s = Some (js, r)" "x \<in> set js"
  shows "utf8_json x"
proof -
  from assms(2) obtain y t where y: "parse_value n s = Some (y, t)" by (auto split: option.splits)
  with assms(2) have "js = [y] \<or> (\<exists>t' xs r'. parse_elems n t' = Some (xs, r') \<and> js = y # xs)"
    by (auto simp: cons_fst_Some split: list.splits if_splits)
  with assms(1,3) y show ?thesis unfolding decodes_utf8_def by (metis list.distinct(1) set_ConsD list.set_cases set_empty2 empty_iff)
qed

lemma parse_members_utf8:
  assumes "decodes_utf8 n" "parse_members (Suc n) s = Some (ms, r)" "(k, v) \<in> set ms"
  shows "valid_utf8 k \<and> utf8_json v"
proof -
  from assms(2) obtain t where t: "skip_ws s = CHR 0x22 # t" by (auto split: list.splits if_splits)
  with assms(2) obtain k' t1 where k: "unquote t = Some (k', t1)" by (auto split: option.splits)
  with assms(2) t obtain t2 where t2: "skip_ws t1 = CHR '':'' # t2" by (auto split: list.splits if_splits)
  with assms(2) t k obtain v' t3 where v: "parse_value n t2 = Some (v', t3)" by (auto split: option.splits)
  with assms(2) t k t2 have "ms = [(k', v')] \<or> (\<exists>t' xs r'. parse_members n t' = Some (xs, r') \<and> ms = (k', v') # xs)"
    by (auto simp: cons_fst_Some split: list.splits if_splits)
  note kv = k v this
  then have head: "valid_utf8 k' \<and> utf8_json v'" using decodes_utf8D(1) [OF assms(1)] unquote_valid by blast
  from kv(3) show ?thesis
  proof
    assume "ms = [(k', v')]"
    with assms(3) head show ?thesis by simp
  next
    assume "\<exists>t' xs r'. parse_members n t' = Some (xs, r') \<and> ms = (k', v') # xs"
    then obtain t' xs r' where "parse_members n t' = Some (xs, r')" "ms = (k', v') # xs" by blast
    with assms(1,3) head show ?thesis unfolding decodes_utf8_def by fastforce
  qed
qed

lemma decodes_utf8: "decodes_utf8 n"
proof (induction n)
  case (Suc n)
  show ?case unfolding decodes_utf8_def
    using parse_value_utf8 [OF Suc] parse_elems_utf8 [OF Suc] parse_members_utf8 [OF Suc] by blast
qed (simp add: decodes_utf8_def)

lemma value_utf8: "parse_value n s = Some (j, r) \<Longrightarrow> utf8_json j"
  using decodes_utf8 [of n] unfolding decodes_utf8_def by blast

lemma parse_json_utf8: "parse_json s = Some j \<Longrightarrow> utf8_json j"
  unfolding parse_json_def
  by (auto dest: value_utf8 simp del: parse_value.simps split: option.splits if_splits prod.splits)

section \<open>Stored values\<close>

lemma match_field_names: "match_field names k = Some n \<Longrightarrow> n \<in> set names"
  by (auto simp: match_field_def find_Some_iff split: if_splits)

lemma un_members_keeps:
  assumes "un_members names f ms x = Some y" "utf8_json (JObj ms)" "P x"
    and keep: "\<And>k v x y. f k v x = Some y \<Longrightarrow> utf8_json v \<Longrightarrow> P x \<Longrightarrow> P y"
  shows "P y"
  using assms(1-3)
proof (induction ms arbitrary: x)
  case (Cons m ms)
  obtain k v where m: "m = (k, v)" by (cases m)
  have ms: "utf8_json v" "utf8_json (JObj ms)" using Cons.prems(2) unfolding utf8_members m by auto
  show ?case
  proof (cases "match_field names k")
    case None
    then show ?thesis using Cons.IH [OF _ ms(2) Cons.prems(3)] Cons.prems(1) by (simp add: m)
  next
    case (Some n)
    with Cons.prems(1) obtain z where z: "f n v x = Some z" "un_members names f ms z = Some y"
      by (auto simp: m split: option.splits)
    from Cons.IH [OF z(2) ms(2)] keep [OF z(1) ms(1) Cons.prems(3)] show ?thesis by blast
  qed
qed simp

lemma un_struct_keeps:
  assumes "un_struct names f j x = Some y" "utf8_json j" "P x"
    and "\<And>k v x y. f k v x = Some y \<Longrightarrow> utf8_json v \<Longrightarrow> P x \<Longrightarrow> P y"
  shows "P y"
  using assms un_members_keeps [of names f _ x y P] by (auto simp: un_struct_def split: json.splits)

lemma un_elems_keeps:
  assumes "un_elems un zero js old = Some ys" "utf8_json (JArr js)" "\<forall>x\<in>set old. P x" "P zero"
    and keep: "\<And>j x y. un j x = Some y \<Longrightarrow> utf8_json j \<Longrightarrow> P x \<Longrightarrow> P y"
  shows "\<forall>y\<in>set ys. P y"
  using assms(1-3)
proof (induction js arbitrary: old ys)
  case (Cons j js)
  let ?x = "case old of [] \<Rightarrow> zero | x # xs \<Rightarrow> x"
  from Cons.prems(1) obtain y zs where y: "un j ?x = Some y" "un_elems un zero js (tl old) = Some zs" "ys = y # zs"
    by (auto split: option.splits)
  have "P ?x" "\<forall>x\<in>set (tl old). P x" using Cons.prems(3) assms(4) by (cases old; simp)+
  moreover have "utf8_json j" "utf8_json (JArr js)" using Cons.prems(2) by (simp_all add: utf8_elems)
  ultimately show ?case using keep [OF y(1)] Cons.IH [OF y(2)] y(3) by simp
qed simp

lemma un_slice_keeps:
  assumes "un_slice un zero j old = Some ys" "utf8_json j" "\<forall>x\<in>set old. P x" "P zero"
    and "\<And>j x y. un j x = Some y \<Longrightarrow> utf8_json j \<Longrightarrow> P x \<Longrightarrow> P y"
  shows "\<forall>y\<in>set ys. P y"
  using assms un_elems_keeps [of un zero _ old ys P] by (auto simp: un_slice_def split: json.splits)

lemma un_string_utf8: "un_string v old = Some s \<Longrightarrow> utf8_json v \<Longrightarrow> valid_utf8 old \<Longrightarrow> valid_utf8 s"
  by (auto simp: un_string_def split: json.splits)

lemma un_tx_utf8:
  assumes "un_tx j t = Some u" "utf8_json j" "utf8_tx t"
  shows "utf8_tx u"
  using assms unfolding un_tx_def
  by (rule un_struct_keeps) (auto simp: set_tx_field_def utf8_tx_def dest: un_string_utf8 split: if_splits)

lemma utf8_zero [simp]: "utf8_tx zero_tx" "utf8_block zero_block" "utf8_chain zero_chain"
  by (simp_all add: utf8_tx_def zero_tx_def utf8_block_def zero_block_def utf8_chain_def zero_chain_def)

lemma un_block_utf8:
  assumes "un_block j b = Some c" "utf8_json j" "utf8_block b"
  shows "utf8_block c"
  using assms unfolding un_block_def
proof (rule un_struct_keeps)
  fix k v x y assume *: "set_block_field k v x = Some y" "utf8_json v" "utf8_block x"
  have "list_all utf8_tx ts" if "un_slice un_tx zero_tx v (Transactions x) = Some ts" for ts
    using un_slice_keeps [OF that *(2), of utf8_tx] *(3) un_tx_utf8 by (auto simp: utf8_block_def list_all_iff)
  with * show "utf8_block y"
    by (auto simp: set_block_field_def utf8_block_def dest: un_string_utf8 split: if_splits)
qed

lemma un_block_pointer_utf8:
  assumes "un_block_pointer j p = Some q" "utf8_json j" "pred_option utf8_block p"
  shows "pred_option utf8_block q"
  using assms un_block_utf8
  by (auto simp: un_block_pointer_def un_pointer_def split: json.splits option.splits)

lemma utf8_chain_iff:
  "utf8_chain c \<longleftrightarrow> (\<forall>q\<in>set (Blocks c). pred_option utf8_block q) \<and> (\<forall>t\<in>set (Pending c). utf8_tx t)"
proof -
  have "(\<forall>q\<in>set bs. pred_option utf8_block q) \<longleftrightarrow> (\<forall>b. Some b \<in> set bs \<longrightarrow> utf8_block b)" for bs
  proof (induction bs)
    case (Cons q bs)
    then show ?case by (cases q) auto
  qed simp
  then show ?thesis by (simp add: utf8_chain_def list_all_iff)
qed

lemma set_chain_field_cases:
  assumes "set_chain_field k v x = Some y"
  shows "(\<exists>bs. un_slice un_block_pointer None v (Blocks x) = Some bs \<and> y = x\<lparr>Blocks := bs\<rparr>)
    \<or> (\<exists>ts. un_slice un_tx zero_tx v (Pending x) = Some ts \<and> y = x\<lparr>Pending := ts\<rparr>)
    \<or> (Blocks y = Blocks x \<and> Pending y = Pending x)"
  using assms by (auto simp: set_chain_field_def split: if_splits)

lemma un_chain_utf8:
  assumes "un_chain j c = Some d" "utf8_json j" "utf8_chain c"
  shows "utf8_chain d"
  using assms unfolding un_chain_def
proof (rule un_struct_keeps)
  fix k v x y assume *: "set_chain_field k v x = Some y" "utf8_json v" "utf8_chain x"
  note x = *(3) [unfolded utf8_chain_iff]
  from set_chain_field_cases [OF *(1)] show "utf8_chain y"
  proof (elim disjE exE conjE)
    fix bs assume bs: "un_slice un_block_pointer None v (Blocks x) = Some bs" "y = x\<lparr>Blocks := bs\<rparr>"
    have "\<forall>q\<in>set bs. pred_option utf8_block q"
      by (rule un_slice_keeps [OF bs(1) *(2)]) (use x un_block_pointer_utf8 in auto)
    with x bs(2) show ?thesis by (simp add: utf8_chain_iff)
  next
    fix ts assume ts: "un_slice un_tx zero_tx v (Pending x) = Some ts" "y = x\<lparr>Pending := ts\<rparr>"
    have "\<forall>t\<in>set ts. utf8_tx t"
      by (rule un_slice_keeps [OF ts(1) *(2)]) (use x un_tx_utf8 in auto)
    with x ts(2) show ?thesis by (simp add: utf8_chain_iff)
  qed (use x in \<open>simp add: utf8_chain_iff\<close>)
qed

lemma Load_parsed:
  "Load ed fails path d = Ok c \<longleftrightarrow>
     (\<exists>data j. d path = Some data \<and> \<not> fails \<and> parse_json data = Some j \<and> un_chain j zero_chain = Some c
        \<and> Validate ed c = Ok ())"
  by (auto simp: Load_def bind_res_eq_Ok split: option.splits)

lemma Load_utf8: "Load ed fails path d = Ok c \<Longrightarrow> utf8_chain c \<and> Validate ed c = Ok ()"
  using un_chain_utf8 parse_json_utf8 by (auto simp: Load_parsed)

section \<open>Property\<close>

text \<open>
  C16. Everything that \<open>Load\<close> returns is well formed: whatever bytes the file holds, the chain
  validates and all its strings are UTF-8, and saving it and loading it again gives the same
  chain.
\<close>

theorem loaded_chain_is_wellformed:
  assumes "Load ed fails path d = Ok c" "Save f path c d = (d', Ok ())"
  shows "Validate ed c = Ok () \<and> utf8_chain c \<and> san_chain c = c \<and> Load ed False path d' = Ok c"
  using Load_utf8 [OF assms(1)] Load_saved [of d' path c ed] by (simp add: Save_Ok [OF assms(2)] san_chain_utf8)

theorem loaded_chain_is_wellformed_witness:
  "utf8_chain demo_pooled"
proof -
  let ?d = "fst (Save no_faults ''c'' demo_pooled Map.empty)"
  have s: "Save no_faults ''c'' demo_pooled d = (fst (Save no_faults ''c'' demo_pooled d), Ok ())" for d
    using Save_no_faults [of "''c''" demo_pooled d] by (simp add: prod_eq_iff)
  have "Load plain_ed25519 False ''c'' ?d = Ok demo_pooled"
    using Load_saved [of ?d "''c''" demo_pooled plain_ed25519] good_chain_Validate [OF demo_pooled_good [of plain_ed25519]]
    by (simp add: Save_Ok [OF s] san_chain_utf8 [OF demo_pooled_utf8])
  from loaded_chain_is_wellformed [OF this s] show ?thesis by blast
qed

end
