(* ===== verification/Wallet.thy ===== *)
theory Wallet
  imports Decoding "HOL-Library.AList" "HOL-Library.List_Lexorder"
begin

text \<open>
  The wallet store of \<open>src/cli/cli.go\<close>: named key pairs in a JSON file. The Go map from names
  to wallets is an association list with distinct names; its order means nothing, and the
  code sorts the names wherever it shows or writes them. Saving goes through a temporary
  file like saving a chain, but without a sync and without removing the file on failure.
\<close>

section \<open>Data and JSON form\<close>

record wallet =
  Address :: string
  WalletPublicKey :: string
  WalletPrivateKey :: string

type_synonym wallet_store = "(string \<times> wallet) list"

definition wallet_json :: "wallet \<Rightarrow> json" where
  "wallet_json w =
     JObj [(''address'', JStr (Address w)), (''public_key'', JStr (WalletPublicKey w)),
           (''private_key'', JStr (WalletPrivateKey w))]"

text \<open>\<open>encoding/json\<close> writes the members of a map in the order of their keys.\<close>

definition store_json :: "wallet_store \<Rightarrow> json" where
  "store_json s = JObj [(''wallets'', JObj (map (\<lambda>(name, w). (name, wallet_json w)) (sort_key fst s)))]"

definition zero_wallet :: wallet where
  "zero_wallet = \<lparr>Address = [], WalletPublicKey = [], WalletPrivateKey = []\<rparr>"

definition wallet_fields :: "string list" where
  "wallet_fields = [''address'', ''public_key'', ''private_key'']"

definition set_wallet_field :: "string \<Rightarrow> json \<Rightarrow> wallet \<Rightarrow> wallet option" where
  "set_wallet_field n v w =
     (if n = ''address'' then map_option (\<lambda>s. w\<lparr>Address := s\<rparr>) (un_string v (Address w))
      else if n = ''public_key'' then map_option (\<lambda>s. w\<lparr>WalletPublicKey := s\<rparr>) (un_string v (WalletPublicKey w))
      else map_option (\<lambda>s. w\<lparr>WalletPrivateKey := s\<rparr>) (un_string v (WalletPrivateKey w)))"

definition un_wallet :: "json \<Rightarrow> wallet \<Rightarrow> wallet option" where
  "un_wallet j w = un_struct wallet_fields set_wallet_field j w"

text \<open>A map is filled member by member; every value starts from a zero wallet.\<close>

fun un_wallet_members :: "(string \<times> json) list \<Rightarrow> wallet_store \<Rightarrow> wallet_store option" where
  "un_wallet_members [] s = Some s"
| "un_wallet_members ((name, v) # ms) s =
     (case un_wallet v zero_wallet of
        None \<Rightarrow> None
      | Some w \<Rightarrow> un_wallet_members ms (AList.update name w s))"

definition set_store_field :: "string \<Rightarrow> json \<Rightarrow> wallet_store \<Rightarrow> wallet_store option" where
  "set_store_field n v s =
     (case v of JNull \<Rightarrow> Some [] | JObj ms \<Rightarrow> un_wallet_members ms s | _ \<Rightarrow> None)"

definition un_store :: "json \<Rightarrow> wallet_store \<Rightarrow> wallet_store option" where
  "un_store j s = un_struct [''wallets''] set_store_field j s"

section \<open>Loading and saving\<close>

datatype wallet_error =
    ReadingWallets
  | ParsingWallets
  | CreatingWalletDirectory
  | WritingWallets
  | ReplacingWallets

text \<open>\<open>fails\<close>: reading fails for another reason than that there is no such file.\<close>

definition loadWalletStore :: "bool \<Rightarrow> string \<Rightarrow> disk \<Rightarrow> (wallet_error, wallet_store) res" where
  "loadWalletStore fails path d =
     (if fails then Err ReadingWallets
      else
        (case d path of
           None \<Rightarrow> Ok []
         | Some data \<Rightarrow>
             (case parse_json data of
                None \<Rightarrow> Err ParsingWallets
              | Some j \<Rightarrow> (case un_store j [] of None \<Rightarrow> Err ParsingWallets | Some s \<Rightarrow> Ok s))))"

text \<open>\<open>os.WriteFile\<close> opens, writes and closes; any of the three may fail.\<close>

definition wallet_save_ops :: "save_faults \<Rightarrow> string \<Rightarrow> string \<Rightarrow> fs_op list \<times> (wallet_error, unit) res" where
  "wallet_save_ops f path data =
     (let tmp = temporary path; written = map (AppendByte tmp) data in
      if MkdirFails f then ([], Err CreatingWalletDirectory)
      else if OpenFails f then ([MkdirAll], Err WritingWallets)
      else
        (case WriteStops f of
           Some n \<Rightarrow> ([MkdirAll, OpenTruncate tmp] @ take n written @ [CloseFile], Err WritingWallets)
         | None \<Rightarrow>
             (let ops = [MkdirAll, OpenTruncate tmp] @ written @ [CloseFile] in
              if CloseFails f then (ops, Err WritingWallets)
              else if RenameFails f then (ops, Err ReplacingWallets)
              else (ops @ [RenameFile tmp path], Ok ()))))"

definition store_bytes :: "wallet_store \<Rightarrow> string" where
  "store_bytes s = MarshalIndent (store_json s)"

definition save_store :: "save_faults \<Rightarrow> string \<Rightarrow> wallet_store \<Rightarrow> disk \<Rightarrow> disk \<times> (wallet_error, unit) res" where
  "save_store f path s d =
     (case wallet_save_ops f path (store_bytes s) of (ops, r) \<Rightarrow> (fold fs_apply ops d, r))"

section \<open>Lemmas\<close>

definition utf8_wallet :: "wallet \<Rightarrow> bool" where
  "utf8_wallet w \<longleftrightarrow> valid_utf8 (Address w) \<and> valid_utf8 (WalletPublicKey w) \<and> valid_utf8 (WalletPrivateKey w)"

definition store_ok :: "wallet_store \<Rightarrow> bool" where
  "store_ok s \<longleftrightarrow> distinct (map fst s) \<and> (\<forall>(name, w)\<in>set s. valid_utf8 name \<and> utf8_wallet w)"

lemma un_wallet_json [simp]: "un_wallet (wallet_json w) zero_wallet = Some w"
  by (simp add: un_wallet_def un_struct_def wallet_json_def set_wallet_field_def wallet_fields_def zero_wallet_def)

lemma un_wallet_members_json:
  "distinct (map fst (s @ xs)) \<Longrightarrow>
     un_wallet_members (map (\<lambda>(name, w). (name, wallet_json w)) xs) s = Some (s @ xs)"
proof (induction xs arbitrary: s)
  case (Cons x xs)
  obtain n w where x: "x = (n, w)" by (cases x)
  have fresh: "n \<notin> set (map fst s)" using Cons.prems x by auto
  have "AList.update n w s = s @ [(n, w)]" using fresh by (induction s) auto
  with Cons.IH [of "s @ [(n, w)]"] Cons.prems show ?case by (simp add: x)
qed simp

lemma store_json_san:
  assumes "store_ok s"
  shows "san_json (store_json s) = store_json s"
proof -
  have "san_json (wallet_json w) = wallet_json w" if "utf8_wallet w" for w
    using that by (simp add: wallet_json_def utf8_wallet_def byte_def ascii_def)
  moreover have "\<forall>(n, w)\<in>set (sort_key fst s). valid_utf8 n \<and> utf8_wallet w"
    using assms by (simp add: store_ok_def)
  ultimately show ?thesis by (auto simp: store_json_def ascii_def byte_def)
qed

lemma nums_ok_store [simp]: "nums_ok (store_json s)"
  by (auto simp: store_json_def wallet_json_def list_all_iff)

lemma parse_store: "store_ok s \<Longrightarrow> parse_json (store_bytes s) = Some (store_json s)"
  by (simp add: store_bytes_def MarshalIndent_def parse_render store_json_san)

lemma un_store_json:
  assumes "distinct (map fst s)"
  shows "un_store (store_json s) [] = Some (sort_key fst s)"
proof -
  have "mset (map fst (sort_key fst s)) = mset (map fst s)" by simp
  then have "distinct (map fst (sort_key fst s))" using assms mset_eq_imp_distinct_iff by blast
  then show ?thesis
    using un_wallet_members_json [of "[]" "sort_key fst s"]
    by (simp add: un_store_def un_struct_def store_json_def set_store_field_def)
qed


lemma map_of_sort_key: "distinct (map fst s) \<Longrightarrow> map_of (sort_key fst s) = map_of s"
proof -
  assume d: "distinct (map fst s)"
  have "mset (map fst (sort_key fst s)) = mset (map fst s)" by simp
  then have "distinct (map fst (sort_key fst s))" using d mset_eq_imp_distinct_iff by blast
  then show ?thesis using d by (simp add: map_of_inject_set)
qed

lemma un_wallet_utf8:
  assumes "un_wallet j w = Some v" "utf8_json j" "utf8_wallet w"
  shows "utf8_wallet v"
  using assms unfolding un_wallet_def
  by (rule un_struct_keeps) (auto simp: set_wallet_field_def utf8_wallet_def dest: un_string_utf8 split: if_splits)

lemma store_ok_update:
  assumes "store_ok s" "valid_utf8 name" "utf8_wallet w"
  shows "store_ok (AList.update name w s)"
proof -
  have "set (AList.update name w s) \<subseteq> insert (name, w) (set s)"
    by (induction s) auto
  moreover have "distinct (map fst (AList.update name w s))"
    using assms(1) by (simp add: store_ok_def distinct_update)
  ultimately show ?thesis using assms unfolding store_ok_def by blast
qed

lemma un_wallet_members_ok:
  "un_wallet_members ms s = Some t \<Longrightarrow> utf8_json (JObj ms) \<Longrightarrow> store_ok s \<Longrightarrow> store_ok t"
proof (induction ms s rule: un_wallet_members.induct)
  case (2 name v ms s)
  have m: "valid_utf8 name" "utf8_json v" "utf8_json (JObj ms)" using "2.prems"(2) unfolding utf8_members by auto
  from "2.prems"(1) obtain w where w: "un_wallet v zero_wallet = Some w" "un_wallet_members ms (AList.update name w s) = Some t"
    by (auto split: option.splits)
  have "utf8_wallet w" by (rule un_wallet_utf8 [OF w(1) m(2)]) (simp add: zero_wallet_def utf8_wallet_def)
  then show ?case using "2.IH" [OF w(1) w(2) m(3)] store_ok_update [OF "2.prems"(3) m(1)] by blast
qed simp

lemma un_store_ok:
  assumes "un_store j s = Some t" "utf8_json j" "store_ok s"
  shows "store_ok t"
  using assms unfolding un_store_def
proof (rule un_struct_keeps)
  fix k v x y assume *: "set_store_field k v x = Some y" "utf8_json v" "store_ok x"
  then show "store_ok y"
    using un_wallet_members_ok [of _ x y] by (cases v) (auto simp: set_store_field_def store_ok_def)
qed

lemma loadWalletStore_ok: "loadWalletStore fails path d = Ok s \<Longrightarrow> store_ok s"
proof -
  assume L: "loadWalletStore fails path d = Ok s"
  have empty: "store_ok []" by (simp add: store_ok_def)
  show ?thesis
  proof (cases "d path")
    case None
    with L empty show ?thesis by (simp add: loadWalletStore_def split: if_splits)
  next
    case (Some data)
    with L obtain j where "parse_json data = Some j" "un_store j [] = Some s"
      by (auto simp: loadWalletStore_def split: if_splits option.splits)
    then show ?thesis using un_store_ok empty parse_json_utf8 by blast
  qed
qed

lemma wallet_save_shape:
  assumes "wallet_save_ops f path data = (ops, r)" "p \<noteq> temporary path"
  shows "(list_all (spares p) ops \<and> (\<exists>e. r = Err e))
    \<or> (r = Ok () \<and> (\<exists>ops'. ops = ops' @ [RenameFile (temporary path) path] \<and> list_all (spares p) ops'
         \<and> (\<forall>d. fold fs_apply ops' d = d(temporary path \<mapsto> data))))"
proof (cases "r = Ok ()")
  case True
  let ?ops = "[MkdirAll, OpenTruncate (temporary path)] @ map (AppendByte (temporary path)) data @ [CloseFile]"
  have "ops = ?ops @ [RenameFile (temporary path) path]"
    using assms(1) True by (auto simp: wallet_save_ops_def Let_def split: if_splits option.splits)
  moreover have "list_all (spares p) ?ops" using assms(2) by (simp add: spares_def)
  moreover have "fold fs_apply ?ops d = d(temporary path \<mapsto> data)" for d
    using fold_append_bytes [of "d(temporary path \<mapsto> [])" "temporary path" "[]" data] by simp
  ultimately show ?thesis using True by blast
next
  case False
  have "spares p MkdirAll" "spares p CloseFile" "spares p (OpenTruncate (temporary path))"
    using assms(2) by (simp_all add: spares_def)
  with assms False show ?thesis
    by (auto simp: wallet_save_ops_def Let_def split: if_splits option.splits)
qed

lemma save_store_Ok:
  assumes "save_store f path s d = (d', Ok ())"
  shows "d' = (d(path \<mapsto> store_bytes s))(temporary path := None)"
proof -
  obtain ops where ops: "wallet_save_ops f path (store_bytes s) = (ops, Ok ())" "d' = fold fs_apply ops d"
    using assms by (auto simp: save_store_def split: prod.splits)
  from wallet_save_shape [OF ops(1), of path] obtain ops' where
    "ops = ops' @ [RenameFile (temporary path) path]" "fold fs_apply ops' d = d(temporary path \<mapsto> store_bytes s)"
    by auto
  with ops(2) show ?thesis by (auto simp: fun_eq_iff)
qed

lemma save_store_spares:
  assumes "save_store f path s d = (d', r)" "p \<noteq> temporary path" "p \<noteq> path \<or> r \<noteq> Ok ()"
  shows "d' p = d p"
proof -
  obtain ops where ops: "wallet_save_ops f path (store_bytes s) = (ops, r)" "d' = fold fs_apply ops d"
    using assms(1) by (auto simp: save_store_def split: prod.splits)
  from wallet_save_shape [OF ops(1) assms(2)] assms(2,3)
  have "list_all (spares p) ops" by (auto simp: spares_def)
  then show ?thesis by (simp add: ops(2) fold_spares)
qed

lemma load_saved_store:
  assumes "store_ok s" "d path = Some (store_bytes s)"
  shows "loadWalletStore False path d = Ok (sort_key fst s)"
  using assms by (simp add: loadWalletStore_def parse_store un_store_json store_ok_def)

section \<open>Property\<close>

text \<open>
  C23. The wallet store round trip: whatever a load returns has distinct UTF-8 names and fields,
  and such a store, saved successfully, is loaded back as the same map, in the order of
  the names; a save that fails leaves the wallet file as it was.
\<close>

theorem wallets_round_trip:
  assumes "store_ok s" "save_store f path s d = (d', r)"
  shows "(r = Ok () \<longrightarrow> loadWalletStore False path d' = Ok (sort_key fst s) \<and> map_of (sort_key fst s) = map_of s)
    \<and> (r \<noteq> Ok () \<longrightarrow> d' path = d path)
    \<and> (\<forall>e fails t. loadWalletStore fails path e = Ok t \<longrightarrow> store_ok t)"
proof -
  have "loadWalletStore False path d' = Ok (sort_key fst s)" if "r = Ok ()"
    using save_store_Ok [of f path s d d'] assms that by (intro load_saved_store) simp_all
  moreover have "map_of (sort_key fst s) = map_of s" using assms(1) by (simp add: map_of_sort_key store_ok_def)
  moreover have "d' path = d path" if "r \<noteq> Ok ()" using save_store_spares [OF assms(2), of path] that by simp
  ultimately show ?thesis using loadWalletStore_ok by blast
qed

definition demo_store :: wallet_store where
  "demo_store =
     [(''zoe'', \<lparr>Address = ''a1'', WalletPublicKey = ''00'', WalletPrivateKey = ''01''\<rparr>),
      (''ann'', \<lparr>Address = ''b2'', WalletPublicKey = ''02'', WalletPrivateKey = ''03''\<rparr>)]"

theorem wallets_round_trip_witness:
  "map fst (ok_val (loadWalletStore False ''w'' (fst (save_store no_faults ''w'' demo_store Map.empty)))) = [''ann'', ''zoe'']"
proof -
  have ok: "store_ok demo_store"
    by (simp add: store_ok_def demo_store_def utf8_wallet_def ascii_def byte_def)
  have "snd (save_store no_faults ''w'' demo_store Map.empty) = Ok ()"
    by (simp add: save_store_def wallet_save_ops_def no_faults_def Let_def)
  then have "save_store no_faults ''w'' demo_store Map.empty = (fst (save_store no_faults ''w'' demo_store Map.empty), Ok ())"
    by (simp add: prod_eq_iff)
  from wallets_round_trip [OF ok this] show ?thesis by (simp add: demo_store_def)
qed

end
