(* ===== verification/Cli.thy ===== *)
theory Cli
  imports Fork Wallet
begin

text \<open>
  The command line of \<open>src/cli/cli.go\<close>: every command, their dispatch by \<open>Run\<close> and the
  interactive loop \<open>RunREPL\<close>. What a command prints is a list of message values, one per
  line or group of lines; the wording and layout of the lines are not modelled. What comes
  from outside a command (the mining environment, a generated key pair, failing file calls)
  is the record \<open>world\<close>; the mining timeout of the source is the end of the context in the
  schedule of the mining environment, and its output writer is the list of messages.
\<close>

section \<open>State, errors and messages\<close>

record cli =
  Current :: chain
  DataFile :: string
  WalletFile :: string
  MineLimits :: mining_limits

record world =
  MiningEnv :: mine_env
  GeneratedKey :: "(string \<times> string) option"
  WalletReadFails :: bool
  CandidateReadFails :: bool
  WalletFaults :: save_faults
  ChainFaults :: save_faults
  AutoSaveFaults :: save_faults

datatype cli_error =
    NoCommand
  | UnknownCommand string
  | Usage string
  | EmptyWalletName
  | WalletExists string
  | GeneratingKey
  | WalletStoreFailed wallet_error
  | InvalidAmount num_error
  | WalletNotFound string
  | InvalidStoredKey
  | LedgerFailed ledger_error
  | InvalidPending ledger_error
  | SigningFailed tx_error
  | TransactionRejected chain_error
  | ChainFailed chain_error
  | InvalidDifficulty num_error
  | NotOnOrOff
  | InvalidInterval num_error
  | InvalidTargetSeconds num_error
  | InvalidMinimum num_error
  | InvalidMaximum num_error
  | LoadingCandidate load_error
  | ForkFailed fork_error
  | SavingResolved save_error
  | SavingChain save_error

datatype message =
    Help
  | CreatedWallet string string
  | NoWallets
  | WalletLine string string
  | QueuedTransfer transaction
  | QueuedGrant transaction
  | MinedBlock i64 mine_result
  | DifficultyFrom i64 i64
  | RuleLine difficulty_rule
  | RetargetUpdated
  | RetargetReport retarget_config "i64 option" i64
  | WorkLine string
  | ForkResolved fork_result
  | PrintedBlock block
  | ChainInvalid validation_error
  | ChainValid i64
  | NoAccounts
  | AccountBalances "string \<rightharpoonup> i64"
  | BalancesFailed ledger_error
  | BalanceLine string i64
  | NoPendingLine
  | PendingLine transaction
  | SavedTo string
  | Banner
  | Prompt
  | ErrorLine cli_error
  | SaveWarning save_error
  | Goodbye

type_synonym reply = "(cli_error, message list) res"

section \<open>Wallet commands\<close>

definition cmdWalletCreate :: "world \<Rightarrow> string list \<Rightarrow> cli \<Rightarrow> disk \<Rightarrow> disk \<times> reply" where
  "cmdWalletCreate w args c d =
     (if length args \<noteq> 1 then (d, Err (Usage ''wallet-create''))
      else
        (let name = TrimSpace (args ! 0) in
         if name = [] then (d, Err EmptyWalletName)
         else
           (case loadWalletStore (WalletReadFails w) (WalletFile c) d of
              Panic p \<Rightarrow> (d, Panic p)
            | Err e \<Rightarrow> (d, Err (WalletStoreFailed e))
            | Ok store \<Rightarrow>
                if map_of store name \<noteq> None then (d, Err (WalletExists name))
                else
                  (case GeneratedKey w of
                     None \<Rightarrow> (d, Err GeneratingKey)
                   | Some (publicKey, privateKey) \<Rightarrow>
                       let wallet = \<lparr>Address = AddressFromPublicKey publicKey,
                             WalletPublicKey = hex_encode publicKey, WalletPrivateKey = hex_encode privateKey\<rparr>
                       in case save_store (WalletFaults w) (WalletFile c) (AList.update name wallet store) d of
                            (d', r) \<Rightarrow> (d', bind_res (map_err WalletStoreFailed r)
                                             (\<lambda>_. Ok [CreatedWallet name (Address wallet)]))))))"

definition cmdWalletList :: "world \<Rightarrow> cli \<Rightarrow> disk \<Rightarrow> reply" where
  "cmdWalletList w c d =
     bind_res (map_err WalletStoreFailed (loadWalletStore (WalletReadFails w) (WalletFile c) d))
       (\<lambda>store. Ok (if store = [] then [NoWallets]
                    else map (\<lambda>(name, v). WalletLine name (Address v)) (sort_key fst store)))"

section \<open>Commands that change the chain\<close>

definition cmdSend :: "ed25519 \<Rightarrow> world \<Rightarrow> string list \<Rightarrow> cli \<Rightarrow> disk \<Rightarrow> (cli_error, chain \<times> message list) res" where
  "cmdSend ed w args c d =
     (if length args \<noteq> 3 then Err (Usage ''send'')
      else
        bind_res (map_err InvalidAmount (ParseInt (args ! 2))) (\<lambda>amount.
        bind_res (map_err WalletStoreFailed (loadWalletStore (WalletReadFails w) (WalletFile c) d)) (\<lambda>store.
        case map_of store (args ! 0) of
          None \<Rightarrow> Err (WalletNotFound (args ! 0))
        | Some wallet \<Rightarrow>
            (case hex_decode (WalletPrivateKey wallet) of
               None \<Rightarrow> Err InvalidStoredKey
             | Some privateKey \<Rightarrow>
                 bind_res (map_err LedgerFailed (Ledger ed (Current c))) (\<lambda>l.
                 bind_res (map_err InvalidPending (fold_res (Apply ed) (Pending (Current c)) l)) (\<lambda>currentLedger.
                 bind_res (map_err SigningFailed (Sign ed privateKey
                   \<lparr>Sender = [], Recipient = args ! 1, Amount = amount,
                    TxNonce = NextNonce currentLedger (Address wallet), PublicKey = [], Signature = []\<rparr>)) (\<lambda>tx.
                 bind_res (map_err TransactionRejected (AddTransaction ed tx (Current c))) (\<lambda>k.
                 Ok (k, [QueuedTransfer tx])))))))))"

definition cmdFaucet :: "ed25519 \<Rightarrow> string list \<Rightarrow> cli \<Rightarrow> (cli_error, chain \<times> message list) res" where
  "cmdFaucet ed args c =
     (if length args \<noteq> 2 then Err (Usage ''faucet'')
      else
        bind_res (map_err InvalidAmount (ParseInt (args ! 1))) (\<lambda>amount.
        let tx = \<lparr>Sender = FaucetAccount, Recipient = args ! 0, Amount = amount, TxNonce = 0,
                  PublicKey = [], Signature = []\<rparr>
        in bind_res (map_err TransactionRejected (AddTransaction ed tx (Current c))) (\<lambda>k.
           Ok (k, [QueuedGrant tx]))))"

definition cmdMine :: "world \<Rightarrow> cli \<Rightarrow> (cli_error, chain \<times> message list) res option" where
  "cmdMine w c =
     map_option
       (\<lambda>r. bind_res (map_err ChainFailed r) (\<lambda>(k, newBlock, result). Ok (k, [MinedBlock (Height newBlock) result])))
       (MineBlock (MiningEnv w) (MineLimits c) (Current c))"

definition latest_block :: "chain \<Rightarrow> ('e, block) res" where
  "latest_block c = bind_res (Latest c) deref"

definition cmdSetDifficulty :: "string list \<Rightarrow> cli \<Rightarrow> (cli_error, chain \<times> message list) res" where
  "cmdSetDifficulty args c =
     (if length args \<noteq> 1 then Err (Usage ''setdifficulty'')
      else
        bind_res (map_err InvalidDifficulty (ParseInt (args ! 0))) (\<lambda>difficulty.
        bind_res (map_err ChainFailed (SetDifficulty difficulty (Current c))) (\<lambda>k.
        bind_res (latest_block k) (\<lambda>b. Ok (k, [DifficultyFrom difficulty (Height b + 1)])))))"

definition cmdRetarget :: "chain \<Rightarrow> reply" where
  "cmdRetarget k =
     bind_res (NextRetargetHeight k) (\<lambda>nextHeight.
     bind_res (latest_block k) (\<lambda>b.
     bind_res (ExpectedDifficulty k (Height b + 1)) (\<lambda>difficulty.
     Ok [RetargetReport (Retarget k) (if sint nextHeight < 0 then None else Some nextHeight) difficulty])))"

text \<open>
  \<open>strings.ToLower\<close>, as far as a comparison with ASCII words can see it: ASCII letters, and the
  two other runes whose lower case is an ASCII letter (U+0130 and U+212A).
\<close>

fun ToLower :: "string \<Rightarrow> string" where
  "ToLower [] = []"
| "ToLower (c # s) =
     (if HasPrefix (c # s) [CHR 0xC4, CHR 0xB0] then CHR ''i'' # ToLower (drop 1 s)
      else if HasPrefix (c # s) [CHR 0xE2, CHR 0x84, CHR 0xAA] then CHR ''k'' # ToLower (drop 2 s)
      else (if 65 \<le> byte c \<and> byte c \<le> 90 then char_of (byte c + 32) else c) # ToLower s)"

definition parse_enabled :: "string \<Rightarrow> (cli_error, bool) res" where
  "parse_enabled s =
     (if ToLower s \<in> {''on'', ''true'', ''enabled''} then Ok True
      else if ToLower s \<in> {''off'', ''false'', ''disabled''} then Ok False
      else Err NotOnOrOff)"

definition cmdRetargetConfig :: "string list \<Rightarrow> cli \<Rightarrow> (cli_error, chain \<times> message list) res" where
  "cmdRetargetConfig args c =
     (if length args \<noteq> 5 then Err (Usage ''retarget-config'')
      else
        bind_res (parse_enabled (args ! 0)) (\<lambda>enabled.
        bind_res (map_err InvalidInterval (ParseInt (args ! 1))) (\<lambda>interval.
        bind_res (map_err InvalidTargetSeconds (ParseInt (args ! 2))) (\<lambda>targetSeconds.
        bind_res (map_err InvalidMinimum (ParseInt (args ! 3))) (\<lambda>minimum.
        bind_res (map_err InvalidMaximum (ParseInt (args ! 4))) (\<lambda>maximum.
        bind_res (map_err ChainFailed (ConfigureRetarget
            \<lparr>Enabled = enabled, Interval = interval, TargetBlockSeconds = targetSeconds,
             MinDifficulty = minimum, MaxDifficulty = maximum\<rparr> (Current c))) (\<lambda>k.
        bind_res (cmdRetarget k) (\<lambda>report. Ok (k, RetargetUpdated # report)))))))))"

definition cmdResolveFork :: "ed25519 \<Rightarrow> world \<Rightarrow> string list \<Rightarrow> cli \<Rightarrow> disk \<Rightarrow> cli \<times> disk \<times> reply" where
  "cmdResolveFork ed w args c d =
     (if length args \<noteq> 1 then (c, d, Err (Usage ''resolvefork''))
      else
        (case bind_res (map_err LoadingCandidate (Load ed (CandidateReadFails w) (args ! 0) d)) (\<lambda>candidate.
                map_err ForkFailed (ResolveFork ed (Some (Current c)) (Some candidate))) of
           Panic p \<Rightarrow> (c, d, Panic p)
         | Err e \<Rightarrow> (c, d, Err e)
         | Ok (k, result) \<Rightarrow>
             (case Save (ChainFaults w) (DataFile c) k d of
                (d', r) \<Rightarrow> (c\<lparr>Current := k\<rparr>, d',
                            bind_res (map_err SavingResolved r) (\<lambda>_. Ok [ForkResolved result])))))"

section \<open>Commands that report\<close>

definition cmdPolicy :: "cli \<Rightarrow> reply" where
  "cmdPolicy c = Ok (map RuleLine (DifficultySchedule (Current c)))"

definition cmdWork :: "cli \<Rightarrow> reply" where
  "cmdWork c = Ok [WorkLine (dec_int (TotalWork (Current c)))]"

primrec print_blocks :: "block option list \<Rightarrow> reply" where
  "print_blocks [] = Ok []"
| "print_blocks (p # ps) = bind_res (deref p) (\<lambda>b. bind_res (print_blocks ps) (\<lambda>ms. Ok (PrintedBlock b # ms)))"

definition cmdValidate :: "ed25519 \<Rightarrow> cli \<Rightarrow> reply" where
  "cmdValidate ed c =
     (case Validate ed (Current c) of
        Ok _ \<Rightarrow> Ok [ChainValid (len (Blocks (Current c)))]
      | Err e \<Rightarrow> Ok [ChainInvalid e]
      | Panic p \<Rightarrow> Panic p)"

text \<open>The lines of \<open>cmdBalances\<close> come in the order of a Go map, which is arbitrary.\<close>

definition cmdBalances :: "ed25519 \<Rightarrow> cli \<Rightarrow> reply" where
  "cmdBalances ed c =
     (case Ledger ed (Current c) of
        Ok l \<Rightarrow> Ok [if Balances l = Map.empty then NoAccounts else AccountBalances (Balances l)]
      | Err e \<Rightarrow> Ok [BalancesFailed e]
      | Panic p \<Rightarrow> Panic p)"

definition cmdBalance :: "ed25519 \<Rightarrow> string list \<Rightarrow> cli \<Rightarrow> reply" where
  "cmdBalance ed args c =
     (if length args \<noteq> 1 then Err (Usage ''balance'')
      else bind_res (map_err LedgerFailed (Ledger ed (Current c))) (\<lambda>l.
           Ok [BalanceLine (args ! 0) (Balance l (args ! 0))]))"

definition cmdPending :: "cli \<Rightarrow> reply" where
  "cmdPending c =
     Ok (if Pending (Current c) = [] then [NoPendingLine] else map PendingLine (Pending (Current c)))"

definition cmdSave :: "world \<Rightarrow> cli \<Rightarrow> disk \<Rightarrow> disk \<times> reply" where
  "cmdSave w c d =
     (case Save (ChainFaults w) (DataFile c) (Current c) d of
        (d', r) \<Rightarrow> (d', bind_res (map_err SavingChain r) (\<lambda>_. Ok [SavedTo (DataFile c)])))"

section \<open>Dispatch\<close>

definition reports :: "cli \<Rightarrow> disk \<Rightarrow> reply \<Rightarrow> cli \<times> disk \<times> reply" where
  "reports c d r = (c, d, r)"

definition changes :: "cli \<Rightarrow> disk \<Rightarrow> (cli_error, chain \<times> message list) res \<Rightarrow> cli \<times> disk \<times> reply" where
  "changes c d r =
     (case r of
        Ok (k, ms) \<Rightarrow> (c\<lparr>Current := k\<rparr>, d, Ok ms)
      | Err e \<Rightarrow> (c, d, Err e)
      | Panic p \<Rightarrow> (c, d, Panic p))"

text \<open>\<open>None\<close>: the mining schedule ends before \<open>Mine\<close> has returned.\<close>

definition Run :: "ed25519 \<Rightarrow> world \<Rightarrow> string list \<Rightarrow> cli \<Rightarrow> disk \<Rightarrow> (cli \<times> disk \<times> reply) option" where
  "Run ed w args c d =
     (case args of
        [] \<Rightarrow> Some (reports c d (Err NoCommand))
      | command # rest \<Rightarrow>
          if command = ''help'' then Some (reports c d (Ok [Help]))
          else if command = ''wallet-create'' then (case cmdWalletCreate w rest c d of (d', r) \<Rightarrow> Some (reports c d' r))
          else if command = ''wallet-list'' then Some (reports c d (cmdWalletList w c d))
          else if command = ''send'' \<or> command = ''addtx'' then Some (changes c d (cmdSend ed w rest c d))
          else if command = ''faucet'' then Some (changes c d (cmdFaucet ed rest c))
          else if command = ''mine'' then map_option (changes c d) (cmdMine w c)
          else if command = ''setdifficulty'' then Some (changes c d (cmdSetDifficulty rest c))
          else if command = ''policy'' then Some (reports c d (cmdPolicy c))
          else if command = ''retarget'' then Some (reports c d (cmdRetarget (Current c)))
          else if command = ''retarget-config'' then Some (changes c d (cmdRetargetConfig rest c))
          else if command = ''work'' then Some (reports c d (cmdWork c))
          else if command = ''resolvefork'' then Some (cmdResolveFork ed w rest c d)
          else if command = ''print'' then Some (reports c d (print_blocks (Blocks (Current c))))
          else if command = ''validate'' then Some (reports c d (cmdValidate ed c))
          else if command = ''balances'' then Some (reports c d (cmdBalances ed c))
          else if command = ''balance'' then Some (reports c d (cmdBalance ed rest c))
          else if command = ''pending'' then Some (reports c d (cmdPending c))
          else if command = ''save'' then (case cmdSave w c d of (d', r) \<Rightarrow> Some (reports c d' r))
          else Some (reports c d (Err (UnknownCommand command))))"

section \<open>The interactive loop\<close>

text \<open>
  \<open>strings.Fields\<close>: the maximal pieces without white space. The encodings of the white space
  runes begin with bytes that never continue a rune, so they are found byte by byte.
\<close>

function fields_from :: "string \<Rightarrow> string \<Rightarrow> string list" where
  "fields_from piece [] = (if piece = [] then [] else [piece])"
| "fields_from piece (c # s) =
     (case strip_one space_runes (c # s) of
        Some rest \<Rightarrow> (if piece = [] then [] else [piece]) @ fields_from [] rest
      | None \<Rightarrow> fields_from (piece @ [c]) s)"
  by pat_completeness auto
termination
  by (relation "measure (\<lambda>(piece, s). length s)") (auto dest: strip_one_shorter)

definition Fields :: "string \<Rightarrow> string list" where
  "Fields s = fields_from [] s"

text \<open>
  \<open>bufio.Scanner\<close> over lines: a line ends at a newline or at the end of the input, loses one
  carriage return at its end, and scanning stops when no newline is found within the 65536
  bytes of the largest buffer.
\<close>

definition drop_cr :: "string \<Rightarrow> string" where
  "drop_cr s = (if s \<noteq> [] \<and> last s = CHR 0x0D then butlast s else s)"

function scan_lines :: "string \<Rightarrow> string list" where
  "scan_lines s =
     (if s = [] then []
      else
        (let line = takeWhile (\<lambda>c. c \<noteq> CHR 0x0A) s; rest = drop (Suc (length line)) s in
         if 65535 < length line then [] else drop_cr line # scan_lines rest))"
  by pat_completeness auto
termination by (relation "measure length") auto

declare scan_lines.simps [simp del]

definition autosave :: "world \<Rightarrow> cli \<Rightarrow> disk \<Rightarrow> disk \<times> message list" where
  "autosave w c d =
     (if DataFile c = [] then (d, [])
      else
        (case Save (AutoSaveFaults w) (DataFile c) (Current c) d of
           (d', Err e) \<Rightarrow> (d', [SaveWarning e])
         | (d', _) \<Rightarrow> (d', [])))"

datatype repl_end = ReplReturned | ReplPanicked panic

text \<open>
  \<open>RunREPL\<close> on the lines of its input; \<open>ws n\<close> is the outside of the n-th line. After every
  command that succeeds the chain is saved, unless the data file has no name. The value
  \<open>None\<close> is a loop that does not come back: a command never returns, or its mining has not
  returned when the schedule ends.
\<close>

fun repl_loop :: "ed25519 \<Rightarrow> (nat \<Rightarrow> world) \<Rightarrow> nat \<Rightarrow> string list \<Rightarrow> cli \<Rightarrow> disk \<Rightarrow>
    (cli \<times> disk \<times> message list \<times> repl_end) option" where
  "repl_loop ed ws n [] c d = Some (c, d, [Prompt, Goodbye], ReplReturned)"
| "repl_loop ed ws n (text # rest) c d =
     (let line = TrimSpace text in
      if line = [] then
        map_option (\<lambda>(c', d', ms, e). (c', d', Prompt # ms, e)) (repl_loop ed ws (Suc n) rest c d)
      else if line = ''exit'' \<or> line = ''quit'' then Some (c, d, [Prompt, Goodbye], ReplReturned)
      else
        (case Run ed (ws n) (Fields line) c d of
           None \<Rightarrow> None
         | Some (c1, d1, Panic p) \<Rightarrow> if p = EndlessLoop then None else Some (c1, d1, [Prompt], ReplPanicked p)
         | Some (c1, d1, Err e) \<Rightarrow>
             map_option (\<lambda>(c', d', ms, en). (c', d', Prompt # ErrorLine e # ms, en)) (repl_loop ed ws (Suc n) rest c1 d1)
         | Some (c1, d1, Ok out) \<Rightarrow>
             (case autosave (ws n) c1 d1 of
                (d2, warnings) \<Rightarrow>
                  map_option (\<lambda>(c', d', ms, en). (c', d', Prompt # out @ warnings @ ms, en))
                    (repl_loop ed ws (Suc n) rest c1 d2))))"

definition RunREPL :: "ed25519 \<Rightarrow> (nat \<Rightarrow> world) \<Rightarrow> string \<Rightarrow> cli \<Rightarrow> disk \<Rightarrow>
    (cli \<times> disk \<times> message list \<times> repl_end) option" where
  "RunREPL ed ws input c d =
     map_option (\<lambda>(c', d', ms, e). (c', d', Banner # ms, e)) (repl_loop ed ws 0 (scan_lines input) c d)"

section \<open>What a command does to the chain\<close>

text \<open>
  The chain after a command is the chain before, the result of one operation of the chain,
  or a fork's winner.
\<close>

lemma Sign_utf8: "Sign ed key t = Ok u \<Longrightarrow> valid_utf8 (Recipient t) \<Longrightarrow> utf8_tx u"
  by (auto simp: Sign_def Let_def utf8_tx_def AddressFromPublicKey_def split: if_splits)

lemma cmdSend_Ok:
  assumes "cmdSend ed w args c d = Ok (k, ms)"
  obtains amount store wallet key l l' tx where "length args = 3" "ParseInt (args ! 2) = Ok amount"
    "loadWalletStore (WalletReadFails w) (WalletFile c) d = Ok store" "map_of store (args ! 0) = Some wallet"
    "hex_decode (WalletPrivateKey wallet) = Some key" "Ledger ed (Current c) = Ok l"
    "fold_res (Apply ed) (Pending (Current c)) l = Ok l'"
    "Sign ed key \<lparr>Sender = [], Recipient = args ! 1, Amount = amount, TxNonce = NextNonce l' (Address wallet),
       PublicKey = [], Signature = []\<rparr> = Ok tx"
    "AddTransaction ed tx (Current c) = Ok k" "ms = [QueuedTransfer tx]"
proof -
  have n: "length args = 3" using assms by (auto simp: cmdSend_def split: if_splits)
  obtain amount where a: "ParseInt (args ! 2) = Ok amount"
    using assms n by (cases "ParseInt (args ! 2)") (auto simp: cmdSend_def)
  obtain store where st: "loadWalletStore (WalletReadFails w) (WalletFile c) d = Ok store"
    using assms n a by (cases "loadWalletStore (WalletReadFails w) (WalletFile c) d") (auto simp: cmdSend_def)
  obtain wallet where wl: "map_of store (args ! 0) = Some wallet"
    using assms n a st by (cases "map_of store (args ! 0)") (auto simp: cmdSend_def)
  obtain key where key: "hex_decode (WalletPrivateKey wallet) = Some key"
    using assms n a st wl by (cases "hex_decode (WalletPrivateKey wallet)") (auto simp: cmdSend_def)
  from assms n a st wl key that [OF n a st wl key] show ?thesis
    by (auto simp: cmdSend_def bind_res_eq_Ok)
qed

lemma cmdSend_chain:
  assumes "cmdSend ed w args c d = Ok (k, ms)"
  shows "\<exists>tx. AddTransaction ed tx (Current c) = Ok k \<and> ((\<forall>a\<in>set args. valid_utf8 a) \<longrightarrow> utf8_tx tx)"
proof -
  from assms obtain key amount l' and wallet :: wallet and tx where *: "length args = 3" "AddTransaction ed tx (Current c) = Ok k"
    "Sign ed key \<lparr>Sender = [], Recipient = args ! 1, Amount = amount, TxNonce = NextNonce l' (Address wallet),
       PublicKey = [], Signature = []\<rparr> = Ok tx"
    by (rule cmdSend_Ok) blast
  have "utf8_tx tx" if "\<forall>a\<in>set args. valid_utf8 a" using that * Sign_utf8 [OF *(3)] by simp
  with *(2) show ?thesis by blast
qed

lemma cmdFaucet_chain:
  assumes "cmdFaucet ed args c = Ok (k, ms)"
  shows "\<exists>tx. AddTransaction ed tx (Current c) = Ok k \<and> ((\<forall>a\<in>set args. valid_utf8 a) \<longrightarrow> utf8_tx tx)"
proof -
  have n: "length args = 2" using assms by (auto simp: cmdFaucet_def split: if_splits)
  then obtain amount where "AddTransaction ed \<lparr>Sender = FaucetAccount, Recipient = args ! 0, Amount = amount,
      TxNonce = 0, PublicKey = [], Signature = []\<rparr> (Current c) = Ok k" (is "AddTransaction ed ?t _ = _")
    using assms by (auto simp: cmdFaucet_def bind_res_eq_Ok Let_def)
  moreover have "valid_utf8 FaucetAccount" by (simp add: FaucetAccount_def ascii_def byte_def)
  then have "(\<forall>a\<in>set args. valid_utf8 a) \<longrightarrow> utf8_tx ?t" using n by (simp add: utf8_tx_def)
  ultimately show ?thesis by blast
qed

lemma cmdMine_chain:
  "cmdMine w c = Some (Ok (k, ms)) \<Longrightarrow>
     \<exists>b r. MineBlock (MiningEnv w) (MineLimits c) (Current c) = Some (Ok (k, b, r)) \<and> ms = [MinedBlock (Height b) r]"
  by (auto simp: cmdMine_def bind_res_eq_Ok)

lemma cmdSetDifficulty_chain:
  "cmdSetDifficulty args c = Ok (k, ms) \<Longrightarrow> \<exists>n. SetDifficulty n (Current c) = Ok k"
  by (auto simp: cmdSetDifficulty_def bind_res_eq_Ok split: if_splits)

lemma cmdRetargetConfig_chain:
  "cmdRetargetConfig args c = Ok (k, ms) \<Longrightarrow> \<exists>q. ConfigureRetarget q (Current c) = Ok k"
  by (auto simp: cmdRetargetConfig_def bind_res_eq_Ok split: if_splits)

lemma changes_cases:
  "changes c d r = (c', d', out) \<Longrightarrow>
     d' = d \<and> (c' = c \<and> \<not> is_Ok out \<or> (\<exists>k ms. r = Ok (k, ms) \<and> c' = c\<lparr>Current := k\<rparr> \<and> out = Ok ms))"
  by (auto simp: changes_def split: res.splits)

lemma cmdResolveFork_chain:
  assumes "cmdResolveFork ed w args c d = (c', d', out)"
  shows "(c' = c \<and> d' = d \<and> \<not> is_Ok out)
    \<or> (\<exists>path k cand r sr. Load ed (CandidateReadFails w) path d = Ok cand
         \<and> ResolveFork ed (Some (Current c)) (Some cand) = Ok (k, r) \<and> c' = c\<lparr>Current := k\<rparr>
         \<and> Save (ChainFaults w) (DataFile c) k d = (d', sr) \<and> (is_Ok out \<longleftrightarrow> sr = Ok ())
         \<and> (\<forall>x. sr = Err x \<longrightarrow> out = Err (SavingResolved x)))"
proof (cases "length args = 1")
  case True
  let ?r = "bind_res (map_err LoadingCandidate (Load ed (CandidateReadFails w) (args ! 0) d)) (\<lambda>candidate.
                map_err ForkFailed (ResolveFork ed (Some (Current c)) (Some candidate)))"
  show ?thesis
  proof (cases ?r)
    case (Ok x)
    obtain k result where x: "x = (k, result)" by (cases x)
    obtain d1 sr where sv: "Save (ChainFaults w) (DataFile c) k d = (d1, sr)" by (cases "Save (ChainFaults w) (DataFile c) k d")
    from Ok x obtain cand where "Load ed (CandidateReadFails w) (args ! 0) d = Ok cand"
      "ResolveFork ed (Some (Current c)) (Some cand) = Ok (k, result)" by (auto simp: bind_res_eq_Ok)
    moreover have "c' = c\<lparr>Current := k\<rparr>" "d' = d1" "is_Ok out \<longleftrightarrow> sr = Ok ()"
      "\<forall>x. sr = Err x \<longrightarrow> out = Err (SavingResolved x)"
      using assms True Ok x sv by (auto simp: cmdResolveFork_def is_Ok_iff bind_res_eq_Ok)
    ultimately show ?thesis using sv by blast
  qed (use assms True in \<open>auto simp: cmdResolveFork_def\<close>)
qed (use assms in \<open>auto simp: cmdResolveFork_def\<close>)

text \<open>The operations of the chain that commands use, with UTF-8 transactions if the arguments are.\<close>

inductive command_step :: "ed25519 \<Rightarrow> world \<Rightarrow> cli \<Rightarrow> bool \<Rightarrow> chain \<Rightarrow> bool" for ed w c u where
  queued: "AddTransaction ed tx (Current c) = Ok k \<Longrightarrow> (u \<Longrightarrow> utf8_tx tx) \<Longrightarrow> command_step ed w c u k"
| mined: "MineBlock (MiningEnv w) (MineLimits c) (Current c) = Some (Ok (k, b, r)) \<Longrightarrow> command_step ed w c u k"
| difficulty: "SetDifficulty n (Current c) = Ok k \<Longrightarrow> command_step ed w c u k"
| retarget: "ConfigureRetarget q (Current c) = Ok k \<Longrightarrow> command_step ed w c u k"

definition saves_only :: "world \<Rightarrow> cli \<Rightarrow> chain \<Rightarrow> disk \<Rightarrow> disk \<Rightarrow> bool" where
  "saves_only w c k d d' \<longleftrightarrow>
     d' = d \<or> (\<exists>s r. save_store (WalletFaults w) (WalletFile c) s d = (d', r))
     \<or> (\<exists>r. Save (ChainFaults w) (DataFile c) k d = (d', r))"

lemma cmdWalletCreate_disk:
  "cmdWalletCreate w args c d = (d', r) \<Longrightarrow> saves_only w c k d d'"
  by (auto simp: cmdWalletCreate_def saves_only_def Let_def split: if_splits res.splits option.splits prod.splits)

lemma cmdSave_disk: "cmdSave w c d = (d', r) \<Longrightarrow> saves_only w c (Current c) d d'"
  by (auto simp: cmdSave_def saves_only_def split: prod.splits)

lemma Run_reports:
  assumes "command \<notin> {''wallet-create'', ''send'', ''addtx'', ''faucet'', ''mine'', ''setdifficulty'', ''retarget-config'',
    ''resolvefork'', ''save''}"
  shows "\<exists>r. Run ed w (command # rest) c d = Some (reports c d r)"
proof -
  let ?R = "\<lambda>x. \<exists>r. x = Some (reports c d r)"
  have branch: "?R (if b then Some (reports c d r) else x)" if "?R x" for b r x using that by (cases b) auto
  have n: "(command = ''wallet-create'') = False" "(command = ''send'') = False" "(command = ''addtx'') = False"
    "(command = ''faucet'') = False" "(command = ''mine'') = False" "(command = ''setdifficulty'') = False"
    "(command = ''retarget-config'') = False" "(command = ''resolvefork'') = False" "(command = ''save'') = False"
    using assms by simp_all
  show ?thesis unfolding Run_def list.case n if_False disj_not1 HOL.simp_thms by ((rule branch)+, blast)
qed

lemma Run_commands:
  "Run ed w (''wallet-create'' # rest) c d = (case cmdWalletCreate w rest c d of (d', r) \<Rightarrow> Some (reports c d' r))"
  "Run ed w (''send'' # rest) c d = Some (changes c d (cmdSend ed w rest c d))"
  "Run ed w (''addtx'' # rest) c d = Some (changes c d (cmdSend ed w rest c d))"
  "Run ed w (''faucet'' # rest) c d = Some (changes c d (cmdFaucet ed rest c))"
  "Run ed w (''mine'' # rest) c d = map_option (changes c d) (cmdMine w c)"
  "Run ed w (''setdifficulty'' # rest) c d = Some (changes c d (cmdSetDifficulty rest c))"
  "Run ed w (''retarget-config'' # rest) c d = Some (changes c d (cmdRetargetConfig rest c))"
  "Run ed w (''resolvefork'' # rest) c d = Some (cmdResolveFork ed w rest c d)"
  "Run ed w (''save'' # rest) c d = (case cmdSave w c d of (d', r) \<Rightarrow> Some (reports c d' r))"
  by (simp_all add: Run_def)

lemma command_steps:
  "cmdSend ed w rest c d = Ok (k, ms) \<Longrightarrow> (u \<Longrightarrow> \<forall>a\<in>set rest. valid_utf8 a) \<Longrightarrow> command_step ed w c u k"
  "cmdFaucet ed rest c = Ok (k, ms) \<Longrightarrow> (u \<Longrightarrow> \<forall>a\<in>set rest. valid_utf8 a) \<Longrightarrow> command_step ed w c u k"
  "cmdMine w c = Some (Ok (k, ms)) \<Longrightarrow> command_step ed w c u k"
  "cmdSetDifficulty rest c = Ok (k, ms) \<Longrightarrow> command_step ed w c u k"
  "cmdRetargetConfig rest c = Ok (k, ms) \<Longrightarrow> command_step ed w c u k"
  by (auto dest!: cmdSend_chain cmdFaucet_chain cmdMine_chain cmdSetDifficulty_chain cmdRetargetConfig_chain
      intro: command_step.intros)

text \<open>Every command, in one of three ways.\<close>

lemma Run_effect:
  assumes "Run ed w args c d = Some (c', d', out)"
  shows "(c' = c \<and> saves_only w c (Current c) d d')
    \<or> (\<exists>k. c' = c\<lparr>Current := k\<rparr> \<and> d' = d \<and> is_Ok out \<and> command_step ed w c (\<forall>a\<in>set args. valid_utf8 a) k)
    \<or> (\<exists>path k cand r sr. Load ed (CandidateReadFails w) path d = Ok cand
         \<and> ResolveFork ed (Some (Current c)) (Some cand) = Ok (k, r) \<and> c' = c\<lparr>Current := k\<rparr>
         \<and> Save (ChainFaults w) (DataFile c) k d = (d', sr) \<and> (is_Ok out \<longleftrightarrow> sr = Ok ())
         \<and> (\<forall>x. sr = Err x \<longrightarrow> out = Err (SavingResolved x)))"
    (is "?quiet \<or> ?changed \<or> ?fork")
proof (cases args)
  case Nil
  with assms show ?thesis by (simp add: Run_def reports_def saves_only_def)
next
  case (Cons command rest)
  let ?u = "\<forall>a\<in>set args. valid_utf8 a"
  have u: "?u \<Longrightarrow> \<forall>a\<in>set rest. valid_utf8 a" using Cons by simp
  have run: "Run ed w (command # rest) c d = Some (c', d', out)" using assms Cons by simp
  have changed: "?quiet \<or> ?changed"
    if "changes c d r = (c', d', out)" "\<And>k ms. r = Ok (k, ms) \<Longrightarrow> command_step ed w c ?u k" for r
    using changes_cases [OF that(1)] that(2) by (auto simp: saves_only_def)
  show ?thesis
  proof (cases "command \<in> {''wallet-create'', ''send'', ''addtx'', ''faucet'', ''mine'', ''setdifficulty'',
      ''retarget-config'', ''resolvefork'', ''save''}")
    case False
    with run Run_reports [of command ed w rest c d] have "c' = c \<and> d' = d" by (auto simp: reports_def)
    then show ?thesis by (simp add: saves_only_def)
  next
    case True
    then show ?thesis
    proof (elim insertE emptyE)
      assume "command = ''wallet-create''"
      with run have "cmdWalletCreate w rest c d = (d', out) \<and> c' = c"
        by (auto simp: Run_commands reports_def split: prod.splits)
      with cmdWalletCreate_disk show ?thesis by blast
    next
      assume "command = ''send''"
      with run have "changes c d (cmdSend ed w rest c d) = (c', d', out)" by (simp add: Run_commands)
      moreover have "command_step ed w c ?u k" if "cmdSend ed w rest c d = Ok (k, ms)" for k ms using command_steps(1) [OF that u] .
      ultimately show ?thesis using changed by blast
    next
      assume "command = ''addtx''"
      with run have "changes c d (cmdSend ed w rest c d) = (c', d', out)" by (simp add: Run_commands)
      moreover have "command_step ed w c ?u k" if "cmdSend ed w rest c d = Ok (k, ms)" for k ms using command_steps(1) [OF that u] .
      ultimately show ?thesis using changed by blast
    next
      assume "command = ''faucet''"
      with run have "changes c d (cmdFaucet ed rest c) = (c', d', out)" by (simp add: Run_commands)
      moreover have "command_step ed w c ?u k" if "cmdFaucet ed rest c = Ok (k, ms)" for k ms using command_steps(2) [OF that u] .
      ultimately show ?thesis using changed by blast
    next
      assume "command = ''mine''"
      with run obtain r where r: "cmdMine w c = Some r" "changes c d r = (c', d', out)" by (auto simp: Run_commands)
      moreover have "command_step ed w c ?u k" if "r = Ok (k, ms)" for k ms using command_steps(3) r(1) that by blast
      ultimately show ?thesis using changed by blast
    next
      assume "command = ''setdifficulty''"
      with run have "changes c d (cmdSetDifficulty rest c) = (c', d', out)" by (simp add: Run_commands)
      moreover have "command_step ed w c ?u k" if "cmdSetDifficulty rest c = Ok (k, ms)" for k ms using command_steps(4) [OF that] .
      ultimately show ?thesis using changed by blast
    next
      assume "command = ''retarget-config''"
      with run have "changes c d (cmdRetargetConfig rest c) = (c', d', out)" by (simp add: Run_commands)
      moreover have "command_step ed w c ?u k" if "cmdRetargetConfig rest c = Ok (k, ms)" for k ms using command_steps(5) [OF that] .
      ultimately show ?thesis using changed by blast
    next
      assume "command = ''resolvefork''"
      with run have "cmdResolveFork ed w rest c d = (c', d', out)" by (simp add: Run_commands)
      from cmdResolveFork_chain [OF this] show ?thesis unfolding saves_only_def by blast
    next
      assume "command = ''save''"
      with run have "cmdSave w c d = (d', out) \<and> c' = c" by (auto simp: Run_commands reports_def split: prod.splits)
      with cmdSave_disk show ?thesis by blast
    qed
  qed
qed


section \<open>Commands keep the invariant\<close>

text \<open>What a command finds: a clock that is not behind, and lists within the range of \<open>int\<close>.\<close>

definition room :: "ed25519 \<Rightarrow> world \<Rightarrow> cli \<Rightarrow> disk \<Rightarrow> bool" where
  "room ed w c d \<longleftrightarrow>
     clock_ok (MiningEnv w) (Current c) \<and> length (Blocks (Current c)) < 2 ^ 63 - 1
     \<and> length (Pending (Current c)) < 2 ^ 63
     \<and> (\<forall>fails path k. Load ed fails path d = Ok k \<longrightarrow> length (Blocks k) < 2 ^ 63)"

lemma command_step_chain_step:
  assumes "command_step ed w c u k" "room ed w c d"
  shows "chain_step ed (Current c) k"
  using assms by cases (auto simp: room_def intro: chain_step.intros)

lemma utf8_chain_txs: "utf8_chain c \<Longrightarrow> Blocks c = map Some bs \<Longrightarrow> b \<in> set bs \<Longrightarrow> list_all utf8_tx (Transactions b)"
  by (simp add: utf8_chain_def utf8_block_def)

lemma utf8_chain_same: "utf8_chain c \<Longrightarrow> Blocks k = Blocks c \<Longrightarrow> Pending k = Pending c \<Longrightarrow> utf8_chain k"
  by (simp add: utf8_chain_def)

lemma SetDifficulty_frame: "SetDifficulty n c = Ok k \<Longrightarrow> Blocks k = Blocks c \<and> Pending k = Pending c"
  by (auto simp: SetDifficulty_def bind_res_eq_Ok Let_def split: if_splits option.splits)

lemma ConfigureRetarget_frame: "ConfigureRetarget q c = Ok k \<Longrightarrow> Blocks k = Blocks c \<and> Pending k = Pending c"
  by (auto simp: ConfigureRetarget_def bind_res_eq_Ok split: if_splits)

lemma command_step_utf8:
  assumes "command_step ed w c True k" "room ed w c d" "good_chain ed (Current c)" "utf8_chain (Current c)"
  shows "utf8_chain k"
  using assms(1)
proof cases
  case (queued tx)
  then have "k = (Current c)\<lparr>Pending := Pending (Current c) @ [tx]\<rparr>" "utf8_tx tx" by (simp_all add: AddTransaction_frame)
  with assms(4) show ?thesis by (simp add: utf8_chain_def)
next
  case (mined b r)
  have small: "length (Blocks (Current c)) < 2 ^ 63 - 1" "length (Pending (Current c)) < 2 ^ 63"
    "clock_ok (MiningEnv w) (Current c)" using assms(2) by (simp_all add: room_def)
  obtain bs where v: "valid_chain ed (Current c) bs" using assms(3) by (auto simp: good_chain_def)
  note S = MineBlock_shape [OF mined v small(1,2)]
  have txs: "Transactions b = take (batch_size (Current c)) (Pending (Current c))"
    using mn.sealed_fields [OF S(1), unfolded next_block_def NewBlock_fields] by simp
  obtain cs where w: "valid_chain ed k cs"
    using MineBlock_good [OF mined assms(3) small(3,1,2)] by (auto simp: good_chain_def)
  have bs: "Blocks (Current c) = map Some bs" using v by (simp add: valid_chain_def)
  then have "map Some cs = map Some (bs @ [b])" using w S(2) by (simp add: valid_chain_def)
  then have "cs = bs @ [b]" by (simp only: inj_map_eq_map [OF inj_Some])
  moreover have "list_all utf8_tx (Pending (Current c))" using assms(4) by (simp add: utf8_chain_def)
  ultimately show ?thesis
    using txs utf8_chain_txs [OF assms(4) bs] S(2)
    by (intro valid_chain_utf8 [OF w]) (auto simp: list_all_iff dest: in_set_takeD in_set_dropD)
next
  case (difficulty n)
  then show ?thesis using SetDifficulty_frame utf8_chain_same [OF assms(4)] by blast
next
  case (retarget q)
  then show ?thesis using ConfigureRetarget_frame utf8_chain_same [OF assms(4)] by blast
qed

lemma subseq_set: "subseq xs ys \<Longrightarrow> set xs \<subseteq> set ys"
  by (induction rule: list_emb.induct) auto

text \<open>A command is a step of the chain, the adoption of a loaded chain, or leaves the chain alone.\<close>

lemma Run_good:
  assumes "Run ed w args c d = Some (c', d', out)" "good_chain ed (Current c)" "room ed w c d"
  shows "good_chain ed (Current c')
    \<and> (Current c' = Current c \<or> chain_step ed (Current c) (Current c')
       \<or> (\<exists>k r. utf8_chain k \<and> ResolveFork ed (Some (Current c)) (Some k) = Ok (Current c', r)))
    \<and> ((\<forall>a\<in>set args. valid_utf8 a) \<longrightarrow> utf8_chain (Current c) \<longrightarrow> utf8_chain (Current c'))"
  using Run_effect [OF assms(1)]
proof (elim disjE exE conjE)
  assume "c' = c"
  with assms(2) show ?thesis by simp
next
  fix k assume k: "c' = c\<lparr>Current := k\<rparr>" "command_step ed w c (\<forall>a\<in>set args. valid_utf8 a) k"
  have step: "chain_step ed (Current c) k" by (rule command_step_chain_step [OF k(2) assms(3)])
  have "good_chain ed k" using chainlog.keeps [OF step assms(2)] .
  moreover have "utf8_chain k" if "\<forall>a\<in>set args. valid_utf8 a" "utf8_chain (Current c)"
  proof -
    have "command_step ed w c True k" using k(2) that(1) by simp
    then show ?thesis using command_step_utf8 assms(2,3) that(2) by blast
  qed
  ultimately show ?thesis using k(1) step by simp
next
  fix path k cand r sr
  assume L: "Load ed (CandidateReadFails w) path d = Ok cand"
    and R: "ResolveFork ed (Some (Current c)) (Some cand) = Ok (k, r)" and c': "c' = c\<lparr>Current := k\<rparr>"
  have cand: "utf8_chain cand" "Validate ed cand = Ok ()" using Load_utf8 [OF L] by simp_all
  have small: "length (Blocks cand) < 2 ^ 63" using L assms(3) unfolding room_def by blast
  have len: "length (Blocks (Current c)) < 2 ^ 63" using assms(2) by (simp add: good_chain_def)
  note RF = ResolveFork_Ok [OF R len small]
  from RF have net: "same_network (Current c) cand" "TotalWork (Current c) < TotalWork cand" by simp_all
  from RF have pool: "\<exists>ys. k = (san_chain cand)\<lparr>Pending := ys\<rparr> \<and> subseq ys (map san_tx (Pending cand) @ Pending (Current c))"
    by (elim conjE exE) blast
  obtain k' r' xs where K: "ResolveFork ed (Some (Current c)) (Some cand) = Ok (k', r')" "good_chain ed k'"
    "k' = cand\<lparr>Pending := xs\<rparr>"
    using ResolveFork_succeeds [OF assms(2) cand(2) net cand(1) small] by blast
  have kk: "k = k'" using R K(1) by simp
  have utf8: "utf8_chain k" if "utf8_chain (Current c)"
  proof -
    obtain ys where ys: "k = (san_chain cand)\<lparr>Pending := ys\<rparr>" "subseq ys (map san_tx (Pending cand) @ Pending (Current c))"
      using pool by blast
    have "utf8_tx t" if "t \<in> set ys" for t
    proof -
      have "t \<in> set (map san_tx (Pending cand) @ Pending (Current c))" using subseq_set [OF ys(2)] that by blast
      then show ?thesis using cand(1) \<open>utf8_chain (Current c)\<close> by (auto simp: utf8_chain_def list_all_iff)
    qed
    then have "list_all utf8_tx ys" by (simp add: list_all_iff)
    moreover have "k = cand\<lparr>Pending := ys\<rparr>" using ys(1) san_chain_utf8 [OF cand(1)] by simp
    ultimately show ?thesis using cand(1) by (simp add: utf8_chain_def)
  qed
  have C: "Current c' = k" and good: "good_chain ed k" using c' K(2) kk by simp_all
  show ?thesis
  proof (intro conjI impI)
    show "good_chain ed (Current c')" using good C by simp
    show "Current c' = Current c \<or> chain_step ed (Current c) (Current c')
        \<or> (\<exists>k r. utf8_chain k \<and> ResolveFork ed (Some (Current c)) (Some k) = Ok (Current c', r))"
      unfolding C using cand(1) R by blast
    show "utf8_chain (Current c')" if "utf8_chain (Current c)" using utf8 [OF that] C by simp
  qed
qed

section \<open>Sessions of the loop\<close>

text \<open>Along the run of the loop every command finds room and has UTF-8 arguments.\<close>

fun repl_room :: "ed25519 \<Rightarrow> (nat \<Rightarrow> world) \<Rightarrow> nat \<Rightarrow> string list \<Rightarrow> cli \<Rightarrow> disk \<Rightarrow> bool" where
  "repl_room ed ws n [] c d = True"
| "repl_room ed ws n (text # rest) c d =
     (let line = TrimSpace text in
      if line = [] then repl_room ed ws (Suc n) rest c d
      else if line = ''exit'' \<or> line = ''quit'' then True
      else
        room ed (ws n) c d \<and> (\<forall>a\<in>set (Fields line). valid_utf8 a)
        \<and> (case Run ed (ws n) (Fields line) c d of
             None \<Rightarrow> True
           | Some (c1, d1, Panic p) \<Rightarrow> True
           | Some (c1, d1, Err e) \<Rightarrow> repl_room ed ws (Suc n) rest c1 d1
           | Some (c1, d1, Ok out) \<Rightarrow> repl_room ed ws (Suc n) rest c1 (fst (autosave (ws n) c1 d1))))"

text \<open>The four files of a session are different files.\<close>

definition paths_ok :: "cli \<Rightarrow> bool" where
  "paths_ok c \<longleftrightarrow> DataFile c \<noteq> [] \<and> WalletFile c \<noteq> DataFile c \<and> temporary (WalletFile c) \<noteq> DataFile c"

definition synced :: "cli \<Rightarrow> disk \<Rightarrow> bool" where
  "synced c d \<longleftrightarrow> d (DataFile c) = Some (chain_bytes (Current c))"

definition saving_works :: "world \<Rightarrow> bool" where
  "saving_works w \<longleftrightarrow> ChainFaults w = no_faults \<and> AutoSaveFaults w = no_faults"

lemma Save_works: "Save no_faults path k d = ((d(path \<mapsto> chain_bytes k))(temporary path := None), Ok ())"
proof -
  obtain d' where "Save no_faults path k d = (d', Ok ())"
    using Save_no_faults [of path k d] by (cases "Save no_faults path k d") simp
  then show ?thesis using Save_Ok by metis
qed

lemma autosave_synced:
  "saving_works w \<Longrightarrow> paths_ok c \<Longrightarrow> synced c (fst (autosave w c d)) \<and> snd (autosave w c d) = []"
  by (simp add: autosave_def saving_works_def paths_ok_def Save_works synced_def)

lemma saves_only_synced:
  assumes "saves_only w c (Current c) d d'" "saving_works w" "paths_ok c" "synced c d"
  shows "synced c d'"
proof -
  have "d' (DataFile c) = d (DataFile c)" if "save_store (WalletFaults w) (WalletFile c) s d = (d', r)" for s r
    using save_store_spares [OF that, of "DataFile c"] assms(3) by (auto simp: paths_ok_def)
  then show ?thesis using assms by (auto simp: saves_only_def saving_works_def Save_works synced_def)
qed

lemma Run_frame:
  "Run ed w args c d = Some (c', d', out) \<Longrightarrow> DataFile c' = DataFile c \<and> WalletFile c' = WalletFile c"
  by (drule Run_effect) auto

lemma Run_synced:
  assumes "Run ed w args c d = Some (c', d', out)" "saving_works w" "paths_ok c" "synced c d"
  shows "is_Ok out \<or> synced c' d'"
  using Run_effect [OF assms(1)]
proof (elim disjE exE conjE)
  assume "c' = c" "saves_only w c (Current c) d d'"
  then show ?thesis using saves_only_synced assms(2-4) by blast
next
  fix path k cand r sr
  assume "Save (ChainFaults w) (DataFile c) k d = (d', sr)" "is_Ok out \<longleftrightarrow> sr = Ok ()"
  then show ?thesis using assms(2) by (simp add: saving_works_def Save_works)
qed simp

text \<open>When saving may fail: the messages that tell that the file may not hold the chain.\<close>

definition unsaved :: "message list \<Rightarrow> bool" where
  "unsaved ms \<longleftrightarrow> (\<exists>x. SaveWarning x \<in> set ms) \<or> (\<exists>x. ErrorLine (SavingResolved x) \<in> set ms)"

lemma unsaved_simps [simp]:
  "unsaved (ms @ ns) \<longleftrightarrow> unsaved ms \<or> unsaved ns" "\<not> unsaved []"
  "unsaved (m # ms) \<longleftrightarrow> (\<exists>x. m = SaveWarning x) \<or> (\<exists>x. m = ErrorLine (SavingResolved x)) \<or> unsaved ms"
  by (auto simp: unsaved_def)

lemma autosave_synced_or_told:
  assumes "DataFile c \<noteq> []"
  shows "synced c (fst (autosave w c d)) \<or> unsaved (snd (autosave w c d))"
proof -
  obtain d' r where sv: "Save (AutoSaveFaults w) (DataFile c) (Current c) d = (d', r)"
    by (cases "Save (AutoSaveFaults w) (DataFile c) (Current c) d")
  show ?thesis
  proof (cases "r = Ok ()")
    case True
    with sv Save_cases [OF sv] assms show ?thesis by (simp add: autosave_def synced_def)
  next
    case False
    then obtain e where "r = Err e" using Save_result [OF sv] by blast
    with sv assms show ?thesis by (simp add: autosave_def unsaved_def)
  qed
qed

lemma Run_synced_or_told:
  assumes "Run ed w args c d = Some (c', d', out)" "paths_ok c" "synced c d"
  shows "is_Ok out \<or> synced c' d' \<or> (\<exists>x. out = Err (SavingResolved x))"
  using Run_effect [OF assms(1)]
proof (elim disjE exE conjE)
  assume c': "c' = c" and s: "saves_only w c (Current c) d d'"
  have "d' (DataFile c) = d (DataFile c)" if "save_store (WalletFaults w) (WalletFile c) st d = (d', r)" for st r
    using save_store_spares [OF that, of "DataFile c"] assms(2) by (auto simp: paths_ok_def)
  then have "synced c d'" using s assms(3) Save_cases unfolding saves_only_def synced_def by metis
  then show ?thesis using c' by simp
next
  fix path k cand r sr
  assume "Save (ChainFaults w) (DataFile c) k d = (d', sr)" "is_Ok out \<longleftrightarrow> sr = Ok ()"
    "\<forall>x. sr = Err x \<longrightarrow> out = Err (SavingResolved x)"
  then show ?thesis using Save_result by blast
qed simp

lemma paths_ok_cong: "DataFile c' = DataFile c \<Longrightarrow> WalletFile c' = WalletFile c \<Longrightarrow> paths_ok c' = paths_ok c"
  by (simp add: paths_ok_def)

lemma repl_loop_good:
  assumes "repl_loop ed ws n lines c d = Some (c', d', ms, e)" "repl_room ed ws n lines c d"
    and "paths_ok c" "good_chain ed (Current c)" "utf8_chain (Current c)"
  shows "good_chain ed (Current c') \<and> utf8_chain (Current c') \<and> DataFile c' = DataFile c
    \<and> (synced c d \<longrightarrow> e = ReplReturned \<longrightarrow> synced c' d' \<or> (unsaved ms \<and> \<not> (\<forall>n. saving_works (ws n))))"
  using assms
proof (induction ed ws n lines c d arbitrary: c' d' ms e rule: repl_loop.induct)
  case (1 ed ws n c d)
  then show ?case by simp
next
  case (2 ed ws n input rest c d)
  let ?line = "TrimSpace input" and ?all = "\<forall>n. saving_works (ws n)"
  consider (blank) "?line = []" | (leave) "?line = ''exit'' \<or> ?line = ''quit''"
    | (run) "?line \<noteq> []" "\<not> (?line = ''exit'' \<or> ?line = ''quit'')" by blast
  then show ?case
  proof cases
    case blank
    with "2.prems"(1) obtain ms' where m: "repl_loop ed ws (Suc n) rest c d = Some (c', d', ms', e)" "ms = Prompt # ms'"
      by auto
    have "repl_room ed ws (Suc n) rest c d" using "2.prems"(2) blank by simp
    from "2.IH"(1) [OF refl blank m(1) this "2.prems"(3-5)] m(2) show ?thesis by auto
  next
    case leave
    with 2 show ?thesis by auto
  next
    case run
    from run "2.prems"(1) obtain c1 d1 out where R: "Run ed (ws n) (Fields ?line) c d = Some (c1, d1, out)"
      by (cases "Run ed (ws n) (Fields ?line) c d") (auto simp: Let_def)
    from run "2.prems"(2) have room: "room ed (ws n) c d" "\<forall>a\<in>set (Fields ?line). valid_utf8 a" by (simp_all add: Let_def)
    note G = Run_good [OF R "2.prems"(4) room(1)] and F = Run_frame [OF R]
    have p1: "paths_ok c1" using paths_ok_cong F "2.prems"(3) by blast
    have g1: "good_chain ed (Current c1)" "utf8_chain (Current c1)" using G room(2) "2.prems"(5) by auto
    show ?thesis
    proof (cases out)
      case (Panic q)
      with run R "2.prems"(1) F g1 show ?thesis by (auto simp: Let_def split: if_splits)
    next
      case (Err x)
      with run R "2.prems"(1) obtain ms' where
        loop: "repl_loop ed ws (Suc n) rest c1 d1 = Some (c', d', ms', e)" "ms = Prompt # ErrorLine x # ms'" by (auto simp: Let_def)
      from run R "2.prems"(2) Err have "repl_room ed ws (Suc n) rest c1 d1" by (simp add: Let_def)
      note IH = "2.IH"(3) [OF refl run(1) run(2) R refl refl Err loop(1) this p1 g1]
      have "synced c1 d1 \<or> (unsaved ms \<and> \<not> ?all)" if "synced c d"
        using Run_synced_or_told [OF R "2.prems"(3) that] Run_synced [OF R _ "2.prems"(3) that] Err loop(2)
        by (auto simp: unsaved_def)
      with IH F loop(2) show ?thesis by auto
    next
      case (Ok x)
      let ?d2 = "fst (autosave (ws n) c1 d1)"
      have a: "autosave (ws n) c1 d1 = (?d2, snd (autosave (ws n) c1 d1))" by simp
      with run R "2.prems"(1) Ok obtain ms' where
        loop: "repl_loop ed ws (Suc n) rest c1 ?d2 = Some (c', d', ms', e)"
          "ms = Prompt # x @ snd (autosave (ws n) c1 d1) @ ms'" by (auto simp: Let_def split: prod.splits)
      from run R "2.prems"(2) Ok have "repl_room ed ws (Suc n) rest c1 ?d2" by (simp add: Let_def)
      note IH = "2.IH"(2) [OF refl run(1) run(2) R refl refl Ok a [symmetric] loop(1) this p1 g1]
      have "DataFile c1 \<noteq> []" using p1 by (simp add: paths_ok_def)
      from autosave_synced_or_told [OF this, of "ws n" d1] autosave_synced [of "ws n" c1 d1] p1 loop(2)
      have "synced c1 ?d2 \<or> (unsaved ms \<and> \<not> ?all)" by auto
      with IH F loop(2) show ?thesis by auto
    qed
  qed
qed

section \<open>A created wallet\<close>

lemma cmdWalletCreate_Ok:
  assumes "cmdWalletCreate w [name] c d = (d1, Ok ms)" "GeneratedKey w = Some (pk, sk)" "valid_utf8 (TrimSpace name)"
  shows "\<exists>store. loadWalletStore False (WalletFile c) d1 = Ok store
    \<and> map_of store (TrimSpace name) = Some \<lparr>Address = AddressFromPublicKey pk,
        WalletPublicKey = hex_encode pk, WalletPrivateKey = hex_encode sk\<rparr>"
    (is "\<exists>store. _ \<and> map_of store ?n = Some ?v")
proof -
  have n: "?n \<noteq> []" using assms(1) by (auto simp: cmdWalletCreate_def split: if_splits)
  obtain old where old: "loadWalletStore (WalletReadFails w) (WalletFile c) d = Ok old"
    using assms(1) n by (cases "loadWalletStore (WalletReadFails w) (WalletFile c) d") (auto simp: cmdWalletCreate_def Let_def)
  obtain d' r where sv: "save_store (WalletFaults w) (WalletFile c) (AList.update ?n ?v old) d = (d', r)"
    by (cases "save_store (WalletFaults w) (WalletFile c) (AList.update ?n ?v old) d")
  have "d1 = d' \<and> r = Ok ()"
    using assms(1,2) n old sv by (auto simp: cmdWalletCreate_def Let_def bind_res_eq_Ok split: if_splits)
  with sv have sv: "save_store (WalletFaults w) (WalletFile c) (AList.update ?n ?v old) d = (d1, Ok ())" by simp
  have "utf8_wallet ?v" by (simp add: utf8_wallet_def AddressFromPublicKey_def)
  then have ok: "store_ok (AList.update ?n ?v old)" using store_ok_update loadWalletStore_ok [OF old] assms(3) by blast
  have "loadWalletStore False (WalletFile c) d1 = Ok (sort_key fst (AList.update ?n ?v old))"
    using save_store_Ok [OF sv] ok by (intro load_saved_store) simp_all
  moreover have "map_of (sort_key fst (AList.update ?n ?v old)) ?n = Some ?v"
    using ok by (simp add: map_of_sort_key store_ok_def update_conv')
  ultimately show ?thesis by blast
qed

lemma cmdSend_works:
  assumes "ed25519_laws ed" "generated_key ed sk" "loadWalletStore (WalletReadFails w) (WalletFile c) d = Ok store"
    and "map_of store name = Some \<lparr>Address = AddressFromPublicKey (ed_public ed sk), WalletPublicKey = pk,
           WalletPrivateKey = hex_encode sk\<rparr>"
    and "Ledger ed (Current c) = Ok l" "fold_res (Apply ed) (Pending (Current c)) l = Ok l'"
    and "ParseInt amount = Ok a" "0 < sint a" "sint a \<le> sint (Balance l' (AddressFromPublicKey (ed_public ed sk)))"
    and "NextNonce l' (AddressFromPublicKey (ed_public ed sk)) \<noteq> 0"
    and "TrimSpace recipient \<noteq> []" "recipient \<noteq> AddressFromPublicKey (ed_public ed sk)"
  shows "\<exists>tx. cmdSend ed w [name, recipient, amount] c d
      = Ok ((Current c)\<lparr>Pending := Pending (Current c) @ [tx]\<rparr>, [QueuedTransfer tx])
    \<and> Sender tx = AddressFromPublicKey (ed_public ed sk) \<and> Recipient tx = recipient \<and> Amount tx = a
    \<and> TxNonce tx = NextNonce l' (AddressFromPublicKey (ed_public ed sk))"
proof -
  let ?addr = "AddressFromPublicKey (ed_public ed sk)"
  let ?t = "\<lparr>Sender = [], Recipient = recipient, Amount = a, TxNonce = NextNonce l' ?addr, PublicKey = [], Signature = []\<rparr>"
  obtain tx where tx: "Sign ed sk ?t = Ok tx" "Transaction_Validate ed tx = Ok ()" "Sender tx = ?addr"
    "Recipient tx = recipient" "Amount tx = a" "TxNonce tx = NextNonce l' ?addr"
    using sign_validates [OF assms(1,2), of ?t] assms(8,10,11,12) by auto
  then have "ValidateTransaction ed l' tx = Ok ()" using assms(9) by (simp add: ValidateTransaction_Ok)
  then have "AddTransaction ed tx (Current c) = Ok ((Current c)\<lparr>Pending := Pending (Current c) @ [tx]\<rparr>)"
    using assms(5,6) by (simp add: AddTransaction_def)
  then show ?thesis using tx assms(3-7) by (simp add: cmdSend_def)
qed

section \<open>Properties\<close>

text \<open>
  C8. Commands refine the chain's transitions: whatever its arguments, a command leaves the chain
  alone, or does one step of the chain, or adopts a loaded, stronger chain; it keeps the
  invariant of the chain and never changes the file names; and a command that fails has
  not changed the chain, except a fork resolution whose final save failed, after which
  memory and file differ.
\<close>

theorem commands_refine_chain:
  assumes "Run ed w args c d = Some (c', d', out)" "good_chain ed (Current c)" "room ed w c d"
  shows "good_chain ed (Current c') \<and> DataFile c' = DataFile c \<and> WalletFile c' = WalletFile c
    \<and> (Current c' = Current c \<or> chain_step ed (Current c) (Current c')
       \<or> (\<exists>k r. utf8_chain k \<and> ResolveFork ed (Some (Current c)) (Some k) = Ok (Current c', r)))
    \<and> (\<not> is_Ok out \<longrightarrow> Current c' = Current c
         \<or> (\<exists>e. e \<noteq> Ok () \<and> Save (ChainFaults w) (DataFile c) (Current c') d = (d', e)))"
proof -
  have "Current c' = Current c \<or> (\<exists>e. e \<noteq> Ok () \<and> Save (ChainFaults w) (DataFile c) (Current c') d = (d', e))"
    if "\<not> is_Ok out"
    using Run_effect [OF assms(1)] that by (elim disjE exE conjE) auto
  then show ?thesis using Run_good [OF assms] Run_frame [OF assms(1)] by blast
qed

definition demo_world :: world where
  "demo_world =
     \<lparr>MiningEnv = quick_env, GeneratedKey = Some (replicate 32 (CHR ''k''), replicate 64 (CHR ''k'')),
      WalletReadFails = False, CandidateReadFails = False, WalletFaults = no_faults,
      ChainFaults = no_faults, AutoSaveFaults = no_faults\<rparr>"

definition demo_cli :: cli where
  "demo_cli = \<lparr>Current = demo_chain, DataFile = ''chain.json'', WalletFile = ''wallets.json'', MineLimits = quick_limits\<rparr>"

lemma demo_room: "room ed demo_world demo_cli Map.empty"
  by (simp add: room_def demo_world_def demo_cli_def clock_ok_def quick_env_def demo_chain_def Load_def)

lemma parse_5: "ParseInt ''5'' = Ok 5"
  by (simp add: ParseInt_def parse_digits_def is_digit_def digits_value_def byte_def)

lemma demo_faucet:
  "Run ed demo_world [''faucet'', ''alice'', ''5''] demo_cli d
     = Some (demo_cli\<lparr>Current := demo_pooled\<rparr>, d, Ok [QueuedGrant (grant ''alice'' 5)])"
proof -
  have "\<lparr>Sender = FaucetAccount, Recipient = ''alice'', Amount = 5, TxNonce = 0, PublicKey = [], Signature = []\<rparr>
      = grant ''alice'' 5" by (simp add: grant_def)
  then show ?thesis
    using demo_add [of ed] by (simp add: Run_def cmdFaucet_def parse_5 changes_def demo_cli_def)
qed

theorem commands_refine_chain_witness:
  "good_chain plain_ed25519 (Current (fst (the (Run plain_ed25519 demo_world [''faucet'', ''alice'', ''5''] demo_cli Map.empty))))"
proof -
  have "good_chain plain_ed25519 (Current demo_cli)" by (simp add: demo_cli_def demo_chain_good)
  from commands_refine_chain [OF demo_faucet this demo_room] show ?thesis by (simp add: demo_faucet)
qed

text \<open>
  C9. The interactive loop keeps the chain good and saves it: from a good chain that its file
  holds, after any input whose commands find room and have UTF-8 arguments, the chain is
  good, whatever saves fail. When the loop has returned, the file holds exactly this chain,
  so that the next start loads it, unless the user was told: a warning that the chain could
  not be saved, or the error of a fork resolution that could not save. Where no save fails, the
  file always holds it.
\<close>

theorem repl_keeps_and_saves:
  assumes "RunREPL ed ws input c d = Some (c', d', ms, e)" "good_chain ed (Current c)" "utf8_chain (Current c)"
    and "repl_room ed ws 0 (scan_lines input) c d" "paths_ok c" "synced c d"
  shows "good_chain ed (Current c') \<and> utf8_chain (Current c')
    \<and> (e = ReplReturned \<longrightarrow> Load ed False (DataFile c) d' = Ok (Current c')
         \<or> ((\<exists>x. SaveWarning x \<in> set ms) \<or> (\<exists>x. ErrorLine (SavingResolved x) \<in> set ms)) \<and> \<not> (\<forall>n. saving_works (ws n)))"
proof -
  from assms(1) obtain ms' where "repl_loop ed ws 0 (scan_lines input) c d = Some (c', d', ms', e)" "ms = Banner # ms'"
    by (auto simp: RunREPL_def)
  note R = repl_loop_good [OF this(1) assms(4,5,2,3)] and ms = this(2)
  have "Load ed False (DataFile c) d' = Ok (Current c')" if "synced c' d'"
  proof -
    have "DataFile c' = DataFile c" "d' (DataFile c') = Some (chain_bytes (Current c'))"
      using R that unfolding synced_def by blast+
    then have s: "d' (DataFile c) = Some (chain_bytes (Current c'))" by simp
    show ?thesis using R Load_saved [of d' "DataFile c" "Current c'" ed] s good_chain_Validate [of ed "Current c'"] by (simp add: san_chain_utf8)
  qed
  moreover have "unsaved ms' \<Longrightarrow> (\<exists>x. SaveWarning x \<in> set ms) \<or> (\<exists>x. ErrorLine (SavingResolved x) \<in> set ms)"
    using ms by (auto simp: unsaved_def)
  ultimately show ?thesis using R assms(6) by blast
qed

definition demo_input :: string where
  "demo_input = ''faucet alice 5'' @ [CHR 0x0D, CHR 0x0A]"

lemma demo_lines: "scan_lines demo_input = [''faucet alice 5'']"
  by (simp add: scan_lines.simps demo_input_def drop_cr_def)

lemma demo_fields: "TrimSpace ''faucet alice 5'' = ''faucet alice 5''" "Fields ''faucet alice 5'' = [''faucet'', ''alice'', ''5'']"
proof -
  show "TrimSpace ''faucet alice 5'' = ''faucet alice 5''"
    by (rule TrimSpace_printable) (simp_all add: byte_def)
  show "Fields ''faucet alice 5'' = [''faucet'', ''alice'', ''5'']"
    by (simp add: Fields_def space_runes_def HasPrefix_def)
qed

definition demo_disk :: disk where
  "demo_disk = [''chain.json'' \<mapsto> chain_bytes demo_chain]"

theorem repl_keeps_and_saves_witness:
  "\<exists>c' d' ms. RunREPL plain_ed25519 (\<lambda>_. demo_world) demo_input demo_cli demo_disk = Some (c', d', ms, ReplReturned)
     \<and> Load plain_ed25519 False ''chain.json'' d' = Ok demo_pooled"
proof -
  let ?ws = "\<lambda>_ :: nat. demo_world"
  have "Blocks k = Blocks demo_chain" if L: "Load plain_ed25519 fails path demo_disk = Ok k" for fails path k
  proof -
    have p: "path = ''chain.json''" "\<not> fails" using L by (auto simp: Load_parsed demo_disk_def split: if_splits)
    have "utf8_chain demo_chain" using demo_pooled_utf8 by (simp add: utf8_chain_def demo_pooled_def demo_chain_def)
    then show ?thesis
      using L p Load_saved [of demo_disk "''chain.json''" demo_chain plain_ed25519] good_chain_Validate [OF demo_chain_good]
      by (simp add: demo_disk_def san_chain_utf8)
  qed
  then have room: "room plain_ed25519 demo_world demo_cli demo_disk"
    by (auto simp: room_def demo_world_def demo_cli_def clock_ok_def quick_env_def demo_chain_def)
  have "\<exists>d' ms. RunREPL plain_ed25519 ?ws demo_input demo_cli demo_disk
      = Some (demo_cli\<lparr>Current := demo_pooled\<rparr>, d', ms, ReplReturned)"
    by (auto simp: RunREPL_def demo_lines demo_fields demo_faucet Let_def split: prod.split)
  then obtain d' ms where R: "RunREPL plain_ed25519 ?ws demo_input demo_cli demo_disk
      = Some (demo_cli\<lparr>Current := demo_pooled\<rparr>, d', ms, ReplReturned)" by blast
  have "repl_room plain_ed25519 ?ws 0 (scan_lines demo_input) demo_cli demo_disk"
    using room by (simp add: demo_lines demo_fields demo_faucet Let_def ascii_def byte_def)
  moreover have "\<forall>n. saving_works (?ws n)" "paths_ok demo_cli" "synced demo_cli demo_disk"
    "good_chain plain_ed25519 (Current demo_cli)" "utf8_chain (Current demo_cli)"
    using demo_pooled_utf8 demo_chain_good
    by (simp_all add: saving_works_def demo_world_def paths_ok_def demo_cli_def temporary_def synced_def demo_disk_def
        utf8_chain_def demo_pooled_def demo_chain_def)
  ultimately show ?thesis using repl_keeps_and_saves [OF R] R by (auto simp: demo_cli_def)
qed

text \<open>
  C22. A created wallet can spend: after \<open>wallet-create\<close> succeeded with a generated key pair, \<open>send\<close>
  under that name finds the wallet in the file, signs with its key, uses the next nonce of
  the pool's ledger, and queues the transfer for every positive amount the address owns and
  every other non-blank recipient.
\<close>

theorem created_wallet_can_send:
  assumes "ed25519_laws ed" "generated_key ed sk" "GeneratedKey w = Some (ed_public ed sk, sk)"
    and "Run ed w [''wallet-create'', name] c d = Some (c1, d1, Ok ms)" "valid_utf8 (TrimSpace name)"
    and "\<not> WalletReadFails w'" "Ledger ed (Current c1) = Ok l" "fold_res (Apply ed) (Pending (Current c1)) l = Ok l'"
    and "ParseInt amount = Ok a" "0 < sint a" "sint a \<le> sint (Balance l' (AddressFromPublicKey (ed_public ed sk)))"
    and "NextNonce l' (AddressFromPublicKey (ed_public ed sk)) \<noteq> 0"
    and "TrimSpace recipient \<noteq> []" "recipient \<noteq> AddressFromPublicKey (ed_public ed sk)"
  shows "\<exists>tx. Run ed w' [''send'', TrimSpace name, recipient, amount] c1 d1
      = Some (c1\<lparr>Current := (Current c1)\<lparr>Pending := Pending (Current c1) @ [tx]\<rparr>\<rparr>, d1, Ok [QueuedTransfer tx])
    \<and> Sender tx = AddressFromPublicKey (ed_public ed sk) \<and> Recipient tx = recipient \<and> Amount tx = a
    \<and> TxNonce tx = NextNonce l' (AddressFromPublicKey (ed_public ed sk))"
proof -
  have create: "cmdWalletCreate w [name] c d = (d1, Ok ms)" and c1: "c1 = c"
    using assms(4) by (auto simp: Run_commands reports_def split: prod.splits)
  obtain store where store: "loadWalletStore False (WalletFile c) d1 = Ok store"
    "map_of store (TrimSpace name) = Some \<lparr>Address = AddressFromPublicKey (ed_public ed sk),
        WalletPublicKey = hex_encode (ed_public ed sk), WalletPrivateKey = hex_encode sk\<rparr>"
    using cmdWalletCreate_Ok [OF create assms(3,5)] by blast
  have "loadWalletStore (WalletReadFails w') (WalletFile c1) d1 = Ok store" using store(1) assms(6) c1 by simp
  from cmdSend_works [OF assms(1,2) this store(2) assms(7-14)]
  show ?thesis by (auto simp: Run_commands changes_def)
qed

theorem created_wallet_can_send_witness:
  "\<exists>d1 ms tx. Run plain_ed25519 demo_world [''wallet-create'', ''ann'']
       (demo_cli\<lparr>Current := demo_chain\<lparr>Pending := [grant demo_owner 100]\<rparr>\<rparr>) Map.empty
     = Some (demo_cli\<lparr>Current := demo_chain\<lparr>Pending := [grant demo_owner 100]\<rparr>\<rparr>, d1, Ok ms)
   \<and> Run plain_ed25519 demo_world [''send'', ''ann'', ''alice'', ''5'']
       (demo_cli\<lparr>Current := demo_chain\<lparr>Pending := [grant demo_owner 100]\<rparr>\<rparr>) d1
     = Some (demo_cli\<lparr>Current := demo_chain\<lparr>Pending := [grant demo_owner 100, tx]\<rparr>\<rparr>, d1, Ok [QueuedTransfer tx])
   \<and> Sender tx = demo_owner \<and> TxNonce tx = 1"
proof -
  let ?c = "demo_cli\<lparr>Current := demo_chain\<lparr>Pending := [grant demo_owner 100]\<rparr>\<rparr>"
  let ?sk = "replicate 64 (CHR ''k'')"
  have owner: "AddressFromPublicKey (ed_public plain_ed25519 ?sk) = demo_owner"
    by (simp add: demo_owner_def plain_ed25519_def)
  have key: "GeneratedKey demo_world = Some (ed_public plain_ed25519 ?sk, ?sk)"
    by (simp add: demo_world_def plain_ed25519_def)
  have gen: "generated_key plain_ed25519 ?sk"
    using plain_generated [of "replicate 32 (CHR ''k'')"] by (simp flip: replicate_add)
  have ann: "TrimSpace ''ann'' = ''ann''" by (rule TrimSpace_printable) (simp_all add: byte_def)
  let ?store = "[(''ann'', \<lparr>Address = demo_owner, WalletPublicKey = hex_encode (replicate 32 (CHR ''k'')),
       WalletPrivateKey = hex_encode ?sk\<rparr>)]"
  obtain d1 where "save_store no_faults ''wallets.json'' ?store Map.empty = (d1, Ok ())"
    by (simp add: save_store_def wallet_save_ops_def no_faults_def Let_def)
  then have create: "Run plain_ed25519 demo_world [''wallet-create'', ''ann''] ?c Map.empty
      = Some (?c, d1, Ok [CreatedWallet ''ann'' demo_owner])"
    by (simp add: Run_commands cmdWalletCreate_def ann loadWalletStore_def demo_world_def demo_cli_def reports_def
        flip: demo_owner_def)
  have l: "Ledger plain_ed25519 (Current ?c) = Ok ledger_New"
    by (simp add: Ledger_def demo_chain_def Rebuild_def ApplyBlock_def)
  let ?l = "ledger_New\<lparr>balances := [demo_owner \<mapsto> 100]\<rparr>"
  have l': "fold_res (Apply plain_ed25519) (Pending (Current ?c)) ledger_New = Ok ?l"
    by (simp add: Apply_grant) (simp add: ledger_New_def)
  have "Balance ?l demo_owner = 100" "NextNonce ?l demo_owner = 1"
    by (simp_all add: Balance_def NextNonce_def)
  then obtain tx where "Run plain_ed25519 demo_world [''send'', ''ann'', ''alice'', ''5''] ?c d1
      = Some (?c\<lparr>Current := (Current ?c)\<lparr>Pending := Pending (Current ?c) @ [tx]\<rparr>\<rparr>, d1, Ok [QueuedTransfer tx])"
    "Sender tx = demo_owner" "TxNonce tx = 1"
    using created_wallet_can_send [OF plain_ed25519_laws gen key create _ _ l l' parse_5, of demo_world "''alice''"]
    by (auto simp: owner ann demo_world_def TrimSpace_alice ascii_def byte_def)
  with create show ?thesis by auto
qed

end
