(* ===== verification/Lock.thy ===== *)
theory Lock
  imports ChainFile
begin

text \<open>
  The lock file of a chain (\<open>AcquireFileLock\<close> and \<open>Release\<close> of \<open>src/chain/chain.go\<close>) and its use by
  \<open>main\<close> in \<open>src/main.go\<close>: the processes that share a chain file, as a transition system over the
  disk. Opening with \<open>O_CREATE|O_EXCL\<close> is atomic; the line with the process id, which nothing
  reads, is written in the same step. Times are mathematical integers (nanoseconds).
\<close>

section \<open>Acquiring and releasing\<close>

definition lock_path :: "string \<Rightarrow> string" where
  "lock_path path = path @ ''.lock''"

datatype open_result = Opened | ErrExist | OpenFailed

definition open_exclusive :: "string \<Rightarrow> bool \<Rightarrow> disk \<Rightarrow> disk \<times> open_result" where
  "open_exclusive lockPath fails d =
     (if fails then (d, OpenFailed)
      else case d lockPath of None \<Rightarrow> (d(lockPath \<mapsto> []), Opened) | Some content \<Rightarrow> (d, ErrExist))"

datatype lock_error = CreatingLock | LockedByAnother

definition pid_line :: "int \<Rightarrow> string" where
  "pid_line pid = ''pid='' @ dec_int pid @ [CHR 0x0A]"

text \<open>One round of the loop; \<open>None\<close> means that it sleeps and goes round again.\<close>

definition acquire_round :: "string \<Rightarrow> int \<Rightarrow> int \<Rightarrow> bool \<Rightarrow> int \<Rightarrow> disk \<Rightarrow> disk \<times> (lock_error, string) res option" where
  "acquire_round path pid deadline fails now d =
     (let lockPath = lock_path path in
      case open_exclusive lockPath fails d of
        (d', Opened) \<Rightarrow> (d'(lockPath \<mapsto> pid_line pid), Some (Ok lockPath))
      | (d', OpenFailed) \<Rightarrow> (d', Some (Err CreatingLock))
      | (d', ErrExist) \<Rightarrow> (d', if deadline < now then Some (Err LockedByAnother) else None))"

text \<open>
  The whole call, given what each round meets: the disk as the other processes left it,
  whether opening fails, and the clock. \<open>None\<close>: it still waits after these rounds.
\<close>

fun acquire_loop :: "string \<Rightarrow> int \<Rightarrow> int \<Rightarrow> (disk \<times> bool \<times> int) list \<Rightarrow> (disk \<times> (lock_error, string) res) option" where
  "acquire_loop path pid deadline [] = None"
| "acquire_loop path pid deadline ((d, fails, now) # rounds) =
     (case acquire_round path pid deadline fails now d of
        (d', Some r) \<Rightarrow> Some (d', r)
      | (d', None) \<Rightarrow> acquire_loop path pid deadline rounds)"

definition AcquireFileLock ::
  "string \<Rightarrow> int \<Rightarrow> int \<Rightarrow> int \<Rightarrow> (disk \<times> bool \<times> int) list \<Rightarrow> (disk \<times> (lock_error, string) res) option" where
  "AcquireFileLock path pid start timeout rounds = acquire_loop path pid (start + timeout) rounds"

datatype release_error = ErrNotExist | RemovingLock

definition Release :: "string option \<Rightarrow> bool \<Rightarrow> disk \<Rightarrow> disk \<times> (release_error, unit) res" where
  "Release lock fails d =
     (case lock of
        None \<Rightarrow> (d, Ok ())
      | Some p \<Rightarrow>
          (case d p of
             None \<Rightarrow> (d, Err ErrNotExist)
           | Some content \<Rightarrow> if fails then (d, Err RemovingLock) else (d(p := None), Ok ())))"

section \<open>Processes\<close>

text \<open>
  A process of the program. It holds the lock from a successful acquisition until \<open>main\<close>
  returns, when the deferred call releases it (removing the file may fail), or until \<open>fatal\<close>
  ends the process with \<open>os.Exit\<close>, which runs no deferred call. While it holds the lock it changes other files.
\<close>

datatype process =
    Starting
  | Acquiring int
  | Holding string
  | Refused lock_error
  | Returned
  | LeftLock string

datatype action =
    Begin int int
  | Round bool int
  | ChangeFile fs_op
  | ReturnMain bool
  | FatalExit

fun act :: "string \<Rightarrow> nat \<Rightarrow> action \<Rightarrow> process \<Rightarrow> disk \<Rightarrow> (process \<times> disk) option" where
  "act path pid (Begin start timeout) Starting d = Some (Acquiring (start + timeout), d)"
| "act path pid (Round fails now) (Acquiring deadline) d =
     (case acquire_round path (int pid) deadline fails now d of
        (d', None) \<Rightarrow> Some (Acquiring deadline, d')
      | (d', Some (Ok lock)) \<Rightarrow> Some (Holding lock, d')
      | (d', Some (Err e)) \<Rightarrow> Some (Refused e, d')
      | (d', Some (Panic p)) \<Rightarrow> None)"
| "act path pid (ChangeFile op) (Holding lock) d =
     (if spares lock op then Some (Holding lock, fs_apply op d) else None)"
| "act path pid (ReturnMain fails) (Holding lock) d =
     (case Release (Some lock) fails d of
        (d', Err RemovingLock) \<Rightarrow> Some (LeftLock lock, d')
      | (d', r) \<Rightarrow> Some (Returned, d'))"
| "act path pid FatalExit (Holding lock) d = Some (LeftLock lock, d)"
| "act path pid _ _ d = None"

type_synonym system = "(nat \<Rightarrow> process) \<times> disk"

inductive system_step :: "string \<Rightarrow> nat \<Rightarrow> action \<Rightarrow> system \<Rightarrow> system \<Rightarrow> bool" for path where
  step: "act path i a (ps i) d = Some (p, d') \<Longrightarrow> system_step path i a (ps, d) (ps(i := p), d')"

inductive_cases system_stepE: "system_step path i a s s'"

definition any_step :: "string \<Rightarrow> system \<Rightarrow> system \<Rightarrow> bool" where
  "any_step path s s' \<longleftrightarrow> (\<exists>i a. system_step path i a s s')"

definition unlocked :: "string \<Rightarrow> system \<Rightarrow> bool" where
  "unlocked path s \<longleftrightarrow> (\<forall>i. fst s i = Starting) \<and> snd s (lock_path path) = None"

definition holders :: "system \<Rightarrow> nat set" where
  "holders s = {i. \<exists>l. fst s i = Holding l}"

definition leavers :: "system \<Rightarrow> nat set" where
  "leavers s = {i. \<exists>l. fst s i = LeftLock l}"


section \<open>Tokens that are lost when their owner dies\<close>

text \<open>
  The abstract protocol: a token that is free or taken, its owners, and the owners that went
  away without giving it back. Every step does nothing to it, takes the free token, gives
  it back, or loses it with its owner.
\<close>

locale lossy_token =
  fixes move :: "'s \<Rightarrow> 's \<Rightarrow> bool" and ready :: "'s \<Rightarrow> bool" and ok :: "'s \<Rightarrow> bool"
    and taken :: "'s \<Rightarrow> bool" and owners :: "'s \<Rightarrow> 'p set" and lost :: "'s \<Rightarrow> 'p set"
  assumes start: "ready s \<Longrightarrow> \<not> taken s \<and> owners s = {} \<and> lost s = {} \<and> ok s"
    and ok_move: "ok s \<Longrightarrow> move s s' \<Longrightarrow> ok s'"
    and moves: "ok s \<Longrightarrow> move s s' \<Longrightarrow>
      (taken s' = taken s \<and> owners s' = owners s \<and> lost s' = lost s)
      \<or> (\<exists>p. \<not> taken s \<and> taken s' \<and> owners s' = insert p (owners s) \<and> lost s' = lost s)
      \<or> (\<exists>p. p \<in> owners s \<and> \<not> taken s' \<and> owners s' = owners s - {p} \<and> lost s' = lost s)
      \<or> (\<exists>p. p \<in> owners s \<and> taken s' = taken s \<and> owners s' = owners s - {p} \<and> lost s' = insert p (lost s))"
begin

definition token_inv :: "'s \<Rightarrow> bool" where
  "token_inv s \<longleftrightarrow> ok s \<and>
     ((\<not> taken s \<and> owners s = {} \<and> lost s = {})
     \<or> (\<exists>p. taken s \<and> owners s = {p} \<and> lost s = {}) \<or> (\<exists>p. taken s \<and> owners s = {} \<and> lost s = {p}))"

lemma token_inv_move:
  assumes "token_inv s" "move s s'"
  shows "token_inv s'"
proof -
  have "ok s" "ok s'" using assms ok_move by (auto simp: token_inv_def)
  with assms(1) moves [OF _ assms(2)] show ?thesis
    unfolding token_inv_def by (elim disjE exE conjE; simp) blast+
qed

lemma token_inv_reachable: "move\<^sup>*\<^sup>* s s' \<Longrightarrow> ready s \<Longrightarrow> token_inv s'"
proof (induction rule: rtranclp_induct)
  case base
  then show ?case using start [of s] by (simp add: token_inv_def)
next
  case (step t u)
  then show ?case using token_inv_move by blast
qed

lemma lost_forever:
  assumes "move\<^sup>*\<^sup>* s s'" "token_inv s" "lost s \<noteq> {}"
  shows "lost s' = lost s \<and> owners s' = {} \<and> taken s' \<and> ok s'"
  using assms
proof (induction rule: rtranclp_induct)
  case base
  then show ?case by (auto simp: token_inv_def)
next
  case (step t u)
  then have t: "lost t = lost s" "owners t = {}" "taken t" "ok t" by simp_all
  with moves [OF t(4) step.hyps(2)] ok_move [OF t(4) step.hyps(2)] show ?case
    by (elim disjE exE conjE; simp)
qed

lemma one_owner: "token_inv s \<Longrightarrow> p \<in> owners s \<Longrightarrow> owners s = {p} \<and> lost s = {} \<and> taken s"
  by (auto simp: token_inv_def)

lemma free_iff: "token_inv s \<Longrightarrow> taken s \<longleftrightarrow> owners s \<union> lost s \<noteq> {}"
  by (auto simp: token_inv_def)

end

section \<open>The lock file is such a token\<close>

definition lock_taken :: "string \<Rightarrow> system \<Rightarrow> bool" where
  "lock_taken path s \<longleftrightarrow> snd s (lock_path path) \<noteq> None"

lemma acquire_round_cases:
  "acquire_round path pid deadline fails now d =
     (if fails then (d, Some (Err CreatingLock))
      else if d (lock_path path) = None
        then (d(lock_path path \<mapsto> pid_line pid), Some (Ok (lock_path path)))
      else (d, if deadline < now then Some (Err LockedByAnother) else None))"
  by (simp add: acquire_round_def open_exclusive_def Let_def split: option.split)

lemma Release_lock:
  "Release (Some p) fails d =
     (if d p = None then (d, Err ErrNotExist) else if fails then (d, Err RemovingLock) else (d(p := None), Ok ()))"
  by (simp add: Release_def split: option.split)

fun_cases act_BeginE: "act path pid (Begin t w) p d = Some r"
fun_cases act_RoundE: "act path pid (Round f t) p d = Some r"
fun_cases act_ChangeE: "act path pid (ChangeFile op) p d = Some r"
fun_cases act_ReturnE: "act path pid (ReturnMain f) p d = Some r"
fun_cases act_FatalE: "act path pid FatalExit p d = Some r"

lemma act_effect:
  assumes "act path pid a p d = Some (q, d')" "\<forall>l. p = Holding l \<longrightarrow> l = lock_path path"
  shows
    "(\<nexists>l. p = Holding l) \<and> (\<nexists>l. p = LeftLock l) \<and> (\<nexists>l. q = Holding l) \<and> (\<nexists>l. q = LeftLock l) \<and> d' = d
     \<or> d (lock_path path) = None \<and> q = Holding (lock_path path) \<and> d' (lock_path path) \<noteq> None
         \<and> (\<nexists>l. p = Holding l) \<and> (\<nexists>l. p = LeftLock l)
     \<or> p = Holding (lock_path path) \<and> q = p \<and> d' (lock_path path) = d (lock_path path)
     \<or> p = Holding (lock_path path) \<and> q = Returned \<and> d' (lock_path path) = None
     \<or> p = Holding (lock_path path) \<and> q = LeftLock (lock_path path) \<and> d' = d"
proof (cases a)
  case (Begin t w)
  with assms(1) have "p = Starting" "q = Acquiring (t + w)" "d' = d" by (auto elim: act_BeginE)
  then show ?thesis by simp
next
  case (Round f t)
  with assms(1) obtain deadline where "p = Acquiring deadline" by (auto elim: act_RoundE)
  with Round assms(1) show ?thesis by (cases f; cases "d (lock_path path)") (auto simp: acquire_round_cases split: if_splits)
next
  case (ChangeFile op)
  with assms(1) obtain l where "p = Holding l" by (auto elim: act_ChangeE)
  with assms(2) have p: "p = Holding (lock_path path)" by blast
  with ChangeFile assms(1) p show ?thesis by (cases "spares (lock_path path) op") (auto simp: fs_apply_spares)
next
  case (ReturnMain f)
  with assms(1) obtain l where "p = Holding l" by (auto elim: act_ReturnE)
  with assms(2) have p: "p = Holding (lock_path path)" by blast
  with ReturnMain assms(1) p show ?thesis
    by (cases f; cases "d (lock_path path)") (auto simp: Release_lock)
next
  case FatalExit
  with assms(1) obtain l where "p = Holding l" by (auto elim: act_FatalE)
  with assms(2) have p: "p = Holding (lock_path path)" by blast
  with FatalExit assms(1) p show ?thesis by simp
qed


definition lock_ok :: "string \<Rightarrow> system \<Rightarrow> bool" where
  "lock_ok path s \<longleftrightarrow> (\<forall>i l. fst s i = Holding l \<longrightarrow> l = lock_path path)"

lemma system_step_effect:
  assumes "system_step path i a s s'" "lock_ok path s"
  shows "lock_ok path s'
    \<and> (lock_taken path s' = lock_taken path s \<and> holders s' = holders s \<and> leavers s' = leavers s
       \<or> \<not> lock_taken path s \<and> lock_taken path s' \<and> holders s' = insert i (holders s) \<and> leavers s' = leavers s
       \<or> i \<in> holders s \<and> \<not> lock_taken path s' \<and> holders s' = holders s - {i} \<and> leavers s' = leavers s
       \<or> i \<in> holders s \<and> lock_taken path s' = lock_taken path s \<and> holders s' = holders s - {i}
           \<and> leavers s' = insert i (leavers s))
    \<and> (i \<notin> holders s \<longrightarrow> lock_taken path s \<longrightarrow> snd s' = snd s)"
proof -
  obtain ps d p d' where 1: "s = (ps, d)" "s' = (ps(i := p), d')" "act path i a (ps i) d = Some (p, d')"
    using assms(1) by (auto elim!: system_stepE)
  have own: "\<forall>l. ps i = Holding l \<longrightarrow> l = lock_path path" using assms(2) 1(1) by (auto simp: lock_ok_def)
  have upd: "lock_ok path s'" if "\<forall>l. p = Holding l \<longrightarrow> l = lock_path path"
    unfolding lock_ok_def using assms(2) 1(1,2) that by (auto simp: lock_ok_def)
  have sets: "holders s' = (if \<exists>l. p = Holding l then insert i (holders s) else holders s - {i})"
    "leavers s' = (if \<exists>l. p = LeftLock l then insert i (leavers s) else leavers s - {i})"
    "i \<in> holders s \<longleftrightarrow> (\<exists>l. ps i = Holding l)" "i \<in> leavers s \<longleftrightarrow> (\<exists>l. ps i = LeftLock l)"
    using 1(1,2) by (auto simp: holders_def leavers_def)
  have taken: "lock_taken path s \<longleftrightarrow> d (lock_path path) \<noteq> None" "lock_taken path s' \<longleftrightarrow> d' (lock_path path) \<noteq> None"
    "snd s = d" "snd s' = d'" using 1(1,2) by (simp_all add: lock_taken_def)
  from act_effect [OF 1(3) own] show ?thesis
  proof (elim disjE conjE)
    assume "\<nexists>l. ps i = Holding l" "\<nexists>l. ps i = LeftLock l" "\<nexists>l. p = Holding l" "\<nexists>l. p = LeftLock l" "d' = d"
    with sets taken upd show ?thesis by simp
  next
    assume "d (lock_path path) = None" "p = Holding (lock_path path)" "d' (lock_path path) \<noteq> None"
      "\<nexists>l. ps i = Holding l" "\<nexists>l. ps i = LeftLock l"
    with sets taken upd show ?thesis by simp
  next
    assume "ps i = Holding (lock_path path)" "p = ps i" "d' (lock_path path) = d (lock_path path)"
    with sets taken upd show ?thesis by auto
  next
    assume "ps i = Holding (lock_path path)" "p = Returned" "d' (lock_path path) = None"
    with sets taken upd show ?thesis by simp
  next
    assume "ps i = Holding (lock_path path)" "p = LeftLock (lock_path path)" "d' = d"
    with sets taken upd show ?thesis by simp
  qed
qed

interpretation filelock: lossy_token "any_step path" "unlocked path" "lock_ok path" "lock_taken path" holders leavers for path
proof unfold_locales
  show "\<not> lock_taken path s \<and> holders s = {} \<and> leavers s = {} \<and> lock_ok path s" if "unlocked path s" for s
    using that by (auto simp: unlocked_def lock_taken_def holders_def leavers_def lock_ok_def)
  fix s s' assume ok: "lock_ok path s" and m: "any_step path s s'"
  then obtain i a where st: "system_step path i a s s'" by (auto simp: any_step_def)
  note E = system_step_effect [OF st ok]
  then show "lock_ok path s'" by blast
  from E show "(lock_taken path s' = lock_taken path s \<and> holders s' = holders s \<and> leavers s' = leavers s)
      \<or> (\<exists>p. \<not> lock_taken path s \<and> lock_taken path s' \<and> holders s' = insert p (holders s) \<and> leavers s' = leavers s)
      \<or> (\<exists>p. p \<in> holders s \<and> \<not> lock_taken path s' \<and> holders s' = holders s - {p} \<and> leavers s' = leavers s)
      \<or> (\<exists>p. p \<in> holders s \<and> lock_taken path s' = lock_taken path s \<and> holders s' = holders s - {p}
             \<and> leavers s' = insert p (leavers s))" by blast
qed


subsection \<open>A sample run\<close>

definition idle_system :: system where
  "idle_system = (\<lambda>_. Starting, Map.empty)"

definition held_system :: "string \<Rightarrow> nat \<Rightarrow> system" where
  "held_system path i = ((\<lambda>_. Starting)(i := Holding (lock_path path)), [lock_path path \<mapsto> pid_line (int i)])"

lemma idle_unlocked [simp]: "unlocked path idle_system"
  by (simp add: unlocked_def idle_system_def)

lemma held_holders [simp]: "holders (held_system path i) = {i}"
  by (auto simp: holders_def held_system_def)

lemma held_reachable: "(any_step path)\<^sup>*\<^sup>* idle_system (held_system path i)"
proof -
  let ?m = "((\<lambda>_. Starting)(i := Acquiring 5), Map.empty)"
  have "system_step path i (Begin 0 5) idle_system ?m"
    unfolding idle_system_def by (rule system_step.step) simp
  moreover have "system_step path i (Round False 1) ?m
      (((\<lambda>_. Starting)(i := Acquiring 5))(i := Holding (lock_path path)), [lock_path path \<mapsto> pid_line (int i)])"
    by (rule system_step.step) (simp add: acquire_round_cases)
  then have "system_step path i (Round False 1) ?m (held_system path i)" by (simp add: held_system_def)
  ultimately have "any_step path idle_system ?m" "any_step path ?m (held_system path i)"
    unfolding any_step_def by blast+
  then show ?thesis by (rule converse_rtranclp_into_rtranclp [OF _ r_into_rtranclp])
qed

lemma acquire_loop_returns:
  "(\<exists>(d, fails, now)\<in>set rounds. deadline < now) \<Longrightarrow>
     \<exists>d r. acquire_loop path pid deadline rounds = Some (d, r) \<and> no_panic r"
proof (induction rounds)
  case (Cons x rounds)
  obtain d fails now where x: "x = (d, fails, now)" by (cases x)
  with Cons show ?case by (cases "d (lock_path path)") (auto simp: acquire_round_cases)
qed simp

lemma acquire_loop_Ok:
  "acquire_loop path pid deadline rounds = Some (d', Ok l) \<Longrightarrow>
     l = lock_path path \<and> (\<exists>(d, fails, now)\<in>set rounds. d l = None \<and> d' = d(l \<mapsto> pid_line pid))"
proof (induction rounds)
  case (Cons x rounds)
  obtain d fails now where x: "x = (d, fails, now)" by (cases x)
  with Cons show ?case by (cases "d (lock_path path)") (auto simp: acquire_round_cases split: if_splits)
qed simp

section \<open>Properties\<close>

text \<open>
  C17. The lock excludes: however the processes that share a chain file are interleaved, at most
  one holds the lock; the lock file exists exactly while a process holds the lock or has left
  it behind; while one holds it no step of another changes any file; and a process that
  tries when the lock is free gets it.
\<close>

theorem lock_is_exclusive:
  assumes "unlocked path s0" "(any_step path)\<^sup>*\<^sup>* s0 s"
  shows "(\<forall>i\<in>holders s. \<forall>j\<in>holders s. i = j)
    \<and> (lock_taken path s \<longleftrightarrow> holders s \<union> leavers s \<noteq> {})
    \<and> (\<forall>i j a s'. i \<in> holders s \<longrightarrow> j \<noteq> i \<longrightarrow> system_step path j a s s' \<longrightarrow> snd s' = snd s)
    \<and> (\<forall>i deadline now. fst s i = Acquiring deadline \<longrightarrow> holders s \<union> leavers s = {} \<longrightarrow>
         (\<exists>s'. system_step path i (Round False now) s s' \<and> holders s' = {i}))"
proof -
  note inv = filelock.token_inv_reachable [OF assms(2,1)]
  then have ok: "lock_ok path s" by (simp add: filelock.token_inv_def)
  have "snd s' = snd s" if "i \<in> holders s" "j \<noteq> i" "system_step path j a s s'" for i j a s'
    using system_step_effect [OF that(3) ok] filelock.one_owner [OF inv that(1)] that(2) by simp
  moreover have "\<exists>s'. system_step path i (Round False now) s s' \<and> holders s' = {i}"
    if a: "fst s i = Acquiring deadline" and free: "holders s \<union> leavers s = {}" for i deadline now
  proof -
    obtain ps d where s: "s = (ps, d)" by (cases s)
    have "d (lock_path path) = None" using filelock.free_iff [OF inv] free by (simp add: lock_taken_def s)
    then have st: "system_step path i (Round False now) s
        (ps(i := Holding (lock_path path)), d(lock_path path \<mapsto> pid_line (int i)))"
      unfolding s using a by (intro system_step.step) (simp add: acquire_round_cases s)
    have "holders (ps(i := Holding (lock_path path)), d(lock_path path \<mapsto> pid_line (int i))) = {i}"
      using free by (auto simp: holders_def s)
    with st show ?thesis by blast
  qed
  ultimately show ?thesis using filelock.free_iff [OF inv] filelock.one_owner [OF inv] by blast
qed

theorem lock_is_exclusive_witness:
  "\<not> (\<exists>j a s'. j \<noteq> 0 \<and> system_step ''c'' j a (held_system ''c'' 0) s' \<and> snd s' \<noteq> snd (held_system ''c'' 0))"
  using lock_is_exclusive [OF idle_unlocked [of "''c''"] held_reachable [of "''c''" 0]] by auto

text \<open>
  A process that fails while it holds the lock locks every other out: \<open>fatal\<close> exits without
  running the deferred release, so from then on, whatever happens, the lock file stays, no
  process ever holds the lock, and every attempt after its deadline is refused.
\<close>

theorem fatal_exit_locks_out:
  assumes "unlocked path s0" "(any_step path)\<^sup>*\<^sup>* s0 s" "system_step path i FatalExit s s1" "(any_step path)\<^sup>*\<^sup>* s1 s2"
  shows "holders s2 = {} \<and> lock_taken path s2
    \<and> (\<forall>j deadline fails now s3. fst s2 j = Acquiring deadline \<longrightarrow> deadline < now \<longrightarrow>
         system_step path j (Round fails now) s2 s3 \<longrightarrow> fst s3 j \<in> {Refused CreatingLock, Refused LockedByAnother})"
proof -
  have "any_step path s s1" using assms(3) unfolding any_step_def by blast
  then have inv: "filelock.token_inv path s1"
    by (rule filelock.token_inv_move [OF filelock.token_inv_reachable [OF assms(2,1)]])
  have "i \<in> leavers s1" using assms(3) by (auto elim!: system_stepE act_FatalE simp: leavers_def)
  then have L: "holders s2 = {}" "lock_taken path s2"
    using filelock.lost_forever [OF assms(4) inv] by auto
  have "fst s3 j \<in> {Refused CreatingLock, Refused LockedByAnother}"
    if "fst s2 j = Acquiring deadline" "deadline < now" "system_step path j (Round fails now) s2 s3"
    for j deadline fails now s3
    using that L(2) by (auto elim!: system_stepE simp: acquire_round_cases lock_taken_def split: if_splits)
  with L show ?thesis by blast
qed

theorem fatal_exit_locks_out_witness:
  "lock_taken ''c'' ((\<lambda>_. Starting)(0 := LeftLock (lock_path ''c'')), [lock_path ''c'' \<mapsto> pid_line 0])"
proof -
  let ?s = "((\<lambda>_. Starting)(0 := LeftLock (lock_path ''c'')), [lock_path ''c'' \<mapsto> pid_line 0])"
  have "system_step ''c'' 0 FatalExit (held_system ''c'' 0)
      (((\<lambda>_. Starting)(0 := Holding (lock_path ''c'')))(0 := LeftLock (lock_path ''c'')), [lock_path ''c'' \<mapsto> pid_line (int 0)])"
    unfolding held_system_def by (rule system_step.step) simp
  then have "system_step ''c'' 0 FatalExit (held_system ''c'' 0) ?s" by simp
  from fatal_exit_locks_out [OF idle_unlocked held_reachable this rtranclp.rtrancl_refl] show ?thesis by blast
qed



end
