(* ===== verification/Program.thy ===== *)
theory Program
  imports Cli Lock
begin

text \<open>
  The program of \<open>src/main.go\<close> after flag parsing: the lock, the checks of the flags, loading or
  creating the chain, one command or the interactive loop, saving, and the two ways out:
  returning from \<open>main\<close>, which releases the lock, and \<open>fatal\<close>, which does not. A panic unwinds
  \<open>main\<close> and so runs the deferred release as well; a run that hangs does not get that far.
\<close>

section \<open>Flags\<close>

record flags =
  FDifficulty :: i64
  FMaxTx :: i64
  FData :: string
  FWallets :: string
  FMiningTimeout :: i64
  FMaxAttempts :: u64
  FMaxNonce :: u64
  FWorkers :: i64
  FLockTimeout :: int
  FRetarget :: bool
  FInterval :: i64
  FTargetBlockTime :: i64
  FMinDifficulty :: i64
  FMaxDifficulty :: i64
  FArgs :: "string list"

text \<open>
  Durations are nanoseconds. Of the mining timeout only the end of the context is visible, in the
  schedules of the mining environments.
\<close>

definition default_flags :: flags where
  "default_flags =
     \<lparr>FDifficulty = DefaultDifficulty, FMaxTx = DefaultMaxTxPerBlock, FData = ''data/chain.json'',
      FWallets = ''data/wallets.json'', FMiningTimeout = 15000000000, FMaxAttempts = 5000000, FMaxNonce = 10000000, FWorkers = 0,
      FLockTimeout = 5000000000, FRetarget = Enabled DefaultRetargetConfig,
      FInterval = Interval DefaultRetargetConfig,
      FTargetBlockTime = TargetBlockSeconds DefaultRetargetConfig * 1000000000,
      FMinDifficulty = MinDifficulty DefaultRetargetConfig, FMaxDifficulty = MaxDifficulty DefaultRetargetConfig,
      FArgs = []\<rparr>"

definition flag_limits :: "flags \<Rightarrow> mining_limits" where
  "flag_limits f = \<lparr>MaxAttempts = FMaxAttempts f, MaxNonce = FMaxNonce f, Workers = FWorkers f\<rparr>"

definition flag_retarget :: "flags \<Rightarrow> retarget_config" where
  "flag_retarget f =
     \<lparr>Enabled = FRetarget f, Interval = FInterval f, TargetBlockSeconds = sdiv64 (FTargetBlockTime f) 1000000000,
      MinDifficulty = FMinDifficulty f, MaxDifficulty = FMaxDifficulty f\<rparr>"

section \<open>The body of main\<close>

text \<open>What comes from outside: the environments, the failing calls, the input, the lock's rounds.\<close>

record outside =
  GenesisEnv :: mine_env
  LoadFails :: bool
  NewFaults :: save_faults
  Worlds :: "nat \<Rightarrow> world"
  Stdin :: string
  DirFails :: bool
  Pid :: int
  StartTime :: int
  Rounds :: "(disk \<times> bool \<times> int) list"
  ReleaseFails :: bool

datatype main_error =
    CreatingDataDirectory
  | LockFailed lock_error
  | TargetTooShort
  | InvalidRetarget retarget_error
  | LoadFailed load_error
  | CreatingChain chain_error
  | SavingNewChain save_error
  | CommandFailed cli_error
  | SavingResult save_error

datatype main_message =
    CreatedChain string i64 i64 bool
  | LoadedChain string i64
  | DifficultyNote i64
  | FromCli message
  | ReleaseWarning release_error

definition loaded_messages :: "flags \<Rightarrow> chain \<Rightarrow> (main_error, main_message list) res" where
  "loaded_messages f k =
     bind_res (latest_block k) (\<lambda>b.
     bind_res (ExpectedDifficulty k (Height b + 1)) (\<lambda>nextExpected.
     Ok (LoadedChain (FData f) (len (Blocks k))
         # (if FDifficulty f \<noteq> DefaultDifficulty \<and> FDifficulty f \<noteq> nextExpected then [DifficultyNote (FDifficulty f)] else []))))"

definition create_chain :: "flags \<Rightarrow> outside \<Rightarrow> disk \<Rightarrow> (disk \<times> main_message list \<times> (main_error, chain) res) option" where
  "create_chain f out d =
     map_option
       (\<lambda>r. case r of
           Panic p \<Rightarrow> (d, [], Panic p)
         | Err e \<Rightarrow> (d, [], Err (CreatingChain e))
         | Ok k \<Rightarrow>
             (case Save (NewFaults out) (FData f) k d of
                (d', r') \<Rightarrow>
                  (d', if is_Ok r' then [CreatedChain (FData f) (FDifficulty f) (FWorkers f) (FRetarget f)] else [],
                   bind_res (map_err SavingNewChain r') (\<lambda>_. Ok k))))
       (NewWithRetarget (GenesisEnv out) (FDifficulty f) (FMaxTx f) (flag_limits f) (flag_retarget f))"

definition open_chain ::
  "ed25519 \<Rightarrow> flags \<Rightarrow> outside \<Rightarrow> disk \<Rightarrow> (disk \<times> main_message list \<times> (main_error, chain) res) option" where
  "open_chain ed f out d =
     (if sint (FTargetBlockTime f) < 1000000000 then Some (d, [], Err TargetTooShort)
      else
        (case RetargetConfig_Validate (flag_retarget f) of
           Panic p \<Rightarrow> Some (d, [], Panic p)
         | Err e \<Rightarrow> Some (d, [], Err (InvalidRetarget e))
         | Ok _ \<Rightarrow>
             (case Load ed (LoadFails out) (FData f) d of
                Panic p \<Rightarrow> Some (d, [], Panic p)
              | Err e \<Rightarrow> if e = FileNotExist then create_chain f out d else Some (d, [], Err (LoadFailed e))
              | Ok k \<Rightarrow>
                  (case loaded_messages f k of
                     Ok ms \<Rightarrow> Some (d, ms, Ok k)
                   | Err e \<Rightarrow> Some (d, [], Err e)
                   | Panic p \<Rightarrow> Some (d, [], Panic p)))))"

definition flag_cli :: "flags \<Rightarrow> chain \<Rightarrow> cli" where
  "flag_cli f k = \<lparr>Current = k, DataFile = FData f, WalletFile = FWallets f, MineLimits = flag_limits f\<rparr>"

text \<open>
  One command from the arguments, followed by a save (whose failures are the automatic ones of
  its world), or the interactive loop.
\<close>

definition serve ::
  "ed25519 \<Rightarrow> flags \<Rightarrow> outside \<Rightarrow> chain \<Rightarrow> disk \<Rightarrow> (disk \<times> main_message list \<times> (main_error, unit) res) option" where
  "serve ed f out k d =
     (if FArgs f \<noteq> [] then
        map_option
          (\<lambda>(c, d', r). case r of
              Panic p \<Rightarrow> (d', [], Panic p)
            | Err e \<Rightarrow> (d', [], Err (CommandFailed e))
            | Ok ms \<Rightarrow>
                (case Save (AutoSaveFaults (Worlds out 0)) (FData f) (Current c) d' of
                   (d2, r2) \<Rightarrow> (d2, map FromCli ms, map_err SavingResult r2)))
          (Run ed (Worlds out 0) (FArgs f) (flag_cli f k) d)
      else
        map_option
          (\<lambda>(c, d', ms, e). (d', map FromCli ms, case e of ReplReturned \<Rightarrow> Ok () | ReplPanicked p \<Rightarrow> Panic p))
          (RunREPL ed (Worlds out) (Stdin out) (flag_cli f k) d))"

definition main_body ::
  "ed25519 \<Rightarrow> flags \<Rightarrow> outside \<Rightarrow> disk \<Rightarrow> (disk \<times> main_message list \<times> (main_error, unit) res) option" where
  "main_body ed f out d =
     (case open_chain ed f out d of
        None \<Rightarrow> None
      | Some (d1, ms, Panic p) \<Rightarrow> Some (d1, ms, Panic p)
      | Some (d1, ms, Err e) \<Rightarrow> Some (d1, ms, Err e)
      | Some (d1, ms, Ok k) \<Rightarrow> map_option (\<lambda>(d2, ms', r). (d2, ms @ ms', r)) (serve ed f out k d1))"

section \<open>The whole program\<close>

text \<open>
  A call that never returns is not a panic: the program is then still running and holds its
  lock, no deferred call runs, and a run has no result (\<open>None\<close>).
\<close>

datatype exit = ExitNormally | ExitFatal main_error | ExitPanic panic

definition deferred_release :: "outside \<Rightarrow> string \<Rightarrow> disk \<Rightarrow> disk \<times> main_message list" where
  "deferred_release out lock d =
     (case Release (Some lock) (ReleaseFails out) d of
        (d', Err RemovingLock) \<Rightarrow> (d', [ReleaseWarning RemovingLock])
      | (d', _) \<Rightarrow> (d', []))"

definition main_program ::
  "ed25519 \<Rightarrow> flags \<Rightarrow> outside \<Rightarrow> disk \<Rightarrow> (disk \<times> main_message list \<times> exit) option" where
  "main_program ed f out d0 =
     (if DirFails out then Some (d0, [], ExitFatal CreatingDataDirectory)
      else
        (case AcquireFileLock (FData f) (Pid out) (StartTime out) (FLockTimeout f) (Rounds out) of
           None \<Rightarrow> None
         | Some (d, Panic p) \<Rightarrow> Some (d, [], ExitPanic p)
         | Some (d, Err e) \<Rightarrow> Some (d, [], ExitFatal (LockFailed e))
         | Some (d, Ok lock) \<Rightarrow>
             (case main_body ed f out d of
                None \<Rightarrow> None
              | Some (d1, ms, Err e) \<Rightarrow> Some (d1, ms, ExitFatal e)
              | Some (d1, ms, Ok _) \<Rightarrow>
                  (case deferred_release out lock d1 of (d2, ws) \<Rightarrow> Some (d2, ms @ ws, ExitNormally))
              | Some (d1, ms, Panic p) \<Rightarrow>
                  if p = EndlessLoop then None
                  else (case deferred_release out lock d1 of (d2, ws) \<Rightarrow> Some (d2, ms @ ws, ExitPanic p)))))"

section \<open>What a run leaves in the files\<close>

text \<open>The chain file is missing or holds a good chain, as the program writes it.\<close>

definition file_good :: "ed25519 \<Rightarrow> string \<Rightarrow> disk \<Rightarrow> bool" where
  "file_good ed path d \<longleftrightarrow> d path = None \<or> (\<exists>k. d path = Some (chain_bytes k) \<and> good_chain ed k \<and> utf8_chain k)"

text \<open>The files that belong to a session.\<close>

definition session_files :: "cli \<Rightarrow> string set" where
  "session_files c = {DataFile c, temporary (DataFile c), WalletFile c, temporary (WalletFile c)}"

lemma file_good_cong: "d' path = d path \<Longrightarrow> file_good ed path d \<Longrightarrow> file_good ed path d'"
  by (simp add: file_good_def)

lemma Load_good:
  assumes "file_good ed path d" "Load ed fails path d = Ok k"
  shows "good_chain ed k \<and> utf8_chain k \<and> d path = Some (chain_bytes k)"
proof -
  have "\<not> fails" "d path \<noteq> None" using assms(2) by (auto simp: Load_parsed)
  with assms(1) obtain x where x: "d path = Some (chain_bytes x)" "good_chain ed x" "utf8_chain x"
    by (auto simp: file_good_def)
  then have "san_chain x = x" by (simp add: san_chain_utf8)
  with x assms(2) \<open>\<not> fails\<close> have "k = x" by (simp add: Load_saved good_chain_Validate)
  with x show ?thesis by simp
qed

lemma file_good_Load:
  assumes "file_good ed path d"
  shows "d path \<noteq> None \<Longrightarrow> \<exists>k. Load ed False path d = Ok k \<and> good_chain ed k"
    and "case Load ed False path d of Ok k \<Rightarrow> good_chain ed k | Err e \<Rightarrow> e = FileNotExist | Panic p \<Rightarrow> False"
proof -
  have "\<exists>k. Load ed False path d = Ok k \<and> good_chain ed k" if "d path \<noteq> None"
  proof -
    from assms that obtain x where x: "d path = Some (chain_bytes x)" "good_chain ed x" "utf8_chain x"
      by (auto simp: file_good_def)
    then have "san_chain x = x" by (simp add: san_chain_utf8)
    with x show ?thesis by (simp add: Load_saved good_chain_Validate)
  qed
  then show "d path \<noteq> None \<Longrightarrow> \<exists>k. Load ed False path d = Ok k \<and> good_chain ed k"
    and "case Load ed False path d of Ok k \<Rightarrow> good_chain ed k | Err e \<Rightarrow> e = FileNotExist | Panic p \<Rightarrow> False"
    by (cases "d path"; force simp: Load_def)+
qed

lemma Save_keeps_good:
  "Save f path k d = (d', r) \<Longrightarrow> good_chain ed k \<Longrightarrow> utf8_chain k \<Longrightarrow> file_good ed path d \<Longrightarrow> file_good ed path d'"
  by (drule Save_cases) (auto simp: file_good_def)

lemma Save_others:
  assumes "Save f path k d = (d', r)" "p \<noteq> path" "p \<noteq> temporary path"
  shows "d' p = d p"
proof -
  obtain ops where ops: "save_ops f path (chain_bytes k) = (ops, r)" "d' = fold fs_apply ops d"
    using assms(1) by (auto simp: Save_def split: prod.splits)
  from save_other_files [OF ops(1) assms(2,3), of "length ops" d] ops(2) show ?thesis by simp
qed

lemma Save_keeps_file: "Save f path k d = (d', r) \<Longrightarrow> d path \<noteq> None \<Longrightarrow> d' path \<noteq> None"
  by (drule Save_cases) auto

lemma saves_only_files:
  assumes "saves_only w c k d d'"
  shows "p \<notin> session_files c \<Longrightarrow> d' p = d p"
    and "paths_ok c \<Longrightarrow> d (DataFile c) \<noteq> None \<Longrightarrow> d' (DataFile c) \<noteq> None"
    and "paths_ok c \<Longrightarrow> good_chain ed k \<Longrightarrow> utf8_chain k \<Longrightarrow> file_good ed (DataFile c) d \<Longrightarrow> file_good ed (DataFile c) d'"
proof -
  have wallet: "d' q = d q" if "save_store (WalletFaults w) (WalletFile c) s d = (d', r)"
    "q \<noteq> WalletFile c" "q \<noteq> temporary (WalletFile c)" for q s r
    using save_store_spares [OF that(1,3)] that(2) by blast
  show "d' p = d p" if "p \<notin> session_files c"
    using assms that wallet Save_others unfolding saves_only_def session_files_def by blast
  have data: "d' (DataFile c) = d (DataFile c) \<or> (\<exists>r. Save (ChainFaults w) (DataFile c) k d = (d', r))" if "paths_ok c"
    using assms that wallet [of _ _ "DataFile c"] unfolding saves_only_def paths_ok_def by metis
  show "d' (DataFile c) \<noteq> None" if "paths_ok c" "d (DataFile c) \<noteq> None"
    using data [OF that(1)] that(2) Save_keeps_file by metis
  show "file_good ed (DataFile c) d'" if "paths_ok c" "good_chain ed k" "utf8_chain k" "file_good ed (DataFile c) d"
    using data [OF that(1)] that Save_keeps_good file_good_cong by metis
qed

lemma Run_files:
  assumes "Run ed w args c d = Some (c', d', out)"
  shows "p \<notin> session_files c \<Longrightarrow> d' p = d p"
    and "paths_ok c \<Longrightarrow> d (DataFile c) \<noteq> None \<Longrightarrow> d' (DataFile c) \<noteq> None"
proof -
  have E: "d' = d \<or> saves_only w c (Current c) d d' \<or> (\<exists>k. saves_only w c k d d')"
    using Run_effect [OF assms]
  proof (elim disjE exE conjE)
    fix k sr assume "Save (ChainFaults w) (DataFile c) k d = (d', sr)"
    then have "saves_only w c k d d'" unfolding saves_only_def by blast
    then show ?thesis by blast
  qed simp_all
  show "d' p = d p" if "p \<notin> session_files c" using E saves_only_files(1) that by metis
  show "d' (DataFile c) \<noteq> None" if "paths_ok c" "d (DataFile c) \<noteq> None" using E saves_only_files(2) that by metis
qed

lemma Run_file_good:
  assumes "Run ed w args c d = Some (c', d', out)" "good_chain ed (Current c)" "utf8_chain (Current c)" "room ed w c d"
    and "\<forall>a\<in>set args. valid_utf8 a" "paths_ok c" "file_good ed (DataFile c) d"
  shows "good_chain ed (Current c') \<and> utf8_chain (Current c') \<and> file_good ed (DataFile c) d'"
proof -
  have G: "good_chain ed (Current c')" "utf8_chain (Current c')"
    using Run_good [OF assms(1,2,4)] assms(3,5) by blast+
  from Run_effect [OF assms(1)] have "file_good ed (DataFile c) d'"
  proof (elim disjE exE conjE)
    assume "saves_only w c (Current c) d d'"
    then show ?thesis using saves_only_files(3) assms(2,3,6,7) by blast
  next
    assume "d' = d"
    then show ?thesis using assms(7) by simp
  next
    fix k sr assume "c' = c\<lparr>Current := k\<rparr>" "Save (ChainFaults w) (DataFile c) k d = (d', sr)"
    then show ?thesis using Save_keeps_good [of _ _ k] G assms(7) by (metis cli.select_convs(1) cli.surjective cli.update_convs(1))
  qed
  with G show ?thesis by blast
qed

lemma autosave_cases: "DataFile c \<noteq> [] \<Longrightarrow> \<exists>r. Save (AutoSaveFaults w) (DataFile c) (Current c) d = (fst (autosave w c d), r)"
  by (auto simp: autosave_def split: prod.splits res.splits)

text \<open>A session touches only its own files, keeps the chain file and, where commands find room, keeps it good.\<close>

lemma autosave_others:
  assumes "p \<notin> session_files c"
  shows "fst (autosave w c d) p = d p"
  using autosave_cases [of c w d] Save_others [of _ "DataFile c" "Current c" d _ _ p] assms
  by (cases "DataFile c = []") (auto simp: session_files_def autosave_def)

lemma autosave_keeps_file: "d (DataFile c) \<noteq> None \<Longrightarrow> fst (autosave w c d) (DataFile c) \<noteq> None"
  using autosave_cases [of c w d] Save_keeps_file
  by (cases "DataFile c = []") (simp add: autosave_def, metis)

lemma session_files_cong:
  "DataFile c' = DataFile c \<Longrightarrow> WalletFile c' = WalletFile c \<Longrightarrow> session_files c' = session_files c"
  by (simp add: session_files_def)

lemma repl_loop_cases:
  assumes "repl_loop ed ws n (input # rest) c d = Some (c', d', ms, e)"
  obtains (leave) "c' = c" "d' = d" "TrimSpace input = ''exit'' \<or> TrimSpace input = ''quit''"
    | (blank) ms' where "TrimSpace input = []" "repl_loop ed ws (Suc n) rest c d = Some (c', d', ms', e)"
    | (run) c1 d1 out d2 where "TrimSpace input \<noteq> []" "\<not> (TrimSpace input = ''exit'' \<or> TrimSpace input = ''quit'')"
      "Run ed (ws n) (Fields (TrimSpace input)) c d = Some (c1, d1, out)"
      "d2 = (if is_Ok out then fst (autosave (ws n) c1 d1) else d1)"
      "(c', d') = (c1, d1) \<and> \<not> is_Ok out
       \<or> (\<exists>ms'. repl_loop ed ws (Suc n) rest c1 d2 = Some (c', d', ms', e)
            \<and> (repl_room ed ws n (input # rest) c d \<longrightarrow> repl_room ed ws (Suc n) rest c1 d2))"
proof -
  let ?line = "TrimSpace input"
  consider "?line = []" | "?line = ''exit'' \<or> ?line = ''quit''"
    | "?line \<noteq> []" "\<not> (?line = ''exit'' \<or> ?line = ''quit'')" by blast
  then show ?thesis
  proof cases
    case 1
    with assms blank show ?thesis by auto
  next
    case 2
    with assms leave show ?thesis by auto
  next
    case 3
    with assms obtain c1 d1 out where R: "Run ed (ws n) (Fields ?line) c d = Some (c1, d1, out)"
      by (cases "Run ed (ws n) (Fields ?line) c d") (auto simp: Let_def)
    let ?d2 = "if is_Ok out then fst (autosave (ws n) c1 d1) else d1"
    have "(c', d') = (c1, d1) \<and> \<not> is_Ok out
       \<or> (\<exists>ms'. repl_loop ed ws (Suc n) rest c1 ?d2 = Some (c', d', ms', e)
            \<and> (repl_room ed ws n (input # rest) c d \<longrightarrow> repl_room ed ws (Suc n) rest c1 ?d2))"
      using assms 3 R by (cases out) (auto simp: Let_def split: prod.splits if_splits)
    then show ?thesis using run [OF 3 R refl] by blast
  qed
qed

lemma repl_loop_files:
  assumes "repl_loop ed ws n lines c d = Some (c', d', ms, e)"
  shows "p \<notin> session_files c \<longrightarrow> d' p = d p"
    and "paths_ok c \<Longrightarrow> d (DataFile c) = None \<or> d' (DataFile c) \<noteq> None"
proof -
  have "(p \<notin> session_files c \<longrightarrow> d' p = d p) \<and> (\<not> paths_ok c \<or> d (DataFile c) = None \<or> d' (DataFile c) \<noteq> None)"
    using assms
  proof (induction lines arbitrary: n c d c' d' ms e)
    case (Cons input rest)
    from Cons.prems show ?case
    proof (cases rule: repl_loop_cases)
      case leave
      then show ?thesis by (cases "d (DataFile c)") simp_all
    next
      case (blank ms')
      from Cons.IH [OF blank(2)] show ?thesis .
    next
      case (run c1 d1 out d2)
      note F = Run_frame [OF run(3)] and R = Run_files [OF run(3)]
      have c1: "session_files c1 = session_files c" "paths_ok c1 = paths_ok c" "DataFile c1 = DataFile c"
        using F session_files_cong paths_ok_cong by blast+
      have "\<not> paths_ok c \<or> d (DataFile c) = None \<or> d1 (DataFile c) \<noteq> None" using R(2) by blast
      then have d2: "p \<notin> session_files c \<longrightarrow> d2 p = d p"
        "\<not> paths_ok c \<or> d (DataFile c) = None \<or> d2 (DataFile c) \<noteq> None"
        using R(1) run(4) autosave_others [of p c1 "ws n" d1] autosave_keeps_file [of d1 c1 "ws n"] c1 by metis+
      from run(5) show ?thesis
      proof (elim disjE exE conjE)
        assume "(c', d') = (c1, d1)" "\<not> is_Ok out"
        with d2 run(4) show ?thesis by simp
      next
        fix ms' assume "repl_loop ed ws (Suc n) rest c1 d2 = Some (c', d', ms', e)"
        from Cons.IH [OF this] d2 c1 show ?thesis by auto
      qed
    qed
  qed auto
  then show "p \<notin> session_files c \<longrightarrow> d' p = d p"
    and "paths_ok c \<Longrightarrow> d (DataFile c) = None \<or> d' (DataFile c) \<noteq> None" by blast+
qed

lemma repl_loop_file_good:
  assumes "repl_loop ed ws n lines c d = Some (c', d', ms, e)" "repl_room ed ws n lines c d" "paths_ok c"
    and "good_chain ed (Current c)" "utf8_chain (Current c)" "file_good ed (DataFile c) d"
  shows "file_good ed (DataFile c) d'"
  using assms
proof (induction lines arbitrary: n c d c' d' ms e)
  case (Cons input rest)
  from Cons.prems(1) show ?case
  proof (cases rule: repl_loop_cases)
    case leave
    with Cons.prems(6) show ?thesis by simp
  next
    case (blank ms')
    with Cons.prems(2) have "repl_room ed ws (Suc n) rest c d" by simp
    from Cons.IH [OF blank(2) this Cons.prems(3-6)] show ?thesis .
  next
    case (run c1 d1 out d2)
    have room: "room ed (ws n) c d" "\<forall>a\<in>set (Fields (TrimSpace input)). valid_utf8 a"
      using Cons.prems(2) run(1,2) by (simp_all add: Let_def)
    note G = Run_file_good [OF run(3) Cons.prems(4,5) room Cons.prems(3,6)] and F = Run_frame [OF run(3)]
    have c1: "paths_ok c1" "DataFile c1 = DataFile c" "DataFile c1 \<noteq> []"
      using F paths_ok_cong Cons.prems(3) by (auto simp: paths_ok_def)
    have "file_good ed (DataFile c1) (fst (autosave (ws n) c1 d1))"
      using autosave_cases [OF c1(3), of "ws n" d1] Save_keeps_good G c1(2) by metis
    then have d2: "file_good ed (DataFile c1) d2" using run(4) G c1(2) by simp
    from run(5) show ?thesis
    proof (elim disjE exE conjE)
      assume "(c', d') = (c1, d1)" "\<not> is_Ok out"
      with d2 run(4) c1(2) show ?thesis by simp
    next
      fix ms' assume "repl_loop ed ws (Suc n) rest c1 d2 = Some (c', d', ms', e)"
        and "repl_room ed ws n (input # rest) c d \<longrightarrow> repl_room ed ws (Suc n) rest c1 d2"
      with Cons.IH [of "Suc n" c1 d2 c' d' ms' e] Cons.prems(2) c1 G d2 show ?thesis by simp
    qed
  qed
qed simp

lemma NewWithRetarget_utf8:
  assumes "NewWithRetarget env difficulty maxTx limits retarget = Some (Ok k)"
  shows "good_chain ed k \<and> utf8_chain k"
proof -
  obtain d g r where g: "Mine env (limits\<lparr>Workers := 1\<rparr>) (genesis_block d) = Some (Ok (g, r))"
    and k: "Blocks k = [Some g]" "Pending k = []"
    using NewWithRetarget_Ok [OF assms] by (metis chain.select_convs(1,2))
  have good: "good_chain ed k" using NewWithRetarget_good [OF assms] by blast
  then obtain bs where v: "valid_chain ed k bs" by (auto simp: good_chain_def)
  then have "map Some bs = map Some [g]" using k(1) by (simp add: valid_chain_def)
  then have "bs = [g]" by (simp only: inj_map_eq_map [OF inj_Some])
  moreover have "Transactions g = []" using mn.sealed_fields [OF g] by (simp add: genesis_block_def)
  ultimately show ?thesis using valid_chain_utf8 [OF v] k(2) good by simp
qed

lemma create_chain_files:
  assumes "create_chain f out d = Some (d', ms, r)"
  shows "(p \<noteq> FData f \<and> p \<noteq> temporary (FData f) \<longrightarrow> d' p = d p)
    \<and> (file_good ed (FData f) d \<longrightarrow> file_good ed (FData f) d')
    \<and> (\<forall>k. r = Ok k \<longrightarrow> good_chain ed k \<and> utf8_chain k \<and> d' (FData f) = Some (chain_bytes k))"
proof -
  from assms obtain n where n: "NewWithRetarget (GenesisEnv out) (FDifficulty f) (FMaxTx f) (flag_limits f) (flag_retarget f) = Some n"
    by (auto simp: create_chain_def)
  show ?thesis
  proof (cases n)
    case (Ok k)
    obtain d1 r1 where sv: "Save (NewFaults out) (FData f) k d = (d1, r1)" by (cases "Save (NewFaults out) (FData f) k d")
    have k: "good_chain ed k" "utf8_chain k" using NewWithRetarget_utf8 n Ok by blast+
    have d': "d' = d1" "\<And>x. r = Ok x \<Longrightarrow> x = k \<and> r1 = Ok ()"
      using assms n Ok sv by (auto simp: create_chain_def bind_res_eq_Ok)
    show ?thesis
    proof (intro conjI impI allI)
      show "d' p = d p" if "p \<noteq> FData f \<and> p \<noteq> temporary (FData f)" using Save_others [OF sv] that d'(1) by blast
      show "file_good ed (FData f) d'" if "file_good ed (FData f) d" using Save_keeps_good [OF sv k that] d'(1) by simp
      fix x assume "r = Ok x"
      then have x: "x = k" "r1 = Ok ()" using d'(2) by blast+
      then show "good_chain ed x" "utf8_chain x" "d' (FData f) = Some (chain_bytes x)"
        using k Save_cases [OF sv] d'(1) by auto
    qed
  qed (use assms n in \<open>auto simp: create_chain_def\<close>)
qed

text \<open>Functions of the source without an error result can only return or panic.\<close>

definition cannot_fail :: "('e, 'a) res \<Rightarrow> bool" where
  "cannot_fail r \<longleftrightarrow> (\<forall>e. r \<noteq> Err e)"

lemma cannot_fail_simps [simp]:
  "cannot_fail (Ok v)" "cannot_fail (Panic p)" "\<not> cannot_fail (Err e)" "cannot_fail (index_at xs i)" "cannot_fail (deref q)"
  "cannot_fail (smod_res x y)"
  by (simp_all add: cannot_fail_def index_at_def deref_def smod_res_def split: option.split)

lemma cannot_fail_bind: "cannot_fail r \<Longrightarrow> (\<And>x. cannot_fail (f x)) \<Longrightarrow> cannot_fail (bind_res r f)"
  by (cases r) simp_all

lemma cannot_fail_retarget: "cannot_fail (retargetDifficulty c h cur)" "cannot_fail (shouldRetarget c h)"
  by (auto simp: retargetDifficulty_def shouldRetarget_def Let_def intro!: cannot_fail_bind)

lemma cannot_fail_next:
  assumes "(case s of Ok x \<Rightarrow> f x | Err e \<Rightarrow> Some (Err e) | Panic p \<Rightarrow> Some (Panic p)) = Some r"
    and "cannot_fail s" "\<And>x. f x = Some r \<Longrightarrow> cannot_fail r"
  shows "cannot_fail r"
  using assms by (cases s) auto

lemma cannot_fail_height_loop:
  assumes "height_loop c height h rules cur = Some (r :: ('e, i64) res)"
  shows "cannot_fail r"
proof (rule height_loop.raw_induct [where P = "\<lambda>_ _ _ _ _ r. cannot_fail r", OF _ assms])
  fix loop :: "chain \<Rightarrow> i64 \<Rightarrow> i64 \<Rightarrow> difficulty_rule list \<Rightarrow> i64 \<Rightarrow> ('e, i64) res option"
    and c height h rules cur and r :: "('e, i64) res"
  assume IH: "\<And>c height h rules cur r. loop c height h rules cur = Some r \<Longrightarrow> cannot_fail r"
    and step: "(if sint height < sint h then Some (Ok cur)
      else
        (case manual_rules h rules cur False of
           (current', applied, rules') \<Rightarrow>
             (case (if applied then Ok current'
                    else bind_res (shouldRetarget c h)
                           (\<lambda>due. if due then retargetDifficulty c h current' else Ok current')) of
                Ok next \<Rightarrow> loop c height (h + 1) rules' next
              | Err e \<Rightarrow> Some (Err e)
              | Panic p \<Rightarrow> Some (Panic p)))) = Some r"
  obtain cur' applied rules' where m: "manual_rules h rules cur False = (cur', applied, rules')"
    by (cases "manual_rules h rules cur False") auto
  show "cannot_fail r"
  proof (cases "sint height < sint h")
    case True
    with step show ?thesis by auto
  next
    case False
    let ?next = "if applied then Ok cur'
      else bind_res (shouldRetarget c h) (\<lambda>due. if due then retargetDifficulty c h cur' else Ok cur') :: ('e, i64) res"
    have "cannot_fail ?next" by (auto intro!: cannot_fail_bind simp: cannot_fail_retarget)
    moreover have "(case ?next of Ok x \<Rightarrow> loop c height (h + 1) rules' x
        | Err e \<Rightarrow> Some (Err e) | Panic p \<Rightarrow> Some (Panic p)) = Some r"
      using step by (simp only: m prod.case if_not_P [OF False])
    ultimately show ?thesis using cannot_fail_next IH by blast
  qed
qed

lemma cannot_fail_expected: "cannot_fail (ExpectedDifficulty c h :: ('e, i64) res)"
  by (auto simp: ExpectedDifficulty_def cannot_fail_height_loop intro!: cannot_fail_bind split: option.split prod.split)

lemma cannot_fail_loaded: "cannot_fail (loaded_messages f k)"
  by (auto simp: loaded_messages_def latest_block_def Latest_def cannot_fail_expected
      intro!: cannot_fail_bind split: prod.split)

lemma open_chain_cases:
  assumes "open_chain ed f out d = Some (d', ms, r)"
  shows "create_chain f out d = Some (d', ms, r)
    \<or> d' = d \<and> ((\<exists>k. r = Ok k \<and> Load ed (LoadFails out) (FData f) d = Ok k)
               \<or> (\<exists>e. r = Err e \<and> (\<forall>x. e = LoadFailed x \<longrightarrow> Load ed (LoadFails out) (FData f) d = Err x \<and> x \<noteq> FileNotExist))
               \<or> (\<exists>p. r = Panic p))"
  using assms cannot_fail_loaded [of f] by (auto simp: open_chain_def cannot_fail_def split: if_splits res.splits)

lemma open_chain_files:
  assumes "open_chain ed f out d = Some (d', ms, r)"
  shows "p \<noteq> FData f \<and> p \<noteq> temporary (FData f) \<Longrightarrow> d' p = d p"
    and "r = Ok k \<Longrightarrow> d' (FData f) \<noteq> None"
    and "file_good ed (FData f) d \<Longrightarrow> file_good ed (FData f) d' \<and> (r = Ok k \<longrightarrow> good_chain ed k \<and> utf8_chain k)"
  using open_chain_cases [OF assms] create_chain_files [of f out d d' ms r] Load_good [of ed "FData f" d]
  by (auto simp: Load_parsed)

lemma flag_cli_sel [simp]:
  "Current (flag_cli f k) = k" "DataFile (flag_cli f k) = FData f" "WalletFile (flag_cli f k) = FWallets f"
  by (simp_all add: flag_cli_def)

lemma serve_cases:
  assumes "serve ed f out k d = Some (d', ms, r)"
  obtains (command) c d1 rr where "FArgs f \<noteq> []" "Run ed (Worlds out 0) (FArgs f) (flag_cli f k) d = Some (c, d1, rr)"
      "d' = (if is_Ok rr then fst (Save (AutoSaveFaults (Worlds out 0)) (FData f) (Current c) d1) else d1)"
    | (interactive) c ms' e where "FArgs f = []" "RunREPL ed (Worlds out) (Stdin out) (flag_cli f k) d = Some (c, d', ms', e)"
proof (cases "FArgs f = []")
  case True
  with assms interactive show ?thesis by (auto simp: serve_def)
next
  case False
  with assms obtain c d1 rr where R: "Run ed (Worlds out 0) (FArgs f) (flag_cli f k) d = Some (c, d1, rr)"
    by (auto simp: serve_def)
  moreover have "d' = (if is_Ok rr then fst (Save (AutoSaveFaults (Worlds out 0)) (FData f) (Current c) d1) else d1)"
    using assms False R by (cases rr) (auto simp: serve_def split: prod.splits)
  ultimately show ?thesis using command False by blast
qed

text \<open>What the commands of a run find when they start, as in \<open>room\<close> and \<open>repl_room\<close>.\<close>

definition program_room :: "ed25519 \<Rightarrow> flags \<Rightarrow> outside \<Rightarrow> disk \<Rightarrow> bool" where
  "program_room ed f out d \<longleftrightarrow>
     (\<forall>d1 ms k. open_chain ed f out d = Some (d1, ms, Ok k) \<longrightarrow>
        (if FArgs f \<noteq> [] then room ed (Worlds out 0) (flag_cli f k) d1 \<and> (\<forall>a\<in>set (FArgs f). valid_utf8 a)
         else repl_room ed (Worlds out) 0 (scan_lines (Stdin out)) (flag_cli f k) d1))"

lemma RunREPL_loop:
  "RunREPL ed ws input c d = Some (c', d', ms, e) \<Longrightarrow> \<exists>ms'. repl_loop ed ws 0 (scan_lines input) c d = Some (c', d', ms', e)"
  by (auto simp: RunREPL_def)

lemma serve_files:
  assumes "serve ed f out k d = Some (d', ms, r)"
  shows "p \<notin> session_files (flag_cli f k) \<Longrightarrow> d' p = d p"
    and "paths_ok (flag_cli f k) \<Longrightarrow> d (FData f) \<noteq> None \<Longrightarrow> d' (FData f) \<noteq> None"
proof -
  let ?c = "flag_cli f k"
  have "(p \<notin> session_files ?c \<longrightarrow> d' p = d p) \<and> (\<not> paths_ok ?c \<or> d (FData f) = None \<or> d' (FData f) \<noteq> None)"
    using assms
  proof (cases rule: serve_cases)
    case (command c d1 rr)
    obtain d2 r2 where sv: "Save (AutoSaveFaults (Worlds out 0)) (FData f) (Current c) d1 = (d2, r2)"
      by (cases "Save (AutoSaveFaults (Worlds out 0)) (FData f) (Current c) d1")
    note R = Run_files [OF command(2)]
    have "p \<notin> session_files ?c \<longrightarrow> d2 p = d1 p" using Save_others [OF sv, of p] by (auto simp: session_files_def)
    moreover have "d1 (FData f) = None \<or> d2 (FData f) \<noteq> None" using Save_keeps_file [OF sv] by blast
    moreover have "\<not> paths_ok ?c \<or> d (FData f) = None \<or> d1 (FData f) \<noteq> None" using R(2) unfolding flag_cli_sel by blast
    moreover have "d' = d2 \<or> d' = d1" using command(3) sv by simp
    ultimately show ?thesis using R(1) by metis
  next
    case (interactive c ms' e)
    then obtain ms'' where "repl_loop ed (Worlds out) 0 (scan_lines (Stdin out)) ?c d = Some (c, d', ms'', e)"
      using RunREPL_loop by blast
    from repl_loop_files [OF this] show ?thesis by auto
  qed
  note both = this
  show "d' p = d p" if "p \<notin> session_files ?c" using both that by blast
  show "d' (FData f) \<noteq> None" if "paths_ok ?c" "d (FData f) \<noteq> None" using both that by blast
qed

lemma serve_file_good:
  assumes "serve ed f out k d = Some (d', ms, r)" "paths_ok (flag_cli f k)" "good_chain ed k" "utf8_chain k"
    and "file_good ed (FData f) d"
    and "if FArgs f \<noteq> [] then room ed (Worlds out 0) (flag_cli f k) d \<and> (\<forall>a\<in>set (FArgs f). valid_utf8 a)
         else repl_room ed (Worlds out) 0 (scan_lines (Stdin out)) (flag_cli f k) d"
  shows "file_good ed (FData f) d'"
  using assms(1)
proof (cases rule: serve_cases)
  case (command c d1 rr)
  obtain d2 r2 where sv: "Save (AutoSaveFaults (Worlds out 0)) (FData f) (Current c) d1 = (d2, r2)"
    by (cases "Save (AutoSaveFaults (Worlds out 0)) (FData f) (Current c) d1")
  have "good_chain ed (Current c) \<and> utf8_chain (Current c) \<and> file_good ed (FData f) d1"
    using Run_file_good [OF command(2)] assms(2-6) command(1) by simp
  moreover from this have "file_good ed (FData f) d2" using Save_keeps_good [OF sv] by blast
  ultimately show ?thesis using command(3) sv by simp
next
  case (interactive c ms' e)
  then obtain ms'' where L: "repl_loop ed (Worlds out) 0 (scan_lines (Stdin out)) (flag_cli f k) d = Some (c, d', ms'', e)"
    using RunREPL_loop by blast
  from repl_loop_file_good [OF this] assms(2-6) interactive(1) show ?thesis by simp
qed

lemma main_body_cases:
  assumes "main_body ed f out d = Some (d', ms, r)"
  obtains (stopped) r0 where "open_chain ed f out d = Some (d', ms, r0)" "\<forall>k. r0 \<noteq> Ok k" "\<not> is_Ok r"
      "\<forall>e. r = Err e \<longrightarrow> r0 = Err e"
    | (served) d1 ms1 k ms2 where "open_chain ed f out d = Some (d1, ms1, Ok k)" "serve ed f out k d1 = Some (d', ms2, r)"
  using assms by (auto simp: main_body_def split: option.splits prod.splits res.splits)

definition flag_paths_ok :: "flags \<Rightarrow> bool" where
  "flag_paths_ok f \<longleftrightarrow> FData f \<noteq> [] \<and> FWallets f \<noteq> FData f \<and> temporary (FWallets f) \<noteq> FData f"

lemma paths_ok_flags [simp]: "paths_ok (flag_cli f k) = flag_paths_ok f"
  by (simp add: paths_ok_def flag_paths_ok_def)

lemma main_body_files:
  assumes "main_body ed f out d = Some (d', ms, r)"
  shows "p \<notin> {FData f, temporary (FData f), FWallets f, temporary (FWallets f)} \<Longrightarrow> d' p = d p"
    and "flag_paths_ok f \<Longrightarrow> is_Ok r \<Longrightarrow> d' (FData f) \<noteq> None"
    and "flag_paths_ok f \<Longrightarrow> file_good ed (FData f) d \<Longrightarrow> program_room ed f out d \<Longrightarrow> file_good ed (FData f) d'"
proof -
  show "d' p = d p" if "p \<notin> {FData f, temporary (FData f), FWallets f, temporary (FWallets f)}"
    using assms
  proof (cases rule: main_body_cases)
    case (stopped r0)
    then show ?thesis using open_chain_files(1) [OF stopped(1)] that by blast
  next
    case (served d1 ms1 k ms2)
    then show ?thesis using open_chain_files(1) [OF served(1), of p] serve_files(1) [OF served(2), of p] that
      by (simp add: session_files_def)
  qed
  show "d' (FData f) \<noteq> None" if "flag_paths_ok f" "is_Ok r"
    using assms
  proof (cases rule: main_body_cases)
    case (served d1 ms1 k ms2)
    then show ?thesis using open_chain_files(2) [OF served(1) refl] serve_files(2) [OF served(2)] that(1) by simp
  qed (use that in blast)
  show "file_good ed (FData f) d'" if "flag_paths_ok f" "file_good ed (FData f) d" "program_room ed f out d"
    using assms
  proof (cases rule: main_body_cases)
    case (stopped r0)
    then show ?thesis using open_chain_files(3) [OF stopped(1) that(2)] by blast
  next
    case (served d1 ms1 k ms2)
    have g: "file_good ed (FData f) d1" "good_chain ed k" "utf8_chain k"
      using open_chain_files(3) [OF served(1) that(2), of k] by simp_all
    have "if FArgs f \<noteq> [] then room ed (Worlds out 0) (flag_cli f k) d1 \<and> (\<forall>a\<in>set (FArgs f). valid_utf8 a)
         else repl_room ed (Worlds out) 0 (scan_lines (Stdin out)) (flag_cli f k) d1"
      using that(3) served(1) unfolding program_room_def by blast
    with serve_file_good [OF served(2) _ g(2,3,1)] that(1) show ?thesis by simp
  qed
qed

lemma serve_not_loading:
  assumes "serve ed f out k d = Some (d', ms, r)"
  shows "r \<noteq> Err (LoadFailed x)"
proof (cases "FArgs f = []")
  case True
  with assms obtain e where "r = (case e of ReplReturned \<Rightarrow> Ok () | ReplPanicked p \<Rightarrow> Panic p)" by (auto simp: serve_def)
  then show ?thesis by (cases e) simp_all
next
  case False
  with assms obtain c d1 rr where "Run ed (Worlds out 0) (FArgs f) (flag_cli f k) d = Some (c, d1, rr)"
    by (auto simp: serve_def)
  with False assms show ?thesis by (cases rr) (auto simp: serve_def map_err_eq_Err split: prod.splits)
qed

lemma main_body_load_failed:
  assumes "main_body ed f out d = Some (d', ms, Err (LoadFailed x))" "file_good ed (FData f) d"
  shows "LoadFails out"
  using assms(1)
proof (cases rule: main_body_cases)
  case (stopped r0)
  then have "open_chain ed f out d = Some (d', ms, Err (LoadFailed x))" by simp
  moreover have "create_chain f out d \<noteq> Some (d', ms, Err (LoadFailed x))"
    by (auto simp: create_chain_def bind_res_eq_Err map_err_eq_Err split: res.splits prod.splits)
  ultimately have L: "Load ed (LoadFails out) (FData f) d = Err x" "x \<noteq> FileNotExist"
    using open_chain_cases by fastforce+
  show ?thesis
  proof (rule ccontr)
    assume "\<not> LoadFails out"
    with L file_good_Load(2) [OF assms(2)] show False by simp
  qed
next
  case (served d1 ms1 k ms2)
  with serve_not_loading [OF served(2), of x] show ?thesis by simp
qed

lemma acquire_loop_disk:
  assumes "acquire_loop path pid deadline rounds = Some (d', r)"
  shows "\<exists>(d, fails, now)\<in>set rounds.
      (\<exists>e. r = Err e \<and> d' = d) \<or> r = Ok (lock_path path) \<and> d (lock_path path) = None \<and> d' = d(lock_path path \<mapsto> pid_line pid)"
  using assms
proof (induction rounds)
  case (Cons x rounds)
  obtain d fails now where x: "x = (d, fails, now)" by (cases x)
  with Cons show ?case by (cases "d (lock_path path)") (auto simp: acquire_round_cases split: if_splits)
qed simp

lemma lock_path_apart [simp]:
  "lock_path path \<noteq> path" "path \<noteq> lock_path path" "lock_path path \<noteq> temporary q" "temporary q \<noteq> lock_path path"
proof -
  have "last (lock_path path) \<noteq> last (temporary q)" by (simp add: lock_path_def temporary_def)
  then show "lock_path path \<noteq> temporary q" "temporary q \<noteq> lock_path path" by metis+
qed (simp_all add: lock_path_def)

lemma deferred_release_eq:
  assumes "d lock = Some s"
  shows "deferred_release out lock d
    = (if ReleaseFails out then (d, [ReleaseWarning RemovingLock]) else (d(lock := None), []))"
  using assms by (simp add: deferred_release_def Release_def)

text \<open>How a whole run ends.\<close>

lemma main_program_cases:
  assumes "main_program ed f out d0 = Some (d', ms, exit)"
  obtains (nodir) "d' = d0" "exit = ExitFatal CreatingDataDirectory"
    | (refused) d fails now e where "(d, fails, now) \<in> set (Rounds out)" "d' = d" "exit = ExitFatal (LockFailed e)"
    | (ran) d fails now d1 ms1 r where "(d, fails, now) \<in> set (Rounds out)" "d (lock_path (FData f)) = None"
        "main_body ed f out (d(lock_path (FData f) \<mapsto> pid_line (Pid out))) = Some (d1, ms1, r)"
        "(\<exists>e. r = Err e \<and> exit = ExitFatal e \<and> d' = d1)
         \<or> ((r = Ok () \<and> exit = ExitNormally \<or> (\<exists>p. r = Panic p \<and> exit = ExitPanic p \<and> p \<noteq> EndlessLoop))
            \<and> (d', ms) = (case deferred_release out (lock_path (FData f)) d1 of (d2, ws) \<Rightarrow> (d2, ms1 @ ws)))"
proof (cases "DirFails out")
  case True
  with assms nodir show ?thesis by (simp add: main_program_def)
next
  case False
  let ?lock = "lock_path (FData f)"
  from False assms obtain da ra where
    A: "AcquireFileLock (FData f) (Pid out) (StartTime out) (FLockTimeout f) (Rounds out) = Some (da, ra)"
    by (auto simp: main_program_def split: option.splits)
  obtain d fails now where d: "(d, fails, now) \<in> set (Rounds out)"
    "(\<exists>e. ra = Err e \<and> da = d) \<or> ra = Ok ?lock \<and> d ?lock = None \<and> da = d(?lock \<mapsto> pid_line (Pid out))"
    using acquire_loop_disk [OF A [unfolded AcquireFileLock_def]] by blast
  from d(2) show ?thesis
  proof (elim disjE exE conjE)
    fix e assume "ra = Err e" "da = d"
    with False assms A d(1) show ?thesis by (intro refused [of d fails now e]) (auto simp: main_program_def)
  next
    assume ok: "ra = Ok ?lock" "d ?lock = None" "da = d(?lock \<mapsto> pid_line (Pid out))"
    with False assms A obtain d1 ms1 r where body: "main_body ed f out da = Some (d1, ms1, r)"
      by (auto simp: main_program_def split: option.splits)
    have "(\<exists>e. r = Err e \<and> exit = ExitFatal e \<and> d' = d1)
         \<or> ((r = Ok () \<and> exit = ExitNormally \<or> (\<exists>p. r = Panic p \<and> exit = ExitPanic p \<and> p \<noteq> EndlessLoop))
            \<and> (d', ms) = (case deferred_release out ?lock d1 of (d2, ws) \<Rightarrow> (d2, ms1 @ ws)))"
      using False assms A ok(1) body by (cases r) (auto simp: main_program_def split: prod.splits if_splits)
    with body ok d(1) ran show ?thesis by blast
  qed
qed

section \<open>Properties\<close>

text \<open>
  C7. A run keeps the chain file good. The conditions: the chain and wallet paths are distinct,
  the file is missing or holds a good chain whenever a round of the lock is tried, and the
  commands find room (\<open>program_room\<close>: when a command starts, the clock is not behind the last
  block, the lists that it extends have their lengths in range, and the arguments are UTF-8). Then
  whatever calls fail during the run, and whichever way it ends, the file is missing or
  holds a complete good chain, and the next start loads it; after a normal exit there is
  such a chain; and a run can only fail to load the file because reading it failed.
\<close>

theorem program_keeps_file:
  assumes "main_program ed f out d0 = Some (d', ms, exit)" "flag_paths_ok f" "file_good ed (FData f) d0"
    and "\<forall>(d, fails, now)\<in>set (Rounds out). file_good ed (FData f) d
           \<and> program_room ed f out (d(lock_path (FData f) \<mapsto> pid_line (Pid out)))"
  shows "file_good ed (FData f) d'
    \<and> (case Load ed False (FData f) d' of Ok k \<Rightarrow> good_chain ed k | Err e \<Rightarrow> e = FileNotExist | Panic p \<Rightarrow> False)
    \<and> (exit = ExitNormally \<longrightarrow> is_Ok (Load ed False (FData f) d'))
    \<and> (\<forall>x. exit = ExitFatal (LoadFailed x) \<longrightarrow> LoadFails out)"
proof -
  have "file_good ed (FData f) d' \<and> (exit = ExitNormally \<longrightarrow> d' (FData f) \<noteq> None)
      \<and> (\<forall>x. exit = ExitFatal (LoadFailed x) \<longrightarrow> LoadFails out)"
    using assms(1)
  proof (cases rule: main_program_cases)
    case nodir
    with assms(3) show ?thesis by simp
  next
    case (refused d fails now e)
    with assms(4) show ?thesis by auto
  next
    case (ran d fails now d1 ms1 r)
    let ?d = "d(lock_path (FData f) \<mapsto> pid_line (Pid out))"
    have d: "file_good ed (FData f) ?d" "program_room ed f out ?d"
      using assms(4) ran(1) file_good_cong [of ?d "FData f" d] by auto
    have g: "file_good ed (FData f) d1" using main_body_files(3) [OF ran(3) assms(2) d] .
    have same: "d' (FData f) = d1 (FData f)"
      using ran(4) by (auto simp: deferred_release_def Release_def split: option.splits if_splits)
    then have "file_good ed (FData f) d'" using g file_good_cong by blast
    moreover have "d' (FData f) \<noteq> None" if "exit = ExitNormally"
    proof -
      have "is_Ok r" using ran(4) that by auto
      then show ?thesis using main_body_files(2) [OF ran(3) assms(2)] same by simp
    qed
    moreover have "LoadFails out" if "exit = ExitFatal (LoadFailed x)" for x
    proof -
      have "r = Err (LoadFailed x)" using ran(4) that by auto
      then show ?thesis using main_body_load_failed [of ed f out ?d d1 ms1 x] ran(3) d(1) by simp
    qed
    ultimately show ?thesis by blast
  qed
  moreover from this have "(case Load ed False (FData f) d' of Ok k \<Rightarrow> good_chain ed k | Err e \<Rightarrow> e = FileNotExist | Panic p \<Rightarrow> False)"
    using file_good_Load(2) by blast
  moreover have "is_Ok (Load ed False (FData f) d')" if "d' (FData f) \<noteq> None"
    using file_good_Load(1) [of ed "FData f" d'] calculation that by auto
  ultimately show ?thesis by blast
qed

subsection \<open>A sample run\<close>

definition demo_flags :: flags where
  "demo_flags = default_flags
     \<lparr>FDifficulty := 0, FMaxTx := 10, FData := ''chain.json'', FWallets := ''wallets.json'',
      FMaxAttempts := 0, FMaxNonce := 0, FWorkers := 1, FRetarget := False, FInterval := 5,
      FTargetBlockTime := 5000000000, FMinDifficulty := 0, FMaxDifficulty := 8,
      FArgs := [''faucet'', ''alice'', ''5'']\<rparr>"

definition demo_outside :: outside where
  "demo_outside =
     \<lparr>GenesisEnv = quick_env, LoadFails = False, NewFaults = no_faults, Worlds = \<lambda>_. demo_world, Stdin = [],
      DirFails = False, Pid = 7, StartTime = 0, Rounds = [(Map.empty, False, 1)], ReleaseFails = False\<rparr>"

lemma demo_flag_fields:
  "FData demo_flags = ''chain.json''" "FArgs demo_flags = [''faucet'', ''alice'', ''5'']" "FDifficulty demo_flags = 0"
  "FMaxTx demo_flags = 10" "flag_limits demo_flags = quick_limits" "flag_retarget demo_flags = demo_retarget"
  "sint (FTargetBlockTime demo_flags) = 5000000000" "flag_cli demo_flags demo_chain = demo_cli" "flag_paths_ok demo_flags"
  by (simp_all add: demo_flags_def flag_limits_def flag_retarget_def demo_retarget_def quick_limits_def flag_cli_def
      demo_cli_def flag_paths_ok_def temporary_def sdiv64_def trunc_quot_def default_flags_def)

lemma demo_outside_fields:
  "GenesisEnv demo_outside = quick_env" "\<not> LoadFails demo_outside" "NewFaults demo_outside = no_faults"
  "Worlds demo_outside n = demo_world" "\<not> DirFails demo_outside" "Pid demo_outside = 7" "StartTime demo_outside = 0"
  "Rounds demo_outside = [(Map.empty, False, 1)]" "\<not> ReleaseFails demo_outside"
  by (simp_all add: demo_outside_def)

definition demo_locked :: disk where
  "demo_locked = [lock_path ''chain.json'' \<mapsto> pid_line 7]"

lemma demo_open:
  "open_chain ed demo_flags demo_outside demo_locked
    = Some ((demo_locked(''chain.json'' \<mapsto> chain_bytes demo_chain))(temporary ''chain.json'' := None),
        [CreatedChain ''chain.json'' 0 (FWorkers demo_flags) (FRetarget demo_flags)], Ok demo_chain)"
proof -
  have "RetargetConfig_Validate demo_retarget = Ok ()"
    by (simp add: RetargetConfig_Validate_def demo_retarget_def)
  moreover have "Load ed False ''chain.json'' demo_locked = Err FileNotExist"
    by (simp add: Load_def demo_locked_def lock_path_def)
  ultimately show ?thesis
    by (simp add: open_chain_def create_chain_def demo_flag_fields demo_outside_def demo_chain_new Save_works)
qed

lemma parse_pid: "parse_json (CHR ''p'' # s) = None"
  by (simp add: parse_json_def skip_ws_def is_ws_def num_char_def is_digit_def byte_def HasPrefix_def)

lemma demo_program_room: "program_room plain_ed25519 demo_flags demo_outside demo_locked"
proof -
  let ?d = "(demo_locked(''chain.json'' \<mapsto> chain_bytes demo_chain))(temporary ''chain.json'' := None)"
  have "length (Blocks k) < 2 ^ 63" if L: "Load plain_ed25519 fails path ?d = Ok k" for fails path k
  proof -
    from L obtain data j where data: "?d path = Some data" "parse_json data = Some j" "\<not> fails"
      by (auto simp: Load_parsed)
    have "path \<noteq> lock_path ''chain.json''"
    proof
      assume "path = lock_path ''chain.json''"
      with data(1) have "data = pid_line 7" by (simp add: demo_locked_def split: if_splits)
      then have "data = CHR ''p'' # tl (pid_line 7)" by (simp add: pid_line_def)
      with data(2) parse_pid [of "tl (pid_line 7)"] show False by simp
    qed
    with data(1) have p: "path = ''chain.json''" by (auto simp: demo_locked_def split: if_splits)
    have "utf8_chain demo_chain" using demo_pooled_utf8 by (simp add: utf8_chain_def demo_pooled_def demo_chain_def)
    then have "Load plain_ed25519 False ''chain.json'' ?d = Ok demo_chain"
      using Load_saved [of ?d "''chain.json''" demo_chain plain_ed25519] good_chain_Validate [OF demo_chain_good]
      by (simp add: san_chain_utf8)
    then have "k = demo_chain" using L p data(3) by simp
    then show ?thesis by (simp add: demo_chain_def)
  qed
  then have "room plain_ed25519 demo_world demo_cli ?d"
    by (auto simp: room_def demo_world_def demo_cli_def clock_ok_def quick_env_def demo_chain_def)
  then show ?thesis
    by (simp add: program_room_def demo_open demo_flag_fields) (simp add: demo_outside_def ascii_def byte_def)
qed

theorem program_keeps_file_witness:
  "\<exists>d' ms. main_program plain_ed25519 demo_flags demo_outside Map.empty = Some (d', ms, ExitNormally)
     \<and> is_Ok (Load plain_ed25519 False ''chain.json'' d')"
proof -
  have acq: "AcquireFileLock ''chain.json'' 7 0 t [(Map.empty, False, 1)] = Some (demo_locked, Ok (lock_path ''chain.json''))" for t
    by (simp add: AcquireFileLock_def acquire_round_cases demo_locked_def)
  let ?d = "(demo_locked(''chain.json'' \<mapsto> chain_bytes demo_chain))(temporary ''chain.json'' := None)"
  obtain d2 ms2 where "serve plain_ed25519 demo_flags demo_outside demo_chain ?d = Some (d2, ms2, Ok ())"
    by (simp add: serve_def demo_flag_fields demo_outside_fields demo_faucet Save_works)
       (simp add: demo_world_def Save_works)
  then have "\<exists>ms. main_body plain_ed25519 demo_flags demo_outside demo_locked = Some (d2, ms, Ok ())"
    by (simp add: main_body_def demo_open)
  then have "\<exists>d' ms. main_program plain_ed25519 demo_flags demo_outside Map.empty = Some (d', ms, ExitNormally)"
    by (cases "deferred_release demo_outside (lock_path ''chain.json'') d2")
       (auto simp: main_program_def demo_flag_fields demo_outside_fields acq)
  then obtain d' ms where run: "main_program plain_ed25519 demo_flags demo_outside Map.empty = Some (d', ms, ExitNormally)" by blast
  have "file_good plain_ed25519 (FData demo_flags) Map.empty" by (simp add: file_good_def)
  moreover have "Map.empty(lock_path (FData demo_flags) \<mapsto> pid_line (Pid demo_outside)) = demo_locked"
    by (simp add: demo_locked_def demo_flag_fields demo_outside_def)
  ultimately have "is_Ok (Load plain_ed25519 False (FData demo_flags) d')"
    using program_keeps_file [OF run demo_flag_fields(9)] demo_program_room by (simp add: demo_outside_def)
  with run show ?thesis by (auto simp: demo_flag_fields)
qed

text \<open>
  C18. What a run that ends leaves of its lock: after returning from \<open>main\<close>, or panicking, the
  lock file is gone, unless removing it failed, which is reported; but after \<open>fatal\<close> it is still
  there with the process id in it, and from then on no acquisition succeeds while nobody
  removes it. (A run that hangs has no result in \<open>main_program\<close>: it keeps its lock.)
\<close>

theorem lock_after_exit:
  assumes "main_program ed f out d0 = Some (d', ms, exit)" "FWallets f \<noteq> lock_path (FData f)"
  shows "case exit of
      ExitFatal e \<Rightarrow> e = CreatingDataDirectory \<or> (\<exists>x. e = LockFailed x)
        \<or> d' (lock_path (FData f)) = Some (pid_line (Pid out))
          \<and> (\<forall>pid start timeout rounds d2 l.
               (\<forall>(d, fails, now)\<in>set rounds. d (lock_path (FData f)) = d' (lock_path (FData f))) \<longrightarrow>
               AcquireFileLock (FData f) pid start timeout rounds \<noteq> Some (d2, Ok l))
    | _ \<Rightarrow> if ReleaseFails out then d' (lock_path (FData f)) = Some (pid_line (Pid out)) \<and> ReleaseWarning RemovingLock \<in> set ms
          else d' (lock_path (FData f)) = None"
  using assms(1)
proof (cases rule: main_program_cases)
  case (ran d fails now d1 ms1 r)
  let ?lock = "lock_path (FData f)"
  have l: "d1 ?lock = Some (pid_line (Pid out))"
    using main_body_files(1) [OF ran(3), of ?lock] assms(2) by auto
  have out: "AcquireFileLock (FData f) pid start timeout rounds \<noteq> Some (d2, Ok l)"
    if "\<forall>(d, fails, now)\<in>set rounds. d ?lock = d1 ?lock" for pid start timeout rounds d2 l
  proof
    assume "AcquireFileLock (FData f) pid start timeout rounds = Some (d2, Ok l)"
    from acquire_loop_disk [OF this [unfolded AcquireFileLock_def]] that \<open>d1 ?lock = _\<close> show False by fastforce
  qed
  from ran(4) show ?thesis
  proof (elim disjE exE conjE)
    fix e assume "r = Err e" "exit = ExitFatal e" "d' = d1"
    with out l show ?thesis by auto
  qed (simp_all add: deferred_release_eq [of d1, OF l] l split: if_splits)
qed simp_all

theorem lock_after_exit_witness:
  "\<forall>d2 l. AcquireFileLock ''chain.json'' 8 10 5 [(demo_locked, False, 11), (demo_locked, False, 16)] \<noteq> Some (d2, Ok l)"
proof -
  let ?f = "demo_flags\<lparr>FTargetBlockTime := 0\<rparr>"
  have data: "FData ?f = ''chain.json''" "FWallets ?f \<noteq> lock_path (FData ?f)"
    by (simp_all add: demo_flags_def default_flags_def lock_path_def)
  have "AcquireFileLock ''chain.json'' 7 0 t [(Map.empty, False, 1)] = Some (demo_locked, Ok (lock_path ''chain.json''))" for t
    by (simp add: AcquireFileLock_def acquire_round_cases demo_locked_def)
  then have "main_program plain_ed25519 ?f demo_outside Map.empty = Some (demo_locked, [], ExitFatal TargetTooShort)"
    by (simp add: main_program_def main_body_def open_chain_def demo_outside_def data(1))
  from lock_after_exit [OF this data(2)] show ?thesis by (auto simp: data(1))
qed

end
