(* ===== verification/Spec2Isabelle.thy ===== *)
theory Spec2Isabelle
  imports Program
begin

text \<open>
  Verification of the toy blockchain: a Go program that keeps a proof-of-work chain of signed
  transfers in a JSON file, with a command line and an interactive loop.

  How the parts interact. \<open>main\<close> (src/main.go) takes the lock file, loads the chain or mines a
  genesis block, and hands the chain to the command line (src/cli/cli.go). Its commands call
  the operations of the chain (src/chain/chain.go, retarget.go, fork.go): queueing a
  transaction, mining a block, changing difficulty rules, adopting a stronger chain. These
  use the ledger (src/ledger/ledger.go), which replays blocks, and the blocks
  (src/block/block.go, merkle.go, merkle_proof.go), which are hashed and mined. After every
  command that succeeds the chain is saved.

  Theories, in the order of their imports:
  \<^item> \<open>Prelude\<close>: results with errors and panics (\<open>res\<close>), Go's 64-bit arithmetic, slice access.
  \<^item> \<open>Bytes\<close>: strings as byte lists, UTF-8, decimal and hexadecimal numbers, \<open>TrimSpace\<close>.
  \<^item> \<open>Sha256\<close>: SHA-256, executable. \<open>Json\<close>: the writer and the reader of encoding/json, and
    that reading inverts writing. \<open>Unmarshal\<close>: decoding into structs, slices and pointers.
  \<^item> \<open>Transaction\<close> (block.go, merkle.go): addresses, signed bytes, \<open>Sign\<close>, \<open>Validate\<close>.
  \<^item> \<open>Merkle\<close> (merkle.go, merkle_proof.go): root, proofs and their verification.
  \<^item> \<open>Block\<close> (block.go): the block, its hash, the proof-of-work test.
  \<^item> \<open>Mining\<close> (block.go): the workers of \<open>Mine\<close>, their shared counters and channel and the select
    loop as a step function, a run being any schedule of steps; the genesis block.
  \<^item> \<open>Ledger\<close> (ledger.go): balances and nonces in 64-bit arithmetic, blocks, rebuilding.
  \<^item> \<open>DifficultyRules\<close> (chain.go, retarget.go): the schedule, the retarget policy and
    \<open>ExpectedDifficulty\<close>. \<open>Chain\<close>: the operations of the chain and \<open>Validate\<close>.
  \<^item> \<open>ChainFile\<close> (chain.go): the file format, \<open>Save\<close> as a sequence of file operations each of
    which may fail, \<open>Load\<close>. \<open>Decoding\<close>: what \<open>Load\<close> can return.
  \<^item> \<open>Fork\<close> (fork.go): accumulated work, common ancestor, adoption, merging the pools.
  \<^item> \<open>Lock\<close> (chain.go, main.go): the lock file and the processes that share it.
  \<^item> \<open>Wallet\<close> and \<open>Cli\<close> (cli.go): the wallet file, every command, dispatch, the loop.
  \<^item> \<open>Program\<close> (main.go): a whole run, from flags to exit.

  State. A \<open>chain\<close> is the Go struct, with its slice of block pointers as a list of options; the
  ledger has partial maps; the disk is a map from paths to contents; a session (\<open>cli\<close>) holds
  the chain and the file names. What comes from outside is an argument: the mining
  environment (clock, number of processors, schedule), the failures of file calls
  (\<open>save_faults\<close>), generated keys, the rounds of the lock, all gathered in \<open>world\<close> and \<open>outside\<close>.
  Ed25519 is the record \<open>ed25519\<close>; \<open>ed25519_laws\<close> states what the code relies on for keys made
  from a seed (lengths, and that a signature verifies), and \<open>plain_ed25519\<close> is an instance of
  it. Of a key read from a wallet file, whose public half need not fit, nothing is assumed.

  Interfaces. The locales and their interpretations on the model: a digest (\<open>sha\<close>), a miner that
  seals what it returns (\<open>mn\<close>), the ledger's contract between checking and applying (\<open>led\<close>,
  \<open>fin\<close>), an append-only log (\<open>chainlog\<close>), the heaviest-chain protocol (\<open>forks\<close>), and a token
  that may be lost with its owner (\<open>filelock\<close>).

  What the lemmas show. Components: functional descriptions on every branch
  (\<open>Validate_accepts\<close>, \<open>MineBlock_extends\<close>, \<open>fork_adopts_stronger\<close>), round trips (JSON, chain
  file, wallets), binding of hashes and Merkle roots up to SHA-256 collisions, which are exhibited
  and never assumed away. Invariants: \<open>good_chain\<close> holds of a new chain and is kept by every
  operation, by forks, by commands, by the loop and, on the disk, by whole runs
  (\<open>program_keeps_file\<close>), as long as the clock is not behind the chain and arguments are UTF-8;
  the loop leaves the file holding its chain unless it told the user that a save failed.
  Refinement: commands refine the transitions of the chain, forks refine choosing the
  heaviest chain. Termination: of mining under every schedule, and of the loops
  of the model, but for the one over heights, which ends for every height but the largest.
  Errors and bounds: what overflows, which inputs make the code fail or hang, and the lock
  file that \<open>fatal\<close> leaves behind.

  Bounds and fuel. Integers have the width of the source (\<open>int\<close> is 64 bits). Lists are assumed
  shorter than 2 to the power 63 where the code takes their length as an \<open>int\<close>, as memory
  guarantees; \<open>room\<close> collects this for commands. The JSON reader has fuel
  that grows with its input and is proved to be enough for every text the program writes.
  \<open>Mine\<close>, the commands that call it and the lock yield \<open>None\<close> when their schedule or rounds end
  first. The loop of \<open>ExpectedDifficulty\<close> is a \<open>partial_function\<close>, \<open>None\<close> where it never ends; its
  callers pass this on as \<open>EndlessLoop\<close>, which no code recovers from, and \<open>repl_loop\<close> and
  \<open>main_program\<close> have no result for it: a run that hangs releases nothing. With 2 to the power 31
  workers or more the wait group of \<open>Mine\<close> panics (\<open>NegativeWaitGroup\<close>).

  Choices that Go leaves open. \<open>sort.Slice\<close> is not stable: \<open>sort_slice\<close> is the sorted list where
  the keys are distinct, as the program's own schedules are, and otherwise some sorted
  permutation of which nothing more is known. A nil slice and an empty one are both the empty
  list, and are written as \<open>[]\<close>, where Go writes \<open>null\<close> for nil; both are read back the same.

  Not modelled: the layout of printed text (\<open>String\<close> methods and format strings; a command's
  output is a list of message values), the texts of errors (each is a constructor), parsing of
  flags, permissions and directories beyond whether a call fails, the Go memory model
  (a worker's step is atomic between two accesses of shared state), the order in which Go
  iterates over a map where it is only printed, the depth limit of 10000 of the JSON
  reader, and the tests.
\<close>

end
